(* ===== verification/Transitions.thy ===== *)
theory Transitions
  imports Main
begin

text \<open>
  The contracts of a transition system: an invariant that every step keeps, and a simulation
  of the steps, within the invariant, by those of a specification; the same for steps with
  labels, whose runs have the labels they show as a trace. What follows for whole runs
  is proved here once; the step relations of the components are the interpretations.
\<close>

locale step_invariant =
  fixes stp :: "'s \<Rightarrow> 's \<Rightarrow> bool"
    and inv :: "'s \<Rightarrow> bool"
  assumes keeps: "stp s t \<Longrightarrow> inv s \<Longrightarrow> inv t"
begin

lemma keeps_runs: "stp\<^sup>*\<^sup>* s t \<Longrightarrow> inv s \<Longrightarrow> inv t"
  by (induction rule: rtranclp_induct) (auto intro: keeps)

text \<open>A relation that every step within the invariant establishes, and that composes, holds of runs.\<close>

lemma relates_runs:
  assumes "stp\<^sup>*\<^sup>* s t" and "inv s"
    and "\<And>s. rel s s" and "\<And>s t u. rel s t \<Longrightarrow> rel t u \<Longrightarrow> rel s u"
    and "\<And>s t. stp s t \<Longrightarrow> inv s \<Longrightarrow> rel s t"
  shows "rel s t"
  using assms(1)
proof (induction rule: rtranclp_induct)
  case base
  show ?case by (rule assms(3))
next
  case (step t u)
  from keeps_runs [OF step.hyps(1) assms(2)] have "rel t u" by (rule assms(5) [OF step.hyps(2)])
  with step.IH show ?case by (rule assms(4))
qed

end

locale simulation = step_invariant stp inv
  for stp :: "'s \<Rightarrow> 's \<Rightarrow> bool" and inv :: "'s \<Rightarrow> bool" +
  fixes spec :: "'a \<Rightarrow> 'a \<Rightarrow> bool"
    and abstr :: "'s \<Rightarrow> 'a"
  assumes simulates: "stp s t \<Longrightarrow> inv s \<Longrightarrow> spec\<^sup>=\<^sup>= (abstr s) (abstr t)"
begin

lemma simulates_runs:
  assumes "stp\<^sup>*\<^sup>* s t" and "inv s"
  shows "spec\<^sup>*\<^sup>* (abstr s) (abstr t)"
  using assms by (rule relates_runs) (auto dest: simulates)

end

text \<open>Runs of labelled steps, with the labels they show; a step without one shows nothing.\<close>

inductive traced :: "('s \<Rightarrow> 'l option \<Rightarrow> 's \<Rightarrow> bool) \<Rightarrow> 's \<Rightarrow> 'l list \<Rightarrow> 's \<Rightarrow> bool" for stp s where
  at_start: "traced stp s [] s"
| silent: "traced stp s ls t \<Longrightarrow> stp t None u \<Longrightarrow> traced stp s ls u"
| visible: "traced stp s ls t \<Longrightarrow> stp t (Some l) u \<Longrightarrow> traced stp s (ls @ [l]) u"

lemma traced_one: "stp s (Some l) t \<Longrightarrow> traced stp s [l] t"
  using traced.visible [OF traced.at_start] by fastforce

lemma traced_append: "traced stp t ms u \<Longrightarrow> traced stp s ls t \<Longrightarrow> traced stp s (ls @ ms) u"
proof (induction rule: traced.induct)
  case (visible ms u m v)
  then have "traced stp s ((ls @ ms) @ [m]) v" by (blast intro: traced.visible)
  then show ?case by simp
qed (auto intro: traced.silent)

text \<open>A run that shows a label: the states before and after it.\<close>

lemma traced_split:
  "traced stp s ks u \<Longrightarrow> ks = ls @ l # ms \<Longrightarrow>
     \<exists>t t'. traced stp s ls t \<and> stp t (Some l) t' \<and> traced stp t' ms u"
proof (induction arbitrary: ms rule: traced.induct)
  case (silent ks t u)
  then show ?case by (blast intro: traced.silent)
next
  case (visible ks t k u)
  show ?case
  proof (cases ms rule: rev_cases)
    case Nil
    with visible show ?thesis by (auto intro: traced.at_start)
  next
    case (snoc ms' m)
    with visible.prems have ks: "ks = ls @ l # ms'" and k: "k = m" by auto
    from visible.IH [OF ks] visible.hyps(2) snoc k show ?thesis by (blast intro: traced.visible)
  qed
qed simp

text \<open>
  A condition that every step with an allowed label keeps, over runs with such labels; and what
  each such step shows while it holds.
\<close>

lemma traced_keeps:
  assumes "traced stp s ls t" and "P s" and "list_all Q ls"
    and "\<And>t l u. stp t l u \<Longrightarrow> P t \<Longrightarrow> (\<And>x. l = Some x \<Longrightarrow> Q x) \<Longrightarrow> P u \<and> (\<forall>x. l = Some x \<longrightarrow> R x)"
  shows "P t \<and> list_all R ls"
  using assms(1,3)
proof (induction rule: traced.induct)
  case (silent ls t u)
  then show ?case using assms(4) by (metis option.distinct(1))
next
  case (visible ls t l u)
  then show ?case using assms(4) [of t "Some l" u] by auto
qed (simp add: assms(2))

locale trace_refinement =
  fixes stp :: "'s \<Rightarrow> 'l option \<Rightarrow> 's \<Rightarrow> bool"
    and inv :: "'s \<Rightarrow> bool"
    and spec :: "'a \<Rightarrow> 'l option \<Rightarrow> 'a \<Rightarrow> bool"
    and abstr :: "'s \<Rightarrow> 'a"
  assumes step_keeps: "stp s l t \<Longrightarrow> inv s \<Longrightarrow> inv t"
    and step_matches: "stp s l t \<Longrightarrow> inv s \<Longrightarrow>
          spec (abstr s) l (abstr t) \<or> l = None \<and> abstr t = abstr s"
begin

lemma trace_inv: "traced stp s ls t \<Longrightarrow> inv s \<Longrightarrow> inv t"
  by (induction rule: traced.induct) (auto intro: step_keeps)

lemma trace_refines: "traced stp s ls t \<Longrightarrow> inv s \<Longrightarrow> traced spec (abstr s) ls (abstr t)"
proof (induction rule: traced.induct)
  case (silent ls t u)
  with step_matches [of t None u] trace_inv [OF silent.hyps(1)] show ?case
    by (auto intro: traced.silent)
next
  case (visible ls t l u)
  with step_matches [of t "Some l" u] trace_inv [OF visible.hyps(1)] show ?case
    by (auto intro: traced.visible)
qed (rule traced.at_start)

end

end
