(* ===== verification/Thther_Prelude.thy ===== *)
theory Thther_Prelude
  imports Transitions "HOL-Library.Word"
begin

text \<open>
  Shared vocabulary of the development: the machine integers and byte strings of the
  program, the pieces of the Rust standard library it uses (checked and saturating
  arithmetic, big- and little-endian integer encodings, decimal and hexadecimal
  formatting, UTF-8 validation, \<open>read_exact\<close>, \<open>write_all\<close>), the error values, and the
  collections of rewrite rules the component theories share.

  A Rust \<open>String\<close> is a HOL \<open>string\<close>: a \<open>char\<close> is one byte, so a string is its
  UTF-8 encoding and \<open>length\<close> counts bytes as \<open>str::len\<close> does.
\<close>

section \<open>Rule collections and type names\<close>

named_theorems wire \<comment> \<open>facts that move bytes: encodings, take/drop, reads and writes\<close>

named_theorems arith64 \<comment> \<open>facts that move 64-bit words to naturals\<close>

type_synonym u8 = "8 word"
type_synonym u16 = "16 word"
type_synonym u32 = "32 word"
type_synonym u64 = "64 word"
type_synonym bytes = "u8 list"

section \<open>Errors\<close>

text \<open>
  The typed errors the code downcasts to (\<open>Rejection\<close> of proto/handshake.rs and
  \<open>FatalSessionError\<close> of client/session.rs), and one constructor per untyped
  \<open>bail!\<close>, \<open>anyhow!\<close> or I/O failure of the modelled functions.
\<close>

datatype rejection = NoSession | VersionMismatch | BadOffset

datatype fatal_error = OutputError | ProtocolError string

datatype error =
    UnexpectedEof
  | WriteFailed
  | NonceExhausted
  | SealFailed
  | AuthFailed
  | EmptyFrame
  | BadOutputLength
  | OutputOffsetOverflow
  | BadResize
  | BadAck
  | BadHelloMagic
  | UnknownFrameType u8
  | RecordTooLarge
  | BadRecordLength u32
  | BadSessionIdLength
  | UnknownStatus u8
  | BadMagic
  | InvalidUtf8
  | Rejected rejection
  | Fatal fatal_error
  | ConnectFailed
  | Failure string

text \<open>\<open>e.is::<Rejection>()\<close> and \<open>e.is::<FatalSessionError>()\<close>.\<close>

fun is_rejection :: "error \<Rightarrow> bool" where
  "is_rejection (Rejected r) = True"
| "is_rejection _ = False"

fun is_fatal :: "error \<Rightarrow> bool" where
  "is_fatal (Fatal f) = True"
| "is_fatal _ = False"

text \<open>An \<open>anyhow\<close> error is a chain of contexts around a root.\<close>

datatype error_chain = Root error | Context string error_chain

text \<open>\<open>{e:#}\<close>, given how the root is displayed.\<close>

fun show_chain :: "(error \<Rightarrow> string) \<Rightarrow> error_chain \<Rightarrow> string" where
  "show_chain display (Root e) = display e"
| "show_chain display (Context m e) = m @ '': '' @ show_chain display e"

fun with_context :: "string \<Rightarrow> error_chain + 'a \<Rightarrow> error_chain + 'a" where
  "with_context m (Inl e) = Inl (Context m e)"
| "with_context m (Inr x) = Inr x"

lemma with_context_Inr [simp]: "with_context m res = Inr r \<longleftrightarrow> res = Inr r"
  by (cases res) simp_all

section \<open>Checked and saturating arithmetic\<close>

definition checked_add :: "'a::len word \<Rightarrow> 'a word \<Rightarrow> 'a word option" where
  "checked_add a b = (if unat a + unat b < 2 ^ LENGTH('a) then Some (a + b) else None)"

definition saturating_sub :: "'a::len word \<Rightarrow> 'a word \<Rightarrow> 'a word" where
  "saturating_sub a b = (if a < b then 0 else a - b)"

lemma unat_add_exact:
  fixes a b :: "'a::len word"
  assumes "unat a + unat b < 2 ^ LENGTH('a)"
  shows "unat (a + b) = unat a + unat b"
  using assms by (simp add: unat_word_ariths)

lemma unat_sub_exact: "b \<le> a \<Longrightarrow> unat (a - b) = unat a - unat b"
  by (rule unat_sub)

lemma checked_add_SomeD:
  fixes a b c :: "'a::len word"
  assumes "checked_add a b = Some c"
  shows "c = a + b" and "unat c = unat a + unat b" and "unat a + unat b < 2 ^ LENGTH('a)"
  using assms by (auto simp: checked_add_def unat_add_exact split: if_splits)

lemma checked_add_None_iff:
  fixes a b :: "'a::len word"
  shows "checked_add a b = None \<longleftrightarrow> 2 ^ LENGTH('a) \<le> unat a + unat b"
  by (auto simp: checked_add_def)

lemma unat_saturating_sub [arith64]: "unat (saturating_sub a b) = unat a - unat b"
  by (simp add: saturating_sub_def unat_sub_exact word_less_nat_alt not_less word_le_nat_alt)

lemma unat_of_nat_len: "n < 2 ^ 64 \<Longrightarrow> unat (word_of_nat n :: u64) = n"
  by (simp add: unat_of_nat)

lemma unat_of_length [arith64]:
  "length xs < 2 ^ 64 \<Longrightarrow> unat (word_of_nat (length xs) :: u64) = length xs"
  by (simp add: unat_of_nat)

lemma u64_le_iff [arith64]: "(a :: u64) \<le> b \<longleftrightarrow> unat a \<le> unat b"
  by (rule word_le_nat_alt)

lemma u64_less_iff [arith64]: "(a :: u64) < b \<longleftrightarrow> unat a < unat b"
  by (rule word_less_nat_alt)

lemma unat_u64_bound [simp]: "unat (x :: u64) < 18446744073709551616"
  using unsigned_less [of x, where 'a = nat] by simp

section \<open>Integer encodings\<close>

text \<open>
  \<open>to_le_bytes\<close>, \<open>to_be_bytes\<close> and their inverses, on any width that is a whole
  number of bytes; the widths the code uses are named below.
\<close>

primrec le_digits :: "nat \<Rightarrow> nat \<Rightarrow> bytes" where
  "le_digits 0 v = []"
| "le_digits (Suc n) v = word_of_nat (v mod 256) # le_digits n (v div 256)"

primrec le_value :: "bytes \<Rightarrow> nat" where
  "le_value [] = 0"
| "le_value (b # bs) = unat b + 256 * le_value bs"

lemma length_le_digits [simp]: "length (le_digits n v) = n"
  by (induction n arbitrary: v) auto

lemma unat_byte_bound [simp]: "unat (b :: u8) < 256"
  using unsigned_less [of b, where 'a = nat] by simp

lemma unat_byte_of_nat [simp]: "unat (word_of_nat (v mod 256) :: u8) = v mod 256"
  by (simp add: unat_of_nat)

lemma le_value_bound: "le_value bs < 256 ^ length bs"
proof (induction bs)
  case Nil
  then show ?case by simp
next
  case (Cons b bs)
  have "unat b + 256 * le_value bs < 256 * Suc (le_value bs)"
    by simp
  also have "\<dots> \<le> 256 * 256 ^ length bs"
    using Cons.IH by (intro mult_le_mono2) simp
  finally show ?case by simp
qed

lemma le_value_le_digits: "v < 256 ^ n \<Longrightarrow> le_value (le_digits n v) = v"
proof (induction n arbitrary: v)
  case 0
  then show ?case by simp
next
  case (Suc n)
  then have "v div 256 < 256 ^ n"
    by (simp add: less_mult_imp_div_less mult.commute)
  with Suc.IH [of "v div 256"] show ?case by simp
qed

lemma le_digits_le_value: "le_digits (length bs) (le_value bs) = bs"
proof (induction bs)
  case Nil
  then show ?case by simp
next
  case (Cons b bs)
  have "(unat b + 256 * le_value bs) div 256 = le_value bs"
    and "(unat b + 256 * le_value bs) mod 256 = unat b"
    by (simp_all add: mod_less)
  with Cons.IH show ?case by simp
qed

definition u16_to_be :: "u16 \<Rightarrow> bytes" where "u16_to_be x = rev (le_digits 2 (unat x))"
definition u16_of_be :: "bytes \<Rightarrow> u16" where "u16_of_be bs = word_of_nat (le_value (rev bs))"
definition u32_to_be :: "u32 \<Rightarrow> bytes" where "u32_to_be x = rev (le_digits 4 (unat x))"
definition u32_of_be :: "bytes \<Rightarrow> u32" where "u32_of_be bs = word_of_nat (le_value (rev bs))"
definition u64_to_be :: "u64 \<Rightarrow> bytes" where "u64_to_be x = rev (le_digits 8 (unat x))"
definition u64_of_be :: "bytes \<Rightarrow> u64" where "u64_of_be bs = word_of_nat (le_value (rev bs))"
definition u64_to_le :: "u64 \<Rightarrow> bytes" where "u64_to_le x = le_digits 8 (unat x)"
definition u64_of_le :: "bytes \<Rightarrow> u64" where "u64_of_le bs = word_of_nat (le_value bs)"

text \<open>What the wire formats rely on: a fixed-width encoding and its inverse.\<close>

locale fixed_width =
  fixes width :: nat
    and enc :: "'a \<Rightarrow> bytes"
    and dec :: "bytes \<Rightarrow> 'a"
  assumes enc_width [simp]: "length (enc x) = width"
    and dec_enc [simp]: "dec (enc x) = x"
    and enc_dec: "length bs = width \<Longrightarrow> enc (dec bs) = bs"
begin

lemma enc_eq_iff: "enc x = enc y \<longleftrightarrow> x = y"
  by (metis dec_enc)

lemma take_enc: "take width (enc x @ rest) = enc x"
  by simp

lemma drop_enc: "drop width (enc x @ rest) = rest"
  by simp

lemma enc_append_eq: "enc x @ r = enc y @ s \<longleftrightarrow> x = y \<and> r = s"
  by (metis append_eq_append_conv enc_eq_iff enc_width)

lemma length_enc_append: "length (enc x @ rest) = width + length rest"
  by simp

end

lemma be_roundtrips:
  "u16_of_be (u16_to_be a) = a" "u32_of_be (u32_to_be b) = b"
  "u64_of_be (u64_to_be c) = c" "u64_of_le (u64_to_le c) = c"
  using unsigned_less [of a, where 'a = nat] unsigned_less [of b, where 'a = nat]
    unsigned_less [of c, where 'a = nat]
  by (simp_all add: u16_of_be_def u16_to_be_def u32_of_be_def u32_to_be_def u64_of_be_def
      u64_to_be_def u64_of_le_def u64_to_le_def le_value_le_digits)

lemma word_value_exact:
  "256 ^ length bs \<le> (2 :: nat) ^ LENGTH('a::len) \<Longrightarrow>
     unat (word_of_nat (le_value bs) :: 'a word) = le_value bs"
  using le_value_bound [of bs] by (simp add: unat_of_nat)

lemma be_inverse:
  "length bs = 2 \<Longrightarrow> u16_to_be (u16_of_be bs) = bs"
  "length bs = 4 \<Longrightarrow> u32_to_be (u32_of_be bs) = bs"
  "length bs = 8 \<Longrightarrow> u64_to_be (u64_of_be bs) = bs"
  "length bs = 8 \<Longrightarrow> u64_to_le (u64_of_le bs) = bs"
  using le_digits_le_value [of "rev bs"] le_digits_le_value [of bs]
    word_value_exact [of "rev bs", where 'a = 16] word_value_exact [of "rev bs", where 'a = 32]
    word_value_exact [of "rev bs", where 'a = 64] word_value_exact [of bs, where 'a = 64]
  by (simp_all add: u16_of_be_def u16_to_be_def u32_of_be_def u32_to_be_def u64_of_be_def
      u64_to_be_def u64_of_le_def u64_to_le_def)

interpretation be16: fixed_width 2 u16_to_be u16_of_be
  by (unfold_locales, simp add: u16_to_be_def, simp_all add: be_roundtrips be_inverse)

interpretation be32: fixed_width 4 u32_to_be u32_of_be
  by (unfold_locales, simp add: u32_to_be_def, simp_all add: be_roundtrips be_inverse)

interpretation be64: fixed_width 8 u64_to_be u64_of_be
  by (unfold_locales, simp add: u64_to_be_def, simp_all add: be_roundtrips be_inverse)

interpretation le64: fixed_width 8 u64_to_le u64_of_le
  by (unfold_locales, simp add: u64_to_le_def, simp_all add: be_roundtrips be_inverse)

section \<open>Strings\<close>

definition as_bytes :: "string \<Rightarrow> bytes" where
  "as_bytes s = map (\<lambda>c. word_of_nat (of_char c)) s"

definition string_of_bytes :: "bytes \<Rightarrow> string" where
  "string_of_bytes bs = map (\<lambda>b. char_of (unat b)) bs"

lemma length_as_bytes [simp]: "length (as_bytes s) = length s"
  by (simp add: as_bytes_def)

lemma length_string_of_bytes [simp]: "length (string_of_bytes bs) = length bs"
  by (simp add: string_of_bytes_def)

lemma char_byte_inverse: "char_of (unat (word_of_nat (of_char c) :: u8)) = c"
proof -
  have "(of_char c :: nat) < 256" by simp
  then have "unat (word_of_nat (of_char c) :: u8) = of_char c"
    by (simp add: unat_of_nat)
  then show ?thesis by simp
qed

lemma string_of_as_bytes [simp, wire]: "string_of_bytes (as_bytes s) = s"
  by (simp add: string_of_bytes_def as_bytes_def char_byte_inverse comp_def)

lemma byte_char_inverse: "word_of_nat (of_char (char_of (unat b) :: char)) = (b :: u8)"
  by simp

lemma as_bytes_of_string [simp, wire]: "as_bytes (string_of_bytes bs) = bs"
  by (simp add: string_of_bytes_def as_bytes_def byte_char_inverse comp_def)

text \<open>\<open>String::from_utf8\<close> accepts exactly the well-formed byte sequences of this table.\<close>

definition in_range :: "u8 \<Rightarrow> u8 \<Rightarrow> u8 \<Rightarrow> bool" where
  "in_range lo hi b \<longleftrightarrow> lo \<le> b \<and> b \<le> hi"

fun valid_utf8 :: "bytes \<Rightarrow> bool" where
  "valid_utf8 [] = True"
| "valid_utf8 (a # bs) =
     (if a \<le> 0x7F then valid_utf8 bs
      else if in_range 0xC2 0xDF a then
        (case bs of b # r \<Rightarrow> in_range 0x80 0xBF b \<and> valid_utf8 r | _ \<Rightarrow> False)
      else if in_range 0xE0 0xEF a then
        (case bs of
           b # c # r \<Rightarrow>
             in_range (if a = 0xE0 then 0xA0 else 0x80) (if a = 0xED then 0x9F else 0xBF) b
             \<and> in_range 0x80 0xBF c \<and> valid_utf8 r
         | _ \<Rightarrow> False)
      else if in_range 0xF0 0xF4 a then
        (case bs of
           b # c # d # r \<Rightarrow>
             in_range (if a = 0xF0 then 0x90 else 0x80) (if a = 0xF4 then 0x8F else 0xBF) b
             \<and> in_range 0x80 0xBF c \<and> in_range 0x80 0xBF d \<and> valid_utf8 r
         | _ \<Rightarrow> False)
      else False)"

lemma valid_utf8_ascii: "\<forall>b \<in> set bs. b \<le> 0x7F \<Longrightarrow> valid_utf8 bs"
  by (induction bs) auto

text \<open>
  \<open>String::from_utf8_lossy\<close>: the length of the first character, or of the longest beginning
  of one that the input breaks off or spoils, which is replaced by U+FFFD.
\<close>

definition cont_byte :: "u8 \<Rightarrow> bool" where
  "cont_byte b \<longleftrightarrow> in_range 0x80 0xBF b"

definition second_ok :: "u8 \<Rightarrow> u8 \<Rightarrow> bool" where
  "second_ok a b \<longleftrightarrow>
     in_range (if a = 0xE0 then 0xA0 else if a = 0xF0 then 0x90 else 0x80)
       (if a = 0xED then 0x9F else if a = 0xF4 then 0x8F else 0xBF) b"

definition lead_width :: "u8 \<Rightarrow> nat" where
  "lead_width a =
     (if a \<le> 0x7F then 1 else if in_range 0xC2 0xDF a then 2 else if in_range 0xE0 0xEF a then 3
      else if in_range 0xF0 0xF4 a then 4 else 0)"

fun utf8_head :: "u8 \<Rightarrow> bytes \<Rightarrow> nat \<times> bool" where
  "utf8_head a bs =
     (let w = lead_width a in
      if w = 1 then (1, True)
      else if w = 0 \<or> bs = [] \<or> \<not> second_ok a (hd bs) then (1, False)
      else if w = 2 then (2, True)
      else if tl bs = [] \<or> \<not> cont_byte (hd (tl bs)) then (2, False)
      else if w = 3 then (3, True)
      else if tl (tl bs) = [] \<or> \<not> cont_byte (hd (tl (tl bs))) then (3, False)
      else (4, True))"

declare utf8_head.simps [simp del]

lemma utf8_head_pos: "utf8_head a bs = (n, ok) \<Longrightarrow> 0 < n \<and> n \<le> 4"
  by (auto simp: utf8_head.simps Let_def split: if_splits)

function lossy :: "bytes \<Rightarrow> bytes" where
  "lossy [] = []"
| "lossy (a # bs) =
     (case utf8_head a bs of
        (n, ok) \<Rightarrow> (if ok then take n (a # bs) else [0xEF, 0xBF, 0xBD]) @ lossy (drop n (a # bs)))"
  by pat_completeness auto
termination
  by (relation "measure length") (auto dest!: utf8_head_pos [OF sym] simp: diff_less)

declare lossy.simps(2) [simp del]

lemma newline_breaks [simp]: "\<not> second_ok a 0x0A" "\<not> cont_byte 0x0A"
  by (simp_all add: second_ok_def cont_byte_def in_range_def)

lemma utf8_head_newline: "utf8_head a (xs @ 0x0A # ys) = utf8_head a xs"
  by (cases xs; cases "tl xs"; cases "tl (tl xs)") (auto simp: utf8_head.simps Let_def)

lemma utf8_head_length: "utf8_head a xs = (n, ok) \<Longrightarrow> n \<le> length (a # xs)"
  by (cases xs; cases "tl xs"; cases "tl (tl xs)")
    (auto simp: utf8_head.simps Let_def split: if_splits)

lemma lossy_newline: "lossy (xs @ 0x0A # ys) = lossy xs @ 0x0A # lossy ys"
proof (induction xs rule: lossy.induct)
  case 1
  have "utf8_head 0x0A ys = (1, True)" by (simp add: utf8_head.simps lead_width_def)
  then show ?case by (simp add: lossy.simps(2))
next
  case (2 a bs)
  obtain n ok where h: "utf8_head a bs = (n, ok)" by force
  from utf8_head_length [OF h] have n: "n \<le> length (a # bs)" .
  have "lossy ((a # bs) @ 0x0A # ys) =
      (if ok then take n (a # bs @ 0x0A # ys) else [0xEF, 0xBF, 0xBD]) @ lossy (drop n (a # bs @ 0x0A # ys))"
    by (simp add: lossy.simps(2) utf8_head_newline h)
  also have "drop n (a # bs @ 0x0A # ys) = drop n (a # bs) @ 0x0A # ys"
    using n drop_append [of n "a # bs" "0x0A # ys"] by simp
  also have "take n (a # bs @ 0x0A # ys) = take n (a # bs)"
    using n take_append [of n "a # bs" "0x0A # ys"] by simp
  finally show ?case using 2 [OF h [symmetric]] by (simp add: lossy.simps(2) h)
qed

lemma second_ok_class:
  "in_range 0xC2 0xDF a \<Longrightarrow> second_ok a b \<longleftrightarrow> in_range 0x80 0xBF b"
  "in_range 0xE0 0xEF a \<Longrightarrow> second_ok a b \<longleftrightarrow>
     in_range (if a = 0xE0 then 0xA0 else 0x80) (if a = 0xED then 0x9F else 0xBF) b"
  "in_range 0xF0 0xF4 a \<Longrightarrow> second_ok a b \<longleftrightarrow>
     in_range (if a = 0xF0 then 0x90 else 0x80) (if a = 0xF4 then 0x8F else 0xBF) b"
  unfolding second_ok_def by (auto simp: in_range_def)

lemma utf8_head_valid:
  assumes "valid_utf8 (a # bs)"
  shows "\<exists>n. utf8_head a bs = (n, True) \<and> valid_utf8 (drop n (a # bs))"
proof -
  consider (one) "a \<le> 0x7F" | (two) "\<not> a \<le> 0x7F" "in_range 0xC2 0xDF a"
    | (three) "\<not> a \<le> 0x7F" "\<not> in_range 0xC2 0xDF a" "in_range 0xE0 0xEF a"
    | (four) "\<not> a \<le> 0x7F" "\<not> in_range 0xC2 0xDF a" "\<not> in_range 0xE0 0xEF a" "in_range 0xF0 0xF4 a"
    using assms by (auto split: if_splits)
  then show ?thesis
  proof cases
    case one
    with assms show ?thesis by (simp add: utf8_head.simps lead_width_def)
  next
    case two
    with assms obtain b r where "bs = b # r" "in_range 0x80 0xBF b" "valid_utf8 r"
      by (auto split: list.splits)
    with two show ?thesis by (simp add: utf8_head.simps lead_width_def second_ok_class)
  next
    case three
    with assms obtain b c r where "bs = b # c # r" "second_ok a b" "cont_byte c" "valid_utf8 r"
      unfolding second_ok_class(2) [OF three(3)] cont_byte_def valid_utf8.simps(2)
      by (simp only: if_True if_False split: list.splits)
    with three show ?thesis by (simp add: utf8_head.simps lead_width_def)
  next
    case four
    with assms obtain b c d r where
        "bs = b # c # d # r" "second_ok a b" "cont_byte c" "cont_byte d" "valid_utf8 r"
      unfolding second_ok_class(3) [OF four(4)] cont_byte_def valid_utf8.simps(2)
      by (simp only: if_True if_False split: list.splits)
    with four show ?thesis by (simp add: utf8_head.simps lead_width_def)
  qed
qed

lemma lossy_valid: "valid_utf8 bs \<Longrightarrow> lossy bs = bs"
proof (induction bs rule: lossy.induct)
  case (2 a bs)
  from utf8_head_valid [OF "2.prems"] obtain n where
      h: "utf8_head a bs = (n, True)" "valid_utf8 (drop n (a # bs))" by blast
  then show ?case using "2.IH" [OF h(1) [symmetric] h(2)] h(1) by (simp add: lossy.simps(2))
qed simp

text \<open>\<open>str::lines\<close>, with the characters of the current line so far.\<close>

fun split_lines :: "string \<Rightarrow> string \<Rightarrow> string list" where
  "split_lines acc [] = (if acc = [] then [] else [acc])"
| "split_lines acc (c # cs) =
     (if c = CHR 0x0A
      then (if acc \<noteq> [] \<and> last acc = CHR 0x0D then butlast acc else acc) # split_lines [] cs
      else split_lines (acc @ [c]) cs)"

definition str_lines :: "string \<Rightarrow> string list" where
  "str_lines s = split_lines [] s"

lemma split_lines_newline: "\<exists>ls. split_lines acc (xs @ CHR 0x0A # ys) = ls @ str_lines ys"
proof (induction xs arbitrary: acc)
  case Nil
  then show ?case by (auto simp: str_lines_def)
next
  case (Cons x xs)
  show ?case
  proof (cases "x = CHR 0x0A")
    case True
    from Cons.IH [of "[]"] obtain ls where "split_lines [] (xs @ CHR 0x0A # ys) = ls @ str_lines ys" by blast
    with True show ?thesis by (metis append_Cons split_lines.simps(2))
  next
    case False
    with Cons.IH [of "acc @ [x]"] show ?thesis by simp
  qed
qed

lemma split_lines_plain: "CHR 0x0A \<notin> set xs \<Longrightarrow> split_lines acc (xs @ ys) = split_lines (acc @ xs) ys"
  by (induction xs arbitrary: acc) auto

text \<open>
  \<open>str::trim\<close>: the encodings of the Unicode \<open>White_Space\<close> characters, stripped from both
  ends. In well-formed UTF-8 a suffix that spells one of them is that character.
\<close>

definition white_space :: "bytes list" where
  "white_space =
     [[0x09], [0x0A], [0x0B], [0x0C], [0x0D], [0x20], [0xC2, 0x85], [0xC2, 0xA0], [0xE1, 0x9A, 0x80]] @
     map (\<lambda>i. [0xE2, 0x80, 0x80 + word_of_nat i]) [0..<11] @
     [[0xE2, 0x80, 0xA8], [0xE2, 0x80, 0xA9], [0xE2, 0x80, 0xAF], [0xE2, 0x81, 0x9F], [0xE3, 0x80, 0x80]]"

function strip :: "bytes list \<Rightarrow> bytes \<Rightarrow> bytes" where
  "strip pats bs =
     (case List.find (\<lambda>p. p \<noteq> [] \<and> take (length p) bs = p) pats of
        None \<Rightarrow> bs
      | Some p \<Rightarrow> strip pats (drop (length p) bs))"
  by pat_completeness auto
termination
proof (relation "measure (\<lambda>(pats, bs). length bs)")
  fix pats bs p
  assume "List.find (\<lambda>p. p \<noteq> [] \<and> take (length p) bs = p) pats = Some p"
  then have "p \<noteq> []" and "take (length p) bs = p" by (auto simp: find_Some_iff)
  then show "((pats, drop (length p) bs), (pats, bs)) \<in> measure (\<lambda>(pats, bs). length bs)"
    by (cases bs) (auto simp: diff_less)
qed simp

declare strip.simps [simp del]

definition str_trim :: "string \<Rightarrow> string" where
  "str_trim s = string_of_bytes (rev (strip (map rev white_space) (rev (strip white_space (as_bytes s)))))"

text \<open>\<open>Display\<close> of an unsigned integer, and the format \<open>{n:08x}\<close> of a \<open>u32\<close>.\<close>

definition dec_digit :: "nat \<Rightarrow> char" where
  "dec_digit d = char_of (48 + d)"

fun dec_string :: "nat \<Rightarrow> string" where
  "dec_string n =
     (if n < 10 then [dec_digit n] else dec_string (n div 10) @ [dec_digit (n mod 10)])"

declare dec_string.simps [simp del]

definition hex_digit :: "nat \<Rightarrow> char" where
  "hex_digit d = (if d < 10 then char_of (48 + d) else char_of (87 + d))"

definition hex8 :: "u32 \<Rightarrow> string" where
  "hex8 n = map (\<lambda>i. hex_digit (unat n div 16 ^ i mod 16)) [7, 6, 5, 4, 3, 2, 1, 0]"

lemma length_hex8 [simp]: "length (hex8 n) = 8"
  by (simp add: hex8_def)

lemma hex_digit_ascii:
  assumes "d < 16"
  shows "(word_of_nat (of_char (hex_digit d)) :: u8) \<le> 0x7F"
proof -
  have "(of_char (hex_digit d) :: nat) < 128" using assms by (simp add: hex_digit_def)
  then show ?thesis by (simp add: word_le_nat_alt unat_of_nat)
qed

lemma hex8_utf8: "valid_utf8 (as_bytes (hex8 n))"
  by (rule valid_utf8_ascii) (auto simp: as_bytes_def hex8_def hex_digit_ascii)

section \<open>Byte streams and sinks\<close>

text \<open>
  The read half of a connection is the list of bytes the peer's data will still
  deliver before end of file. \<open>read_exact\<close> takes the first \<open>n\<close> of them or fails.
\<close>

definition read_exact :: "nat \<Rightarrow> bytes \<Rightarrow> error + (bytes \<times> bytes)" where
  "read_exact n s = (if length s < n then Inl UnexpectedEof else Inr (take n s, drop n s))"

lemma read_exact_append [simp, wire]: "length xs = n \<Longrightarrow> read_exact n (xs @ ys) = Inr (xs, ys)"
  by (simp add: read_exact_def)

lemma read_exact_one [simp, wire]: "read_exact (Suc 0) (b # bs) = Inr ([b], bs)"
  by (simp add: read_exact_def)

lemma read_exact_short [wire]: "length s < n \<Longrightarrow> read_exact n s = Inl UnexpectedEof"
  by (simp add: read_exact_def)

lemma read_exact_InrD: "read_exact n s = Inr (a, b) \<Longrightarrow> s = a @ b \<and> length a = n"
  by (auto simp: read_exact_def split: if_splits)

lemma read_exact_InlD: "read_exact n s = Inl e \<Longrightarrow> e = UnexpectedEof \<and> length s < n"
  by (auto simp: read_exact_def split: if_splits)

text \<open>
  The write half of a connection, or standard output: what it has taken so far, how many
  more bytes it takes before a write fails (\<open>None\<close>: no write fails), and whether
  \<open>flush\<close> succeeds. \<open>write_all\<close> may fail after part of the bytes has gone out.
\<close>

record sink =
  written :: bytes
  room :: "nat option"
  flush_ok :: bool

definition write_all :: "sink \<Rightarrow> bytes \<Rightarrow> sink \<times> bool" where
  "write_all w bs =
     (case room w of
        None \<Rightarrow> (w\<lparr>written := written w @ bs\<rparr>, True)
      | Some n \<Rightarrow>
          if length bs \<le> n
          then (w\<lparr>written := written w @ bs, room := Some (n - length bs)\<rparr>, True)
          else (w\<lparr>written := written w @ take n bs, room := Some 0\<rparr>, False))"

definition open_sink :: sink where
  "open_sink = \<lparr>written = [], room = None, flush_ok = True\<rparr>"

definition reliable :: "sink \<Rightarrow> bool" where
  "reliable w \<longleftrightarrow> room w = None \<and> flush_ok w"

lemma write_all_nil [simp]: "write_all w [] = (w, True)"
  by (cases w) (simp add: write_all_def split: option.splits)

lemma write_all_True:
  "write_all w bs = (w', True) \<Longrightarrow> written w' = written w @ bs \<and> flush_ok w' = flush_ok w"
  by (auto simp: write_all_def split: option.splits if_splits)

lemma write_all_prefix:
  "write_all w bs = (w', ok) \<Longrightarrow> \<exists>k. written w' = written w @ take k bs \<and> flush_ok w' = flush_ok w"
  by (auto simp: write_all_def split: option.splits if_splits intro: exI [of _ "length bs"])

lemma write_all_reliable [simp]:
  "reliable w \<Longrightarrow> write_all w bs = (w\<lparr>written := written w @ bs\<rparr>, True)"
  by (simp add: write_all_def reliable_def)

lemma reliable_update [simp]: "reliable (w\<lparr>written := x\<rparr>) = reliable w"
  by (simp add: reliable_def)

lemma reliable_open_sink [simp]: "reliable open_sink" "written open_sink = []"
  by (simp_all add: reliable_def open_sink_def)

text \<open>\<open>w.write_all(&buf).await?; w.flush().await?\<close>, the end of every message writer.\<close>

definition send_flushed :: "sink \<Rightarrow> bytes \<Rightarrow> sink \<times> (error + unit)" where
  "send_flushed w bs =
     (case write_all w bs of
        (w1, False) \<Rightarrow> (w1, Inl WriteFailed)
      | (w1, True) \<Rightarrow> if flush_ok w1 then (w1, Inr ()) else (w1, Inl WriteFailed))"

lemma send_flushed_InrD:
  "send_flushed w bs = (w', Inr u) \<Longrightarrow> written w' = written w @ bs"
  by (auto simp: send_flushed_def dest!: write_all_True split: prod.splits bool.splits if_splits)

lemma send_flushed_reliable [simp]:
  "reliable w \<Longrightarrow> send_flushed w bs = (w\<lparr>written := written w @ bs\<rparr>, Inr ())"
  by (simp add: send_flushed_def) (simp add: reliable_def)

end
