(* ===== verification/Crypto.thy ===== *)
theory Crypto
  imports Thther_Prelude
begin

text \<open>
  proto/crypto.rs: the per-direction record sealer and opener and the key derivation.
  ChaCha20-Poly1305 and HKDF-SHA256 are third-party: a cipher object is a record of two
  functions, the constructor and the key derivation function are arguments, and what the
  code relies on is the predicate \<open>cipher_ok\<close> (decryption inverts encryption and
  accepts nothing else under the same nonce, the tag adds 16 bytes) and
  \<open>nonce_bound\<close> (a record sealed under one nonce does not open under another).
\<close>

section \<open>The cipher object\<close>

record cipher =
  encrypt :: "bytes \<Rightarrow> bytes \<Rightarrow> bytes option"
  decrypt :: "bytes \<Rightarrow> bytes \<Rightarrow> bytes option"

definition cipher_ok :: "cipher \<Rightarrow> bool" where
  "cipher_ok c \<longleftrightarrow>
     (\<forall>n p ct. encrypt c n p = Some ct \<longleftrightarrow> decrypt c n ct = Some p) \<and>
     (\<forall>n p ct. encrypt c n p = Some ct \<longrightarrow> length ct = length p + 16)"

definition nonce_bound :: "cipher \<Rightarrow> bool" where
  "nonce_bound c \<longleftrightarrow>
     (\<forall>n n' p ct. encrypt c n p = Some ct \<longrightarrow> length n = 12 \<longrightarrow> length n' = 12 \<longrightarrow> n' \<noteq> n \<longrightarrow>
        decrypt c n' ct = None)"

lemma cipher_okD:
  assumes "cipher_ok c"
  shows "encrypt c n p = Some ct \<longleftrightarrow> decrypt c n ct = Some p"
    and "encrypt c n p = Some ct \<Longrightarrow> length ct = length p + 16"
  using assms by (auto simp: cipher_ok_def)

section \<open>Keys, nonces, sealers and openers\<close>

definition KEY_LEN :: nat where "KEY_LEN = 32"
definition NONCE_LEN :: nat where "NONCE_LEN = 32"
definition DIR_CLIENT_TO_SERVER :: u8 where "DIR_CLIENT_TO_SERVER = 0"
definition DIR_SERVER_TO_CLIENT :: u8 where "DIR_SERVER_TO_CLIENT = 1"

text \<open>The arguments of the key derivation function: salt, key material, info, length.\<close>

type_synonym kdf = "bytes \<Rightarrow> bytes \<Rightarrow> bytes \<Rightarrow> nat \<Rightarrow> bytes"

definition derive_key :: "kdf \<Rightarrow> bytes \<Rightarrow> bytes \<Rightarrow> bytes \<Rightarrow> bytes" where
  "derive_key hkdf psk client_nonce server_nonce =
     hkdf (client_nonce @ server_nonce) psk (as_bytes ''thther-v1-session-key'') KEY_LEN"

record sealer =
  s_cipher :: cipher
  s_dir :: u8
  s_counter :: u64

record opener =
  o_cipher :: cipher
  o_dir :: u8
  o_counter :: u64

definition nonce_for :: "u8 \<Rightarrow> u64 \<Rightarrow> bytes" where
  "nonce_for dir counter = dir # u64_to_le counter @ [0, 0, 0]"

definition new_sealer :: "(bytes \<Rightarrow> cipher) \<Rightarrow> bytes \<Rightarrow> u8 \<Rightarrow> sealer" where
  "new_sealer new_cipher key dir = \<lparr>s_cipher = new_cipher key, s_dir = dir, s_counter = 0\<rparr>"

definition new_opener :: "(bytes \<Rightarrow> cipher) \<Rightarrow> bytes \<Rightarrow> u8 \<Rightarrow> opener" where
  "new_opener new_cipher key dir = \<lparr>o_cipher = new_cipher key, o_dir = dir, o_counter = 0\<rparr>"

definition seal :: "sealer \<Rightarrow> bytes \<Rightarrow> sealer \<times> (error + bytes)" where
  "seal s plaintext =
     (let nonce = nonce_for (s_dir s) (s_counter s) in
      case checked_add (s_counter s) 1 of
        None \<Rightarrow> (s, Inl NonceExhausted)
      | Some c \<Rightarrow>
          let s' = s\<lparr>s_counter := c\<rparr> in
          case encrypt (s_cipher s) nonce plaintext of
            None \<Rightarrow> (s', Inl SealFailed)
          | Some ct \<Rightarrow> (s', Inr ct))"

definition open_record :: "opener \<Rightarrow> bytes \<Rightarrow> opener \<times> (error + bytes)" where
  "open_record r ciphertext =
     (let nonce = nonce_for (o_dir r) (o_counter r) in
      case decrypt (o_cipher r) nonce ciphertext of
        None \<Rightarrow> (r, Inl AuthFailed)
      | Some pt \<Rightarrow>
          (case checked_add (o_counter r) 1 of
             None \<Rightarrow> (r, Inl NonceExhausted)
           | Some c \<Rightarrow> (r\<lparr>o_counter := c\<rparr>, Inr pt)))"

section \<open>Nonces\<close>

lemma length_nonce_for [simp]: "length (nonce_for d c) = 12"
  by (simp add: nonce_for_def)

lemma nonce_for_eq_iff: "nonce_for d c = nonce_for d' c' \<longleftrightarrow> d = d' \<and> c = c'"
  by (auto simp: nonce_for_def le64.enc_append_eq le64.enc_eq_iff)

text \<open>
  The nonce a call of \<open>seal\<close> hands to the cipher (none when the counter is exhausted),
  and the nonces of a whole run of calls.
\<close>

definition seal_nonce :: "sealer \<Rightarrow> bytes option" where
  "seal_nonce s =
     (if checked_add (s_counter s) 1 = None then None else Some (nonce_for (s_dir s) (s_counter s)))"

fun seal_nonces :: "sealer \<Rightarrow> bytes list \<Rightarrow> bytes list" where
  "seal_nonces s [] = []"
| "seal_nonces s (m # ms) =
     (case seal_nonce s of None \<Rightarrow> [] | Some n \<Rightarrow> [n]) @ seal_nonces (fst (seal s m)) ms"

lemma seal_uses_nonce:
  "seal s m = (s', Inr ct) \<Longrightarrow> \<exists>n. seal_nonce s = Some n \<and> encrypt (s_cipher s) n m = Some ct"
  by (auto simp: seal_def seal_nonce_def Let_def split: option.splits)

lemma seal_frame:
  assumes "seal s m = (s', res)"
  shows "s_cipher s' = s_cipher s" and "s_dir s' = s_dir s"
    and "unat (s_counter s') = unat (s_counter s) + (if seal_nonce s = None then 0 else 1)"
  using assms
  by (auto simp: seal_def seal_nonce_def Let_def dest: checked_add_SomeD split: option.splits)

lemma seal_nonces_later:
  "n \<in> set (seal_nonces s ms) \<Longrightarrow> \<exists>c. n = nonce_for (s_dir s) c \<and> unat (s_counter s) \<le> unat c"
proof (induction ms arbitrary: s)
  case Nil
  then show ?case by simp
next
  case (Cons m ms)
  obtain s' res where s': "seal s m = (s', res)" by force
  show ?case
  proof (cases "n \<in> set (seal_nonces s' ms)")
    case True
    with Cons.IH [of s'] seal_frame [OF s'] show ?thesis by (auto split: if_splits)
  next
    case False
    with Cons.prems s' have "seal_nonce s = Some n" by (auto split: option.splits)
    then show ?thesis by (auto simp: seal_nonce_def split: if_splits)
  qed
qed

lemma distinct_seal_nonces: "distinct (seal_nonces s ms)"
proof (induction ms arbitrary: s)
  case Nil
  then show ?case by simp
next
  case (Cons m ms)
  obtain s' res where s': "seal s m = (s', res)" by force
  have "nonce_for (s_dir s) (s_counter s) \<notin> set (seal_nonces s' ms)"
    if "seal_nonce s \<noteq> None"
  proof
    assume "nonce_for (s_dir s) (s_counter s) \<in> set (seal_nonces s' ms)"
    from seal_nonces_later [OF this] have "unat (s_counter s') \<le> unat (s_counter s)"
      by (auto simp: nonce_for_eq_iff)
    with seal_frame(3) [OF s'] that show False by simp
  qed
  with Cons.IH [of s'] s' show ?case
    by (auto simp: seal_nonce_def split: if_splits)
qed

section \<open>Reliable in-order delivery over a pair of synchronised ends\<close>

text \<open>A stateful operation applied to each element of a list in turn, stopping at an error.\<close>

fun traverse :: "('s \<Rightarrow> 'm \<Rightarrow> 's \<times> (error + 'c)) \<Rightarrow> 's \<Rightarrow> 'm list \<Rightarrow> 's \<times> (error + 'c list)" where
  "traverse f s [] = (s, Inr [])"
| "traverse f s (m # ms) =
     (case f s m of
        (s', Inl e) \<Rightarrow> (s', Inl e)
      | (s', Inr c) \<Rightarrow>
          (case traverse f s' ms of
             (s'', Inl e) \<Rightarrow> (s'', Inl e)
           | (s'', Inr cs) \<Rightarrow> (s'', Inr (c # cs))))"

text \<open>
  The contract of a record channel: the two ends are synchronised, and every record the
  sender makes opens to the message at the receiver and keeps them synchronised. In a
  tight channel the receiver opens nothing but what the sender would have made.
\<close>

locale record_channel =
  fixes put :: "'s \<Rightarrow> 'm \<Rightarrow> 's \<times> (error + 'c)"
    and get :: "'r \<Rightarrow> 'c \<Rightarrow> 'r \<times> (error + 'm)"
    and synced :: "'s \<Rightarrow> 'r \<Rightarrow> bool"
  assumes put_get: "synced s r \<Longrightarrow> put s m = (s', Inr c) \<Longrightarrow> \<exists>r'. get r c = (r', Inr m) \<and> synced s' r'"
begin

lemma deliver_all:
  "synced s r \<Longrightarrow> traverse put s ms = (s', Inr cs) \<Longrightarrow>
     \<exists>r'. traverse get r cs = (r', Inr ms) \<and> synced s' r'"
proof (induction ms arbitrary: s r cs)
  case Nil
  then show ?case by auto
next
  case (Cons m ms)
  from Cons.prems(2) obtain s1 c cs' where
      1: "put s m = (s1, Inr c)" and 2: "traverse put s1 ms = (s', Inr cs')" and "cs = c # cs'"
    by (auto split: prod.splits sum.splits)
  from put_get [OF Cons.prems(1) 1] obtain r1 where r1: "get r c = (r1, Inr m)" "synced s1 r1"
    by blast
  from Cons.IH [OF r1(2) 2] obtain r' where "traverse get r1 cs' = (r', Inr ms)" "synced s' r'"
    by blast
  with r1 \<open>cs = c # cs'\<close> show ?case by auto
qed

end

locale tight_channel = record_channel put get synced
  for put :: "'s \<Rightarrow> 'm \<Rightarrow> 's \<times> (error + 'c)"
    and get :: "'r \<Rightarrow> 'c \<Rightarrow> 'r \<times> (error + 'm)"
    and synced :: "'s \<Rightarrow> 'r \<Rightarrow> bool" +
  assumes get_put: "synced s r \<Longrightarrow> get r c = (r', Inr m) \<Longrightarrow> \<exists>s'. put s m = (s', Inr c)"
begin

lemma accepted_were_sent:
  "synced s r \<Longrightarrow> traverse get r cs = (r', Inr ms) \<Longrightarrow> \<exists>s'. traverse put s ms = (s', Inr cs)"
proof (induction cs arbitrary: s r ms)
  case Nil
  then show ?case by auto
next
  case (Cons c cs)
  from Cons.prems(2) obtain r1 m ms' where
      1: "get r c = (r1, Inr m)" and 2: "traverse get r1 cs = (r', Inr ms')" and "ms = m # ms'"
    by (auto split: prod.splits sum.splits)
  from get_put [OF Cons.prems(1) 1] obtain s1 where s1: "put s m = (s1, Inr c)" by blast
  with put_get [OF Cons.prems(1) s1] 1 have "synced s1 r1" by auto
  from Cons.IH [OF this 2] obtain s' where "traverse put s1 ms' = (s', Inr cs)" by blast
  with s1 \<open>ms = m # ms'\<close> show ?case by auto
qed

end

definition in_sync :: "sealer \<Rightarrow> opener \<Rightarrow> bool" where
  "in_sync s r \<longleftrightarrow>
     cipher_ok (s_cipher s) \<and> o_cipher r = s_cipher s \<and> o_dir r = s_dir s \<and> o_counter r = s_counter s"

lemma seal_open:
  assumes "in_sync s r" and "seal s m = (s', Inr c)"
  shows "\<exists>r'. open_record r c = (r', Inr m) \<and> in_sync s' r'"
  using assms cipher_okD(1) [of "s_cipher s"]
  by (auto simp: in_sync_def seal_def open_record_def Let_def split: option.splits)

lemma open_seal:
  assumes "in_sync s r" and "open_record r c = (r', Inr m)"
  shows "\<exists>s'. seal s m = (s', Inr c)"
proof -
  from assms have "decrypt (s_cipher s) (nonce_for (s_dir s) (s_counter s)) c = Some m"
    and "checked_add (s_counter s) 1 \<noteq> None"
    by (auto simp: in_sync_def open_record_def split: option.splits)
  moreover from this(1) assms(1) have "encrypt (s_cipher s) (nonce_for (s_dir s) (s_counter s)) m = Some c"
    by (simp add: in_sync_def cipher_okD(1))
  ultimately show ?thesis by (auto simp: seal_def)
qed

lemma open_error_unchanged: "open_record r c = (r', Inl e) \<Longrightarrow> r' = r"
  by (auto simp: open_record_def Let_def split: option.splits)

interpretation record_layer: tight_channel seal open_record in_sync
  by unfold_locales (auto simp: seal_open open_seal)

lemma seal_length: "cipher_ok (s_cipher s) \<Longrightarrow> seal s m = (s', Inr c) \<Longrightarrow> length c = length m + 16"
  by (auto simp: seal_def Let_def cipher_okD split: option.splits)

lemma new_ends_in_sync:
  "cipher_ok (mk key) \<Longrightarrow> in_sync (new_sealer mk key d) (new_opener mk key d)"
  by (simp add: in_sync_def new_sealer_def new_opener_def)

text \<open>A record that was already opened, or comes out of order, or from the other direction.\<close>

lemma open_other_nonce:
  assumes "nonce_bound (o_cipher r)" and "o_cipher r = s_cipher s"
    and "seal s m = (s', Inr c)" and "(o_dir r, o_counter r) \<noteq> (s_dir s, s_counter s)"
  shows "open_record r c = (r, Inl AuthFailed)"
proof -
  from assms(3) have "encrypt (s_cipher s) (nonce_for (s_dir s) (s_counter s)) m = Some c"
    by (auto simp: seal_def Let_def split: option.splits)
  with assms have "decrypt (o_cipher r) (nonce_for (o_dir r) (o_counter r)) c = None"
    unfolding nonce_bound_def by (metis Pair_inject length_nonce_for nonce_for_eq_iff)
  then show ?thesis by (simp add: open_record_def)
qed

section \<open>A concrete cipher\<close>

text \<open>
  The identity with the nonce as its tag: it satisfies the hypotheses on ciphers, so they
  can hold together, and closed examples compute with it.
\<close>

definition tag_cipher :: cipher where
  "tag_cipher =
     \<lparr>encrypt = (\<lambda>n p. Some (p @ take 16 (n @ replicate 16 0))),
      decrypt = (\<lambda>n c.
        if 16 \<le> length c \<and> drop (length c - 16) c = take 16 (n @ replicate 16 0)
        then Some (take (length c - 16) c) else None)\<rparr>"

lemma tag_cipher_ok: "cipher_ok tag_cipher"
proof -
  have "encrypt tag_cipher n p = Some ct \<longleftrightarrow> decrypt tag_cipher n ct = Some p" for n p ct
  proof
    assume "encrypt tag_cipher n p = Some ct"
    then show "decrypt tag_cipher n ct = Some p"
      by (auto simp: tag_cipher_def)
  next
    assume "decrypt tag_cipher n ct = Some p"
    then show "encrypt tag_cipher n p = Some ct"
      by (auto simp: tag_cipher_def split: if_splits) (metis append_take_drop_id)
  qed
  then show ?thesis
    by (auto simp: cipher_ok_def tag_cipher_def)
qed

lemma tag_cipher_nonce_bound: "nonce_bound tag_cipher"
  by (auto simp: nonce_bound_def tag_cipher_def)

section \<open>Properties\<close>

text \<open>No nonce is used twice on a connection: the nonces of one direction's sealer are
  pairwise distinct over any run of calls, whatever fails in between, and none of them is
  used by the sealer of the other direction.\<close>

theorem nonces_never_repeat:
  assumes "s_dir s \<noteq> s_dir t"
  shows "distinct (seal_nonces s ms @ seal_nonces t ns)"
  using assms distinct_seal_nonces [of s ms] distinct_seal_nonces [of t ns]
  by (auto simp: nonce_for_eq_iff dest!: seal_nonces_later)

theorem nonces_never_repeat_witness:
  "distinct
     (seal_nonces (new_sealer (\<lambda>_. tag_cipher) [] DIR_CLIENT_TO_SERVER) [[1], [2]] @
      seal_nonces (new_sealer (\<lambda>_. tag_cipher) [] DIR_SERVER_TO_CLIENT) [[1]])"
  by (rule nonces_never_repeat)
    (simp add: new_sealer_def DIR_CLIENT_TO_SERVER_def DIR_SERVER_TO_CLIENT_def)

text \<open>C19. A synchronised opener accepts exactly what the sealer produces: a sequence of
  records opens to a sequence of messages if and only if sealing these messages produces
  these records, in this order and with none left out.\<close>

theorem records_exactly_delivered:
  assumes "in_sync s r"
  shows "(\<exists>s'. traverse seal s ms = (s', Inr cs)) \<longleftrightarrow> (\<exists>r'. traverse open_record r cs = (r', Inr ms))"
  using record_layer.deliver_all [OF assms] record_layer.accepted_were_sent [OF assms] by blast

theorem records_exactly_delivered_witness:
  "\<exists>cs r'. traverse open_record (new_opener (\<lambda>_. tag_cipher) [] 0) cs = (r', Inr [[7], [8, 9]])"
proof -
  have "\<exists>cs s'. traverse seal (new_sealer (\<lambda>_. tag_cipher) [] 0) [[7], [8, 9]] = (s', Inr cs)"
    by (simp add: seal_def new_sealer_def tag_cipher_def checked_add_def)
  with records_exactly_delivered [OF new_ends_in_sync, of "\<lambda>_. tag_cipher" "[]" 0 "[[7], [8, 9]]"]
  show ?thesis by (auto simp: tag_cipher_ok)
qed

lemma seal_run_nth:
  "traverse seal s ms = (s', Inr cs) \<Longrightarrow> i < length cs \<Longrightarrow>
     \<exists>t t'. s_cipher t = s_cipher s \<and> s_dir t = s_dir s \<and>
            unat (s_counter t) = unat (s_counter s) + i \<and> seal t (ms ! i) = (t', Inr (cs ! i))"
proof (induction ms arbitrary: s cs i)
  case Nil
  then show ?case by simp
next
  case (Cons m ms)
  from Cons.prems(1) obtain s1 c cs' where
      1: "seal s m = (s1, Inr c)" and 2: "traverse seal s1 ms = (s', Inr cs')" and cs: "cs = c # cs'"
    by (auto split: prod.splits sum.splits)
  show ?case
  proof (cases i)
    case 0
    with 1 cs show ?thesis by auto
  next
    case (Suc k)
    with Cons.IH [OF 2, of k] Cons.prems(2) cs obtain t t' where
        t: "s_cipher t = s_cipher s1" "s_dir t = s_dir s1"
          "unat (s_counter t) = unat (s_counter s1) + k" "seal t (ms ! k) = (t', Inr (cs' ! k))" by auto
    have "seal_nonce s \<noteq> None" using seal_uses_nonce [OF 1] by auto
    with t seal_frame [OF 1] Suc cs show ?thesis
      by (intro exI [of _ t] exI [of _ t']) simp
  qed
qed

lemma open_run_counter:
  "traverse open_record r cs = (r', Inr ms) \<Longrightarrow>
     o_cipher r' = o_cipher r \<and> o_dir r' = o_dir r \<and> unat (o_counter r') = unat (o_counter r) + length cs"
proof (induction cs arbitrary: r ms)
  case (Cons c cs)
  from Cons.prems obtain r1 m ms' where
      1: "open_record r c = (r1, Inr m)" and 2: "traverse open_record r1 cs = (r', Inr ms')"
    by (auto split: prod.splits sum.splits)
  from 1 have "o_cipher r1 = o_cipher r \<and> o_dir r1 = o_dir r \<and> unat (o_counter r1) = Suc (unat (o_counter r))"
    by (auto simp: open_record_def Let_def dest: checked_add_SomeD split: option.splits)
  with Cons.IH [OF 2] show ?case by simp
qed auto

text \<open>No record opens out of its place: when the opener has taken the first \<open>j\<close> records of a
  stream, every record of the stream but the next one is refused and leaves the opener as it
  was, whether it is replayed, skipped ahead to, or repeated after the end.\<close>

theorem out_of_place_rejected:
  assumes "nonce_bound (s_cipher s)" and "in_sync s r"
    and "traverse seal s ms = (s', Inr cs)" and "i < length cs"
    and "traverse open_record r (take j cs) = (r', Inr ns)" and "j \<le> length cs" and "i \<noteq> j"
  shows "open_record r' (cs ! i) = (r', Inl AuthFailed)"
proof -
  from seal_run_nth [OF assms(3,4)] obtain t t' where
      t: "s_cipher t = s_cipher s" "unat (s_counter t) = unat (s_counter s) + i"
        "seal t (ms ! i) = (t', Inr (cs ! i))" by blast
  have "o_cipher r' = s_cipher s" "unat (o_counter r') = unat (s_counter s) + j"
    using open_run_counter [OF assms(5)] assms(2,6) by (auto simp: in_sync_def)
  moreover from this t(2) assms(7) have "o_counter r' \<noteq> s_counter t" by auto
  ultimately show ?thesis
    using t assms(1) open_other_nonce [of r' t "ms ! i" t' "cs ! i"] by auto
qed

theorem out_of_place_rejected_witness:
  "\<exists>cs r'. snd (traverse seal (new_sealer (\<lambda>_. tag_cipher) [] 0) [[7], [8, 9]]) = Inr cs \<and>
       fst (traverse open_record (new_opener (\<lambda>_. tag_cipher) [] 0) cs) = r' \<and>
       open_record r' (cs ! 0) = (r', Inl AuthFailed)"
proof -
  let ?s = "new_sealer (\<lambda>_. tag_cipher) [] 0" and ?r = "new_opener (\<lambda>_. tag_cipher) [] 0"
  obtain s' cs where cs: "traverse seal ?s [[7], [8, 9]] = (s', Inr cs)" "length cs = 2"
    by (simp add: seal_def new_sealer_def tag_cipher_def checked_add_def)
  have sync: "in_sync ?s ?r" by (rule new_ends_in_sync) (rule tag_cipher_ok)
  from record_layer.deliver_all [OF sync cs(1)] obtain r' where
      r': "traverse open_record ?r (take 2 cs) = (r', Inr [[7], [8, 9]])"
    using cs(2) by auto
  have "nonce_bound (s_cipher ?s)" by (simp add: new_sealer_def tag_cipher_nonce_bound)
  from out_of_place_rejected [OF this sync cs(1) _ r', of 0] cs r' show ?thesis by auto
qed

end
