(* ===== verification/Frame.thy ===== *)
theory Frame
  imports Crypto "HOL-Library.Sublist"
begin

text \<open>
  proto/frame.rs: the frame type, its encoding, and the sealed, length-prefixed records
  that carry frames over a connection. \<open>write_frame\<close> acts on a \<open>sink\<close>, \<open>read_frame\<close>
  on the bytes the connection still delivers.
\<close>

section \<open>Frames and their encoding\<close>

definition T_DATA :: u8 where "T_DATA = 0"
definition T_RESIZE :: u8 where "T_RESIZE = 1"
definition T_PING :: u8 where "T_PING = 2"
definition T_PONG :: u8 where "T_PONG = 3"
definition T_ACK :: u8 where "T_ACK = 4"
definition T_HELLO :: u8 where "T_HELLO = 5"
definition T_ENDED :: u8 where "T_ENDED = 6"
definition T_OUTPUT :: u8 where "T_OUTPUT = 7"

lemmas type_bytes =
  T_DATA_def T_RESIZE_def T_PING_def T_PONG_def T_ACK_def T_HELLO_def T_ENDED_def T_OUTPUT_def

definition MAX_OUTPUT_BYTES :: nat where "MAX_OUTPUT_BYTES = 64 * 1024"
definition HELLO_MAGIC :: bytes where "HELLO_MAGIC = as_bytes ''THTHER-HELLO-1''"
definition MAX_RECORD :: u32 where "MAX_RECORD = 4 * 1024 * 1024"

datatype frame =
    Data bytes
  | Output u64 bytes
  | Resize u16 u16
  | Ping
  | Pong
  | Ack u64
  | Hello
  | Ended

fun encode :: "frame \<Rightarrow> bytes" where
  "encode (Data b) = T_DATA # b"
| "encode (Output offset data) = T_OUTPUT # u64_to_be offset @ data"
| "encode (Resize cols rows) = T_RESIZE # u16_to_be cols @ u16_to_be rows"
| "encode Ping = [T_PING]"
| "encode Pong = [T_PONG]"
| "encode (Ack n) = T_ACK # u64_to_be n"
| "encode Hello = T_HELLO # HELLO_MAGIC"
| "encode Ended = [T_ENDED]"

definition decode_output :: "bytes \<Rightarrow> error + frame" where
  "decode_output rest =
     (if length rest < 8 \<or> length rest - 8 > MAX_OUTPUT_BYTES then Inl BadOutputLength
      else
        let offset = u64_of_be (take 8 rest); data = drop 8 rest in
        if checked_add offset (word_of_nat (length data)) = None then Inl OutputOffsetOverflow
        else Inr (Output offset data))"

fun decode :: "bytes \<Rightarrow> error + frame" where
  "decode [] = Inl EmptyFrame"
| "decode (t # rest) =
     (if t = T_DATA then Inr (Data rest)
      else if t = T_OUTPUT then decode_output rest
      else if t = T_RESIZE then
        (if length rest \<noteq> 4 then Inl BadResize
         else Inr (Resize (u16_of_be (take 2 rest)) (u16_of_be (drop 2 rest))))
      else if t = T_PING then Inr Ping
      else if t = T_PONG then Inr Pong
      else if t = T_ACK then
        (if length rest \<noteq> 8 then Inl BadAck else Inr (Ack (u64_of_be rest)))
      else if t = T_HELLO then
        (if rest \<noteq> HELLO_MAGIC then Inl BadHelloMagic else Inr Hello)
      else if t = T_ENDED then Inr Ended
      else Inl (UnknownFrameType t))"

text \<open>The output frames the wire format admits, and the frames without a payload.\<close>

fun well_formed :: "frame \<Rightarrow> bool" where
  "well_formed (Output offset data) \<longleftrightarrow>
     length data \<le> MAX_OUTPUT_BYTES \<and> unat offset + length data < 2 ^ 64"
| "well_formed _ \<longleftrightarrow> True"

fun bare :: "frame \<Rightarrow> bool" where
  "bare Ping = True" | "bare Pong = True" | "bare Ended = True" | "bare _ = False"

lemma unat_small_length:
  "length data \<le> MAX_OUTPUT_BYTES \<Longrightarrow> unat (word_of_nat (length data) :: u64) = length data"
  by (simp add: MAX_OUTPUT_BYTES_def unat_of_length)

lemma decode_output_encoded:
  "decode_output (u64_to_be offset @ data) =
     (if length data > MAX_OUTPUT_BYTES then Inl BadOutputLength
      else if 2 ^ 64 \<le> unat offset + length data then Inl OutputOffsetOverflow
      else Inr (Output offset data))"
  by (auto simp: decode_output_def Let_def checked_add_None_iff unat_small_length)

lemma decode_encode: "well_formed f \<Longrightarrow> decode (encode f) = Inr f"
  by (cases f) (auto simp: type_bytes decode_output_encoded)

lemma decode_output_InrD:
  "decode_output rest = Inr f \<Longrightarrow>
     \<exists>offset data. f = Output offset data \<and> well_formed f \<and> rest = u64_to_be offset @ data"
proof -
  assume d: "decode_output rest = Inr f"
  then have l: "8 \<le> length rest" by (auto simp: decode_output_def split: if_splits)
  define off where "off = u64_of_be (take 8 rest)"
  from l have "rest = u64_to_be off @ drop 8 rest"
    by (simp add: off_def be64.enc_dec)
  with d decode_output_encoded [of off "drop 8 rest"] show ?thesis
    by (auto split: if_splits)
qed

text \<open>
  What \<open>decode\<close> accepts: the encoding of a well-formed frame, followed by ignored bytes
  only where the frame carries no payload.
\<close>

lemma decode_InrD:
  assumes "decode bs = Inr f"
  shows "well_formed f \<and> (\<exists>junk. bs = encode f @ junk \<and> (junk = [] \<or> bare f))"
proof (cases bs)
  case Nil
  with assms show ?thesis by simp
next
  case (Cons t rest)
  have "rest = u16_to_be (u16_of_be (take 2 rest)) @ u16_to_be (u16_of_be (drop 2 rest))"
    if "length rest = 4"
    using that by (simp add: be16.enc_dec)
  moreover have "rest = u64_to_be (u64_of_be rest)" if "length rest = 8"
    using that by (simp add: be64.enc_dec)
  ultimately show ?thesis
    using assms Cons by (auto simp: type_bytes split: if_splits dest!: decode_output_InrD)
qed

lemma encode_nonempty [simp]: "encode f \<noteq> []"
  by (cases f) auto

lemma decode_encode_iff: "decode (encode f) = Inr f \<longleftrightarrow> well_formed f"
  using decode_encode decode_InrD by blast

section \<open>Records on the wire\<close>

definition write_frame :: "sink \<Rightarrow> sealer \<Rightarrow> frame \<Rightarrow> (sink \<times> sealer) \<times> (error + unit)" where
  "write_frame w sealer frame =
     (case seal sealer (encode frame) of
        (sealer', Inl e) \<Rightarrow> ((w, sealer'), Inl e)
      | (sealer', Inr ct) \<Rightarrow>
          if length ct > unat MAX_RECORD then ((w, sealer'), Inl RecordTooLarge)
          else
            (case write_all w (u32_to_be (word_of_nat (length ct))) of
               (w1, False) \<Rightarrow> ((w1, sealer'), Inl WriteFailed)
             | (w1, True) \<Rightarrow>
                 (case write_all w1 ct of
                    (w2, False) \<Rightarrow> ((w2, sealer'), Inl WriteFailed)
                  | (w2, True) \<Rightarrow>
                      if flush_ok w2 then ((w2, sealer'), Inr ()) else ((w2, sealer'), Inl WriteFailed))))"

definition read_frame :: "bytes \<Rightarrow> opener \<Rightarrow> (bytes \<times> opener) \<times> (error + frame)" where
  "read_frame r opener =
     (case read_exact 4 r of
        Inl e \<Rightarrow> (([], opener), Inl e)
      | Inr (len_buf, r1) \<Rightarrow>
          let len = u32_of_be len_buf in
          if len = 0 \<or> len > MAX_RECORD then ((r1, opener), Inl (BadRecordLength len))
          else
            (case read_exact (unat len) r1 of
               Inl e \<Rightarrow> (([], opener), Inl e)
             | Inr (ct, r2) \<Rightarrow>
                 (case open_record opener ct of
                    (opener', Inl e) \<Rightarrow> ((r2, opener'), Inl e)
                  | (opener', Inr pt) \<Rightarrow> ((r2, opener'), decode pt))))"

text \<open>
  The write half of a connection and its sealer; the loops of both ends only ask whether
  writing a frame succeeded.
\<close>

type_synonym link = "sink \<times> sealer"

definition put_frame :: "link \<Rightarrow> frame \<Rightarrow> link \<times> bool" where
  "put_frame l f =
     (case l of (w, s) \<Rightarrow>
        case write_frame w s f of (l', Inl e) \<Rightarrow> (l', False) | (l', Inr u) \<Rightarrow> (l', True))"

text \<open>Recording the frames, every write succeeding; and the output frames among them.\<close>

fun log_frame :: "frame list \<Rightarrow> frame \<Rightarrow> frame list \<times> bool" where
  "log_frame fs f = (fs @ [f], True)"

lemma log_frame_fold: "(\<lambda>fs f. (fs @ [f], True)) = log_frame"
  by (simp add: fun_eq_iff)

fun outputs :: "frame list \<Rightarrow> (u64 \<times> bytes) list" where
  "outputs [] = []"
| "outputs (Output off d # fs) = (off, d) # outputs fs"
| "outputs (_ # fs) = outputs fs"

lemma outputs_append [simp]: "outputs (fs @ gs) = outputs fs @ outputs gs"
  by (induction fs rule: outputs.induct) auto

fun is_output :: "frame \<Rightarrow> bool" where
  "is_output (Output off d) = True"
| "is_output _ = False"

text \<open>The bytes a record occupies on the wire, and what a successful write adds to any sink.\<close>

definition record_bytes :: "bytes \<Rightarrow> bytes" where
  "record_bytes ct = u32_to_be (word_of_nat (length ct)) @ ct"

lemma length_record_bytes [simp]: "length (record_bytes ct) = 4 + length ct"
  by (simp add: record_bytes_def)

lemma write_frame_InrD:
  assumes "write_frame w s f = ((w', s'), Inr u)"
  shows "\<exists>ct. seal s (encode f) = (s', Inr ct) \<and> length ct \<le> unat MAX_RECORD \<and>
           written w' = written w @ record_bytes ct"
  using assms
  by (auto simp: write_frame_def record_bytes_def not_less
      dest!: write_all_True split: prod.splits sum.splits if_splits bool.splits)

lemma write_frame_reliable:
  assumes "reliable w" and "seal s (encode f) = (s', Inr ct)" and "length ct \<le> unat MAX_RECORD"
  shows "write_frame w s f = ((w\<lparr>written := written w @ record_bytes ct\<rparr>, s'), Inr ())"
  using assms by (simp add: write_frame_def record_bytes_def) (simp add: reliable_def)

lemma read_frame_record:
  assumes "ct \<noteq> []" and "length ct \<le> unat MAX_RECORD"
  shows "read_frame (record_bytes ct @ rest) r =
           (case open_record r ct of
              (r', Inl e) \<Rightarrow> ((rest, r'), Inl e)
            | (r', Inr pt) \<Rightarrow> ((rest, r'), decode pt))"
proof -
  have len: "unat (word_of_nat (length ct) :: u32) = length ct"
    using assms(2) by (simp add: unat_of_nat MAX_RECORD_def)
  then have "\<not> (word_of_nat (length ct) :: u32) > MAX_RECORD"
    using assms(2) by (simp add: not_less word_le_nat_alt)
  moreover have "(word_of_nat (length ct) :: u32) \<noteq> 0"
    using len assms(1) by (metis length_0_conv unsigned_0)
  ultimately show ?thesis
    by (simp add: read_frame_def record_bytes_def Let_def len be32.enc_width)
qed

lemma read_frame_truncated:
  assumes "k < length (record_bytes ct)" and "ct \<noteq> []" and "length ct \<le> unat MAX_RECORD"
  shows "read_frame (take k (record_bytes ct)) r = (([], r), Inl UnexpectedEof)"
proof (cases "k < 4")
  case True
  then show ?thesis by (simp add: read_frame_def read_exact_def)
next
  case False
  then have split: "take k (record_bytes ct) = u32_to_be (word_of_nat (length ct)) @ take (k - 4) ct"
    by (simp add: record_bytes_def)
  have len: "unat (word_of_nat (length ct) :: u32) = length ct"
    using assms(3) by (simp add: unat_of_nat MAX_RECORD_def)
  then have "\<not> (word_of_nat (length ct) :: u32) > MAX_RECORD"
    using assms(3) by (simp add: not_less word_le_nat_alt)
  moreover have "(word_of_nat (length ct) :: u32) \<noteq> 0"
    using len assms(2) by (metis length_0_conv unsigned_0)
  moreover have "k - 4 < length ct"
    using assms(1) False by simp
  ultimately show ?thesis
    by (simp add: split read_frame_def Let_def len) (simp add: read_exact_def)
qed

section \<open>A stream of frames\<close>

text \<open>Reading messages off a stream until the first error, at most \<open>n\<close> of them.\<close>

primrec pull :: "nat \<Rightarrow> (bytes \<Rightarrow> 'r \<Rightarrow> (bytes \<times> 'r) \<times> (error + 'm)) \<Rightarrow> bytes \<Rightarrow> 'r \<Rightarrow> 'm list" where
  "pull 0 get str r = []"
| "pull (Suc n) get str r =
     (case get str r of
        ((str', r'), Inl e) \<Rightarrow> []
      | ((str', r'), Inr m) \<Rightarrow> m # pull n get str' r')"

text \<open>
  A message channel over a byte stream: each message put adds some bytes, getting them
  back leaves the rest of the stream alone, and a part of them gives an error.
\<close>

locale stream_channel =
  fixes put :: "'s \<Rightarrow> 'm \<Rightarrow> 's \<times> (error + bytes)"
    and get :: "bytes \<Rightarrow> 'r \<Rightarrow> (bytes \<times> 'r) \<times> (error + 'm)"
    and synced :: "'s \<Rightarrow> 'r \<Rightarrow> bool"
    and ok :: "'m \<Rightarrow> bool"
  assumes put_get: "synced s r \<Longrightarrow> ok m \<Longrightarrow> put s m = (s', Inr c) \<Longrightarrow>
      \<exists>r'. synced s' r' \<and> (\<forall>rest. get (c @ rest) r = ((rest, r'), Inr m))"
    and put_cut: "synced s r \<Longrightarrow> ok m \<Longrightarrow> put s m = (s', Inr c) \<Longrightarrow> k < length c \<Longrightarrow>
      \<exists>z e. get (take k c) r = (z, Inl e)"
    and get_eof: "\<exists>z e. get [] r = (z, Inl e)"
begin

lemma pull_prefix:
  "synced s r \<Longrightarrow> list_all ok ms \<Longrightarrow> traverse put s ms = (s', Inr cs) \<Longrightarrow>
     prefix (pull n get (take k (concat cs)) r) ms"
proof (induction ms arbitrary: s r cs n k)
  case Nil
  with get_eof [of r] show ?case by (cases n) auto
next
  case (Cons m ms)
  from Cons.prems(3) obtain s1 c cs' where
      1: "put s m = (s1, Inr c)" and 2: "traverse put s1 ms = (s', Inr cs')" and cs: "cs = c # cs'"
    by (auto split: prod.splits sum.splits)
  have ok: "ok m" "list_all ok ms" using Cons.prems(2) by auto
  show ?case
  proof (cases "k < length c")
    case True
    with put_cut [OF Cons.prems(1) ok(1) 1 True] cs show ?thesis
      by (cases n) auto
  next
    case False
    from put_get [OF Cons.prems(1) ok(1) 1] obtain r1 where
        r1: "synced s1 r1" "\<And>rest. get (c @ rest) r = ((rest, r1), Inr m)" by blast
    from Cons.IH [OF r1(1) ok(2) 2] False cs r1(2) show ?thesis
      by (cases n) auto
  qed
qed

lemma pull_all:
  "synced s r \<Longrightarrow> list_all ok ms \<Longrightarrow> traverse put s ms = (s', Inr cs) \<Longrightarrow> length ms \<le> n \<Longrightarrow>
     pull n get (concat cs) r = ms"
proof (induction ms arbitrary: s r cs n)
  case Nil
  with get_eof [of r] show ?case by (cases n) auto
next
  case (Cons m ms)
  from Cons.prems(3) obtain s1 c cs' where
      1: "put s m = (s1, Inr c)" and 2: "traverse put s1 ms = (s', Inr cs')" and cs: "cs = c # cs'"
    by (auto split: prod.splits sum.splits)
  have ok: "ok m" "list_all ok ms" using Cons.prems(2) by auto
  from Cons.prems(4) obtain n' where n: "n = Suc n'" "length ms \<le> n'" by (cases n) auto
  from put_get [OF Cons.prems(1) ok(1) 1] obtain r1 where
      r1: "synced s1 r1" "\<And>rest. get (c @ rest) r = ((rest, r1), Inr m)" by blast
  from Cons.IH [OF r1(1) ok(2) 2 n(2)] n cs r1(2) show ?case by simp
qed

end

text \<open>The bytes one call of \<open>write_frame\<close> sends when the connection takes them all.\<close>

definition frame_wire :: "sealer \<Rightarrow> frame \<Rightarrow> sealer \<times> (error + bytes)" where
  "frame_wire s f =
     (case write_frame open_sink s f of
        ((w, s'), Inl e) \<Rightarrow> (s', Inl e)
      | ((w, s'), Inr u) \<Rightarrow> (s', Inr (written w)))"

lemma frame_wire_InrD:
  assumes "frame_wire s f = (s', Inr c)"
  shows "\<exists>ct. seal s (encode f) = (s', Inr ct) \<and> length ct \<le> unat MAX_RECORD \<and> c = record_bytes ct"
  using assms
  by (auto simp: frame_wire_def dest!: write_frame_InrD split: prod.splits sum.splits)

lemma sealed_nonempty: "in_sync s r \<Longrightarrow> seal s m = (s', Inr ct) \<Longrightarrow> ct \<noteq> []"
  by (auto simp: in_sync_def dest!: seal_length)

lemma frame_wire_read:
  assumes "in_sync s r" and "well_formed f" and "frame_wire s f = (s', Inr c)"
  shows "\<exists>r'. in_sync s' r' \<and> (\<forall>rest. read_frame (c @ rest) r = ((rest, r'), Inr f))"
proof -
  from frame_wire_InrD [OF assms(3)] obtain ct where
      ct: "seal s (encode f) = (s', Inr ct)" "length ct \<le> unat MAX_RECORD" "c = record_bytes ct"
    by blast
  from record_layer.put_get [OF assms(1) ct(1)] obtain r' where
      "open_record r ct = (r', Inr (encode f))" "in_sync s' r'" by blast
  with ct sealed_nonempty [OF assms(1) ct(1)] assms(2) show ?thesis
    by (auto simp: read_frame_record decode_encode)
qed

lemma frame_wire_cut:
  assumes "in_sync s r" and "frame_wire s f = (s', Inr c)" and "k < length c"
  shows "read_frame (take k c) r = (([], r), Inl UnexpectedEof)"
proof -
  from frame_wire_InrD [OF assms(2)] obtain ct where
      ct: "seal s (encode f) = (s', Inr ct)" "length ct \<le> unat MAX_RECORD" "c = record_bytes ct"
    by blast
  with assms(3) sealed_nonempty [OF assms(1) ct(1)] show ?thesis
    by (simp add: read_frame_truncated del: length_record_bytes)
qed

interpretation frame_stream: stream_channel frame_wire read_frame in_sync well_formed
proof (unfold_locales)
  show "\<exists>z e. read_frame [] r = (z, Inl e)" for r
    by (simp add: read_frame_def read_exact_def)
qed (auto simp: frame_wire_read frame_wire_cut)

section \<open>Properties\<close>

text \<open>C31. The decoder accepts exactly the encodings of well-formed frames (output frames of
  at most 64 KiB whose end offset fits 64 bits), followed by ignored bytes only after
  ping, pong and ended; every frame it accepts is the one that was encoded.\<close>

theorem decode_exactly:
  "decode bs = Inr f \<longleftrightarrow>
     well_formed f \<and> (\<exists>junk. bs = encode f @ junk \<and> (junk = [] \<or> bare f))"
proof
  show "decode bs = Inr f \<Longrightarrow> well_formed f \<and> (\<exists>junk. bs = encode f @ junk \<and> (junk = [] \<or> bare f))"
    by (rule decode_InrD)
  have "decode (encode f @ junk) = Inr f" if "bare f" for junk
    using that by (cases f) (simp_all add: type_bytes)
  then show "well_formed f \<and> (\<exists>junk. bs = encode f @ junk \<and> (junk = [] \<or> bare f)) \<Longrightarrow> decode bs = Inr f"
    by (auto simp: decode_encode)
qed

text \<open>Frames sent over a connection that may be cut at any byte: what the peer reads is
  a prefix of the frames sent, in order; a connection that is not cut delivers them all.\<close>

theorem frames_survive_cuts:
  assumes "in_sync s r" and "list_all well_formed fs" and "traverse frame_wire s fs = (s', Inr cs)"
  shows "prefix (pull n read_frame (take k (concat cs)) r) fs \<and>
         pull (length fs) read_frame (concat cs) r = fs"
  using frame_stream.pull_prefix [OF assms] frame_stream.pull_all [OF assms order.refl] by blast

theorem frames_survive_cuts_witness:
  "\<exists>cs. pull (length [Output 5 [1, 2], Ended]) read_frame (concat cs) (new_opener (\<lambda>_. tag_cipher) [] 1) = [Output 5 [1, 2], Ended]"
proof -
  have "\<exists>s' cs. traverse frame_wire (new_sealer (\<lambda>_. tag_cipher) [] 1) [Output 5 [1, 2], Ended] = (s', Inr cs)"
    by (simp add: frame_wire_def write_frame_reliable [OF reliable_open_sink(1)]
        seal_def new_sealer_def tag_cipher_def checked_add_def MAX_RECORD_def)
  then obtain s' cs where wire:
      "traverse frame_wire (new_sealer (\<lambda>_. tag_cipher) [] 1) [Output 5 [1, 2], Ended] = (s', Inr cs)"
    by blast
  have sync: "in_sync (new_sealer (\<lambda>_. tag_cipher) [] 1) (new_opener (\<lambda>_. tag_cipher) [] 1)"
    by (rule new_ends_in_sync) (rule tag_cipher_ok)
  have "list_all well_formed [Output 5 [1, 2], Ended]"
    by (simp add: MAX_OUTPUT_BYTES_def)
  from frames_survive_cuts [OF sync this wire] show ?thesis by blast
qed

end
