(* ===== verification/Ring.thy ===== *)
theory Ring
  imports Frame
begin

text \<open>
  The replay ring buffer of server/session.rs (\<open>RingBuf\<close>), and what it promises: it
  holds the last bytes of the whole output of the shell, indexed by absolute offset.
  The abstract state is that whole output, the history.
\<close>

lemma drop_append_drop: "k \<le> length h \<Longrightarrow> drop n (drop k h @ b) = drop (k + n) (h @ b)"
  by (cases "n \<le> length h - k") (auto simp: add.commute)

lemma take_taken_min: "take (min (length xs - m) n) (drop m xs) = take n (drop m xs)"
  by (cases "n \<le> length xs - m") auto

section \<open>The ring buffer\<close>

text \<open>
  \<open>r_cap\<close> is a \<open>usize\<close>, a natural here; \<open>r_start\<close> wraps as the \<open>u64\<close> does.
\<close>

record ring =
  r_data :: bytes
  r_start :: u64
  r_cap :: nat

definition ring_new :: "nat \<Rightarrow> ring" where
  "ring_new cap = \<lparr>r_data = [], r_start = 0, r_cap = cap\<rparr>"

definition ring_total :: "ring \<Rightarrow> u64" where
  "ring_total r = r_start r + word_of_nat (length (r_data r))"

definition ring_append :: "ring \<Rightarrow> bytes \<Rightarrow> ring" where
  "ring_append r bs =
     (let d = r_data r @ bs in
      if length d > r_cap r then
        let drop_n = length d - r_cap r in
        r\<lparr>r_data := drop drop_n d, r_start := r_start r + word_of_nat drop_n\<rparr>
      else r\<lparr>r_data := d\<rparr>)"

definition ring_read_from :: "ring \<Rightarrow> u64 \<Rightarrow> u64 \<times> bytes" where
  "ring_read_from r offset =
     (let tot = ring_total r in
      if offset \<ge> tot then (tot, [])
      else
        let from = max offset (r_start r); idx = unat (from - r_start r) in
        (from, take MAX_OUTPUT_BYTES (drop idx (r_data r))))"

text \<open>
  The ring represents the history \<open>h\<close>: its bytes are the last \<open>r_cap\<close> of \<open>h\<close> (all
  of \<open>h\<close> if it is shorter), its start is their absolute offset.
\<close>

definition ring_rep :: "ring \<Rightarrow> bytes \<Rightarrow> bool" where
  "ring_rep r h \<longleftrightarrow>
     length h < 2 ^ 64 \<and> r_data r = drop (length h - r_cap r) h \<and>
     unat (r_start r) = length h - r_cap r"

lemma ring_rep_new: "ring_rep (ring_new cap) []"
  by (simp add: ring_rep_def ring_new_def)

lemma ring_rep_total: "ring_rep r h \<Longrightarrow> unat (ring_total r) = length h"
proof -
  assume rep: "ring_rep r h"
  then have len: "unat (r_start r) + length (r_data r) = length h" and "length h < 2 ^ 64"
    by (auto simp: ring_rep_def)
  then have "unat (word_of_nat (length (r_data r)) :: u64) = length (r_data r)"
    by (intro unat_of_length) simp
  then show ?thesis
    using len \<open>length h < 2 ^ 64\<close> by (simp add: ring_total_def unat_add_exact)
qed

lemma ring_rep_append:
  assumes "ring_rep r h" and "length h + length bs < 2 ^ 64"
  shows "ring_rep (ring_append r bs) (h @ bs)"
proof -
  let ?k = "length h - r_cap r"
  have d: "r_data r = drop ?k h" "unat (r_start r) = ?k"
    using assms(1) by (auto simp: ring_rep_def)
  show ?thesis
  proof (cases "length (r_data r @ bs) > r_cap r")
    case False
    then have "length (h @ bs) - r_cap r = ?k" by (cases "bs = []") (auto simp: d)
    with False d assms(2) show ?thesis
      by (simp add: ring_append_def ring_rep_def)
  next
    case True
    let ?n = "length (r_data r @ bs) - r_cap r"
    have sum: "?k + ?n = length (h @ bs) - r_cap r"
      using True by (simp add: d)
    have lt: "?k + ?n < 2 ^ 64"
      unfolding sum using assms(2) by (simp add: less_imp_diff_less)
    then have "unat (word_of_nat ?n :: u64) = ?n"
      by (simp only: unat_of_nat_len)
    with lt d(2) have start: "unat (r_start r + word_of_nat ?n) = ?k + ?n"
      by (subst unat_add_exact) simp_all
    have data: "drop ?n (r_data r @ bs) = drop (?k + ?n) (h @ bs)"
      unfolding d(1) by (simp only: drop_append_drop diff_le_self)
    have "ring_append r bs =
        r\<lparr>r_data := drop ?n (r_data r @ bs), r_start := r_start r + word_of_nat ?n\<rparr>"
      using True by (simp only: ring_append_def Let_def if_True)
    then show ?thesis
      unfolding ring_rep_def using start data sum assms(2) by simp
  qed
qed

lemma ring_append_cap [simp]: "r_cap (ring_append r bs) = r_cap r"
  by (simp add: ring_append_def Let_def)

lemma ring_rep_read:
  assumes "ring_rep r h"
  shows "ring_read_from r off =
    (if length h \<le> unat off then (word_of_nat (length h), [])
     else (max off (r_start r),
           take MAX_OUTPUT_BYTES (drop (max (unat off) (length h - r_cap r)) h)))"
proof -
  have tot: "unat (ring_total r) = length h" by (rule ring_rep_total [OF assms])
  have le: "off \<ge> ring_total r \<longleftrightarrow> length h \<le> unat off"
    by (simp add: word_le_nat_alt tot)
  have m: "unat (max off (r_start r)) = max (unat off) (unat (r_start r))"
    by (simp add: max_def word_le_nat_alt)
  have "unat (max off (r_start r) - r_start r) = max (unat off) (unat (r_start r)) - unat (r_start r)"
    by (subst unat_sub_exact) (auto simp: m)
  moreover have "drop (max (unat off) k - k) (drop k h) = drop (max (unat off) k) h" for k
    by (simp add: max_def)
  ultimately show ?thesis
    using assms tot by (auto simp: ring_read_from_def Let_def le ring_rep_def word_unat_eq_iff unat_of_nat)
qed

section \<open>The contract of an output log\<close>

text \<open>
  A run of chunks that starts at or after absolute offset \<open>c\<close> of the history, in order
  and without overlap, each carrying exactly the bytes at its own offset, ending at \<open>e\<close>.
\<close>

fun slices :: "bytes \<Rightarrow> nat \<Rightarrow> (u64 \<times> bytes) list \<Rightarrow> nat \<Rightarrow> bool" where
  "slices h c [] e \<longleftrightarrow> c = e"
| "slices h c ((off, d) # fs) e \<longleftrightarrow>
     c \<le> unat off \<and> unat off + length d \<le> length h \<and>
     d = take (length d) (drop (unat off) h) \<and> slices h (unat off + length d) fs e"

text \<open>Chunks that follow each other without a gap from offset \<open>c\<close>.\<close>

fun gapless :: "nat \<Rightarrow> (u64 \<times> bytes) list \<Rightarrow> bool" where
  "gapless c [] = True"
| "gapless c ((off, d) # fs) = (unat off = c \<and> gapless (c + length d) fs)"

lemma gapless_append: "slices h c fs e \<Longrightarrow> gapless c (fs @ gs) \<longleftrightarrow> gapless c fs \<and> gapless e gs"
  by (induction h c fs e rule: slices.induct) auto

lemma slices_append_history: "slices h c fs e \<Longrightarrow> slices (h @ b) c fs e"
  by (induction fs arbitrary: c) auto

lemma slices_append:
  "slices h c (fs @ gs) e \<longleftrightarrow> (\<exists>m. slices h c fs m \<and> slices h m gs e)"
  by (induction fs arbitrary: c) auto

lemma slices_bounds: "slices h c fs e \<Longrightarrow> c \<le> length h \<Longrightarrow> c \<le> e \<and> e \<le> length h"
proof (induction fs arbitrary: c)
  case Nil
  then show ?case by simp
next
  case (Cons f fs)
  then show ?case by (cases f) fastforce
qed

text \<open>Reading from a cursor until nothing more is due, as the connection's writer does.\<close>

primrec drain :: "nat \<Rightarrow> (u64 \<Rightarrow> u64 \<times> bytes) \<Rightarrow> u64 \<Rightarrow> (u64 \<times> bytes) list \<times> u64" where
  "drain 0 rd cursor = ([], cursor)"
| "drain (Suc n) rd cursor =
     (let (off, d) = rd cursor in
      if d \<noteq> [] \<or> off > cursor then
        let (fs, c) = drain n rd (off + word_of_nat (length d)) in ((off, d) # fs, c)
      else ([], cursor))"

locale output_log =
  fixes rep :: "'r \<Rightarrow> bytes \<Rightarrow> bool"
    and append :: "'r \<Rightarrow> bytes \<Rightarrow> 'r"
    and read :: "'r \<Rightarrow> u64 \<Rightarrow> u64 \<times> bytes"
    and first :: "'r \<Rightarrow> bytes \<Rightarrow> nat"
  assumes rep_bound: "rep r h \<Longrightarrow> length h < 2 ^ 64"
    and rep_append: "rep r h \<Longrightarrow> length h + length b < 2 ^ 64 \<Longrightarrow> rep (append r b) (h @ b)"
    and read_slice: "rep r h \<Longrightarrow> unat off \<le> length h \<Longrightarrow> read r off = (start, d) \<Longrightarrow>
          slices h (unat off) [(start, d)] (unat start + length d) \<and> length d \<le> MAX_OUTPUT_BYTES"
    and read_progress: "rep r h \<Longrightarrow> unat off < length h \<Longrightarrow> read r off = (start, d) \<Longrightarrow>
          d \<noteq> [] \<or> unat off < unat start"
    and read_retained: "rep r h \<Longrightarrow> first r h \<le> unat off \<Longrightarrow> unat off \<le> length h \<Longrightarrow>
          read r off = (start, d) \<Longrightarrow> start = off"
begin

lemma read_end:
  assumes "rep r h" and "unat off = length h" and "read r off = (start, d)"
  shows "start = off \<and> d = []"
proof -
  from read_slice [OF assms(1) _ assms(3)] assms(2)
  have "length h \<le> unat start" and "unat start + length d \<le> length h" by auto
  then have "length d = 0" and "unat start = length h" by linarith+
  with assms(2) show ?thesis by (simp add: word_unat_eq_iff)
qed

lemma cursor_exact:
  assumes "rep r h" and "unat off \<le> length h" and "read r off = (start, d)"
  shows "unat (start + word_of_nat (length d)) = unat start + length d"
  using read_slice [OF assms] rep_bound [OF assms(1)]
  by (simp add: unat_word_ariths unat_of_nat)

lemma drain_slices:
  assumes "rep r h"
  shows "unat c \<le> length h \<Longrightarrow> drain n (read r) c = (fs, c') \<Longrightarrow> slices h (unat c) fs (unat c')"
proof (induction n arbitrary: c fs c')
  case 0
  then show ?case by simp
next
  case (Suc n)
  obtain off d where rd: "read r c = (off, d)" by force
  note sl = read_slice [OF assms Suc.prems(1) rd]
  note ex = cursor_exact [OF assms Suc.prems(1) rd]
  show ?case
  proof (cases "d \<noteq> [] \<or> off > c")
    case True
    obtain gs c2 where gs: "drain n (read r) (off + word_of_nat (length d)) = (gs, c2)" by force
    from Suc.IH [OF _ gs] sl ex have "slices h (unat off + length d) gs (unat c2)" by simp
    with True Suc.prems(2) rd gs sl show ?thesis by (auto split: prod.splits)
  next
    case False
    with Suc.prems(2) rd show ?thesis by auto
  qed
qed

lemma drain_gapless:
  assumes "rep r h"
  shows "unat c \<le> length h \<Longrightarrow> first r h \<le> unat c \<Longrightarrow> drain n (read r) c = (fs, c') \<Longrightarrow>
           gapless (unat c) fs"
proof (induction n arbitrary: c fs c')
  case (Suc n)
  obtain off d where rd: "read r c = (off, d)" by force
  note sl = read_slice [OF assms Suc.prems(1) rd]
  note ex = cursor_exact [OF assms Suc.prems(1) rd]
  note eq = read_retained [OF assms Suc.prems(2,1) rd]
  show ?case
  proof (cases "d = []")
    case False
    obtain gs c2 where gs: "drain n (read r) (off + word_of_nat (length d)) = (gs, c2)" by force
    have "gapless (unat off + length d) gs"
      using Suc.IH [OF _ _ gs] Suc.prems(2) sl ex eq by simp
    with False Suc.prems(3) rd gs eq show ?thesis by auto
  qed (use Suc.prems(3) rd eq in auto)
qed simp

text \<open>Enough fuel reaches the end of the history: every chunk moves the cursor forward.\<close>

lemma drain_complete:
  assumes "rep r h"
  shows "unat c \<le> length h \<Longrightarrow> length h - unat c \<le> n \<Longrightarrow> drain n (read r) c = (fs, c') \<Longrightarrow>
           unat c' = length h"
proof (induction n arbitrary: c fs c')
  case 0
  then show ?case by simp
next
  case (Suc n)
  obtain off d where rd: "read r c = (off, d)" by force
  note sl = read_slice [OF assms Suc.prems(1) rd]
  note ex = cursor_exact [OF assms Suc.prems(1) rd]
  show ?case
  proof (cases "d \<noteq> [] \<or> off > c")
    case True
    then have lt: "unat c < unat off + length d"
      using sl by (cases d) (auto simp: word_less_nat_alt)
    obtain gs c2 where gs: "drain n (read r) (off + word_of_nat (length d)) = (gs, c2)" by force
    have "unat c2 = length h"
      by (rule Suc.IH [OF _ _ gs]) (use sl ex lt Suc.prems(2) in auto)
    with True Suc.prems(3) rd gs show ?thesis by auto
  next
    case False
    with read_progress [OF assms _ rd] have "\<not> unat c < length h"
      by (auto simp: word_less_nat_alt)
    moreover have "c' = c" using Suc.prems(3) False by (simp add: rd)
    ultimately show ?thesis using Suc.prems(1) by simp
  qed
qed

end

definition ring_first :: "ring \<Rightarrow> bytes \<Rightarrow> nat" where
  "ring_first r h = length h - r_cap r"

interpretation ring_log: output_log ring_rep ring_append ring_read_from ring_first
proof (unfold_locales)
  fix r h b off start d
  assume rep: "ring_rep r h"
  then have st: "unat (r_start r) = length h - r_cap r" and len: "length h < 2 ^ 64"
    by (auto simp: ring_rep_def)
  have m: "unat (max off (r_start r)) = max (unat off) (length h - r_cap r)"
    by (simp add: max_def word_le_nat_alt st)
  show "length h < 2 ^ 64" by (rule len)
  show "length h + length b < 2 ^ 64 \<Longrightarrow> ring_rep (ring_append r b) (h @ b)"
    by (rule ring_rep_append [OF rep])
  assume rd: "ring_read_from r off = (start, d)"
  show "slices h (unat off) [(start, d)] (unat start + length d) \<and> length d \<le> MAX_OUTPUT_BYTES"
    if "unat off \<le> length h"
    using rd that len
    by (auto simp: ring_rep_read [OF rep] m unat_of_nat take_taken_min split: if_splits)
  show "d \<noteq> [] \<or> unat off < unat start" if "unat off < length h"
    using rd that by (auto simp: ring_rep_read [OF rep] m MAX_OUTPUT_BYTES_def split: if_splits)
  show "start = off" if "ring_first r h \<le> unat off" and "unat off \<le> length h"
    using rd that len st
    by (auto simp: ring_rep_read [OF rep] ring_first_def word_unat_eq_iff unat_of_nat m split: if_splits)
qed

section \<open>Properties\<close>

lemma ring_rep_foldl:
  "ring_rep r h \<Longrightarrow> length h + length (concat bss) < 2 ^ 64 \<Longrightarrow>
     ring_rep (foldl ring_append r bss) (h @ concat bss)"
proof (induction bss arbitrary: r h)
  case Nil
  then show ?case by simp
next
  case (Cons bs bss)
  from Cons.prems have "ring_rep (ring_append r bs) (h @ bs)" by (intro ring_rep_append) simp_all
  from Cons.IH [OF this] Cons.prems show ?case by simp
qed

text \<open>C30. However the output is cut into appends, the ring buffer holds exactly its last
  \<open>cap\<close> bytes (all of it when shorter), and its total is the number of bytes ever appended.\<close>

theorem ring_keeps_last_bytes:
  assumes "length (concat bss) < 2 ^ 64"
  shows "r_data (foldl ring_append (ring_new cap) bss) = drop (length (concat bss) - cap) (concat bss) \<and>
         unat (ring_total (foldl ring_append (ring_new cap) bss)) = length (concat bss)"
proof -
  have cap: "r_cap (foldl ring_append r bss) = r_cap r" for r
    by (induction bss arbitrary: r) simp_all
  from ring_rep_foldl [OF ring_rep_new] assms
  have "ring_rep (foldl ring_append (ring_new cap) bss) (concat bss)" by simp
  with ring_rep_total [OF this] cap [of "ring_new cap"] show ?thesis
    by (simp add: ring_rep_def ring_new_def)
qed

theorem ring_keeps_last_bytes_witness:
  "r_data (foldl ring_append (ring_new 3) [[1, 2], [3, 4]]) = [2, 3, 4]"
  using ring_keeps_last_bytes [of "[[1, 2], [3, 4]]" 3] by simp

text \<open>A read at an absolute offset: at or past the end it reports the end and no bytes;
  otherwise it starts at the offset, or at the oldest retained byte if that is later, and
  returns the history's bytes from there, at most 64 KiB of them.\<close>

theorem ring_read_absolute:
  assumes "ring_rep r h"
  shows "ring_read_from r off =
    (if length h \<le> unat off then (word_of_nat (length h), [])
     else (max off (word_of_nat (length h - r_cap r)),
           take MAX_OUTPUT_BYTES (drop (max (unat off) (length h - r_cap r)) h)))"
proof -
  from assms have "unat (r_start r) = length h - r_cap r" by (simp add: ring_rep_def)
  then have "r_start r = word_of_nat (length h - r_cap r)" by (metis of_nat_unat ucast_id)
  with ring_rep_read [OF assms] show ?thesis by simp
qed

theorem ring_read_absolute_witness:
  "ring_read_from (ring_append (ring_new 3) [1, 2, 3, 4]) 0 = (1, [2, 3, 4])"
proof -
  have "ring_rep (ring_append (ring_new 3) [1, 2, 3, 4]) ([] @ [1, 2, 3, 4])"
    by (rule ring_rep_append [OF ring_rep_new]) simp
  from ring_read_absolute [OF this, of 0] show ?thesis
    by (simp add: ring_append_def ring_new_def MAX_OUTPUT_BYTES_def max_def)
qed

end
