(* ===== verification/Session.thy ===== *)
theory Session
  imports Ring
begin

text \<open>
  server/session.rs: the shared state of a session, its operations, and the threads that
  serve its PTY. Mutex-protected fields and atomics are plain fields; an operation that
  the code performs as several atomic accesses is the composition of those accesses, so
  that theory \<open>Takeover\<close> can interleave them.
\<close>

section \<open>State\<close>

datatype pty_msg = Input bytes | ResizeTo u16 u16

text \<open>
  \<open>to_pty\<close> is the channel's queue and \<open>pty_open\<close> whether the thread that drains it still
  holds its receiver; \<open>opened_size\<close> is the window size the PTY was opened with, columns
  first; \<open>killed\<close> counts calls of \<open>kill()\<close> on the child's handle and
  \<open>notifications\<close> the calls of \<open>notify_waiters\<close>.
\<close>

record session =
  ident :: string
  started :: u64
  command :: string
  opened_size :: "u16 \<times> u16"
  ring :: ring
  notifications :: nat
  ended :: bool
  psk :: bytes
  active_epoch :: u64
  connected :: bool
  to_pty :: "pty_msg list"
  pty_open :: bool
  killer :: bool
  killed :: nat

section \<open>Operations of \<open>SessionShared\<close>\<close>

definition current_total :: "session \<Rightarrow> u64" where
  "current_total s = ring_total (ring s)"

definition session_read_from :: "session \<Rightarrow> u64 \<Rightarrow> u64 \<times> bytes" where
  "session_read_from s offset = ring_read_from (ring s) offset"

definition current_psk :: "session \<Rightarrow> bytes" where
  "current_psk s = psk s"

text \<open>
  The generator of the operating system fills a buffer byte by byte; the clock is the time since
  the epoch, if it is not before it.
\<close>

definition random_psk :: "(nat \<Rightarrow> u8) \<Rightarrow> bytes" where
  "random_psk generator = map generator [0..<32]"

definition now_secs :: "u64 option \<Rightarrow> u64" where
  "now_secs since_epoch = (case since_epoch of Some secs \<Rightarrow> secs | None \<Rightarrow> 0)"

lemma length_random_psk [simp]: "length (random_psk generator) = 32"
  by (simp add: random_psk_def)

text \<open>The fresh key, \<open>random_psk\<close> of some generator, is an argument.\<close>

definition rotate_psk :: "bytes \<Rightarrow> session \<Rightarrow> session \<times> bytes" where
  "rotate_psk fresh s = (s\<lparr>psk := fresh\<rparr>, fresh)"

definition is_ended :: "session \<Rightarrow> bool" where
  "is_ended s = ended s"

definition is_busy :: "session \<Rightarrow> bool" where
  "is_busy s \<longleftrightarrow> connected s \<and> \<not> is_ended s"

definition status_str :: "session \<Rightarrow> string" where
  "status_str s = (if is_busy s then ''attached'' else ''detached'')"

definition bump_epoch :: "session \<Rightarrow> session \<times> u64" where
  "bump_epoch s = (s\<lparr>active_epoch := active_epoch s + 1\<rparr>, active_epoch s + 1)"

definition set_connected :: "bool \<Rightarrow> session \<Rightarrow> session" where
  "set_connected b s = s\<lparr>connected := b\<rparr>"

definition become_active :: "session \<Rightarrow> session \<times> u64" where
  "become_active s = (let (s', e) = bump_epoch s in (set_connected True s', e))"

definition is_current :: "session \<Rightarrow> u64 \<Rightarrow> bool" where
  "is_current s epoch \<longleftrightarrow> active_epoch s = epoch"

definition leave :: "session \<Rightarrow> u64 \<Rightarrow> session" where
  "leave s epoch = (if is_current s epoch then set_connected False s else s)"

definition send_pty :: "pty_msg \<Rightarrow> session \<Rightarrow> session" where
  "send_pty m s = (if pty_open s then s\<lparr>to_pty := to_pty s @ [m]\<rparr> else s)"

definition send_input :: "session \<Rightarrow> bytes \<Rightarrow> session" where
  "send_input s bs = send_pty (Input bs) s"

definition resize :: "session \<Rightarrow> u16 \<Rightarrow> u16 \<Rightarrow> session" where
  "resize s cols rows = send_pty (ResizeTo cols rows) s"

definition kill :: "session \<Rightarrow> session" where
  "kill s = (if killer s then s\<lparr>killed := Suc (killed s)\<rparr> else s)"

definition notify :: "session \<Rightarrow> session" where
  "notify s = s\<lparr>notifications := Suc (notifications s)\<rparr>"

text \<open>
  \<open>mark_ended\<close>: the new session state, and whether the caller goes on to remove its
  identifier from the registry.
\<close>

definition mark_ended :: "session \<Rightarrow> session \<times> bool" where
  "mark_ended s = (if ended s then (s, False) else (notify (s\<lparr>ended := True\<rparr>), True))"

section \<open>Threads of a session\<close>

text \<open>One successful read of the PTY by the reader thread.\<close>

definition pty_output :: "session \<Rightarrow> bytes \<Rightarrow> session" where
  "pty_output s bs = notify (s\<lparr>ring := ring_append (ring s) bs\<rparr>)"

text \<open>
  The PTY as the writer thread sees it: the bytes written to it and its window size. The
  thread handles its queue until a write fails, which the flag reports; it then drops its receiver.
\<close>

record pty =
  fed :: sink
  cols_rows :: "u16 \<times> u16"

fun pty_writer :: "pty \<Rightarrow> pty_msg list \<Rightarrow> pty \<times> bool" where
  "pty_writer p [] = (p, True)"
| "pty_writer p (Input bs # ms) =
     (case write_all (fed p) bs of
        (w, False) \<Rightarrow> (p\<lparr>fed := w\<rparr>, False)
      | (w, True) \<Rightarrow> pty_writer (p\<lparr>fed := w\<rparr>) ms)"
| "pty_writer p (ResizeTo c r # ms) = pty_writer (p\<lparr>cols_rows := (c, r)\<rparr>) ms"

section \<open>A new session\<close>

definition new_session :: "string \<Rightarrow> string \<Rightarrow> u16 \<Rightarrow> u16 \<Rightarrow> nat \<Rightarrow> u64 \<Rightarrow> bytes \<Rightarrow> session" where
  "new_session sid shell cols rows ring_bytes now fresh =
     \<lparr>ident = sid, started = now, command = shell, opened_size = (cols, rows), ring = ring_new ring_bytes,
      notifications = 0, ended = False, psk = fresh, active_epoch = 0, connected = False,
      to_pty = [], pty_open = True, killer = True, killed = 0\<rparr>"

lemmas session_defs =
  current_total_def session_read_from_def current_psk_def rotate_psk_def is_ended_def is_busy_def
  status_str_def bump_epoch_def set_connected_def become_active_def is_current_def leave_def
  send_pty_def send_input_def resize_def kill_def notify_def mark_ended_def pty_output_def

section \<open>The session as an output log\<close>

definition session_rep :: "session \<Rightarrow> bytes \<Rightarrow> bool" where
  "session_rep s h \<longleftrightarrow> ring_rep (ring s) h"

definition session_first :: "session \<Rightarrow> bytes \<Rightarrow> nat" where
  "session_first s h = ring_first (ring s) h"

interpretation session_log: output_log session_rep pty_output session_read_from session_first
  by unfold_locales
    (auto simp: session_rep_def session_first_def session_read_from_def pty_output_def notify_def
      dest: ring_log.rep_bound ring_log.rep_append ring_log.read_slice ring_log.read_progress
        ring_log.read_retained)

lemma session_rep_new: "session_rep (new_session sid shell c r cap now fresh) []"
  by (simp add: session_rep_def new_session_def ring_rep_new)

text \<open>No operation but the PTY's output touches the ring buffer.\<close>

lemma ring_frame [simp]:
  "ring (fst (rotate_psk k s)) = ring s" "ring (fst (become_active s)) = ring s"
  "ring (leave s e) = ring s" "ring (send_input s bs) = ring s" "ring (resize s c r) = ring s"
  "ring (kill s) = ring s" "ring (fst (mark_ended s)) = ring s"
  by (simp_all add: session_defs)

text \<open>An ended session stays ended, whatever is done to it.\<close>

lemma ended_frame [simp]:
  "ended (fst (rotate_psk k s)) = ended s" "ended (fst (become_active s)) = ended s"
  "ended (leave s e) = ended s" "ended (send_input s bs) = ended s" "ended (resize s c r) = ended s"
  "ended (kill s) = ended s" "ended (pty_output s bs) = ended s" "ended (fst (mark_ended s))"
  by (simp_all add: session_defs)

section \<open>Taking over the active connection\<close>

text \<open>
  The contract of the active-connection discipline: taking over makes the new connection
  current and every other one stale, a stale connection's leaving changes nothing, the
  current one's leaving clears the busy flag.
\<close>

locale takeover =
  fixes activate :: "'s \<Rightarrow> 's \<times> 'e"
    and current :: "'s \<Rightarrow> 'e \<Rightarrow> bool"
    and depart :: "'s \<Rightarrow> 'e \<Rightarrow> 's"
    and busy :: "'s \<Rightarrow> bool"
    and live :: "'s \<Rightarrow> bool"
  assumes activate_current: "activate s = (s', e) \<Longrightarrow> current s' e' \<longleftrightarrow> e' = e"
    and activate_busy: "activate s = (s', e) \<Longrightarrow> live s \<Longrightarrow> busy s' \<and> live s'"
    and depart_stale: "\<not> current s e \<Longrightarrow> depart s e = s"
    and depart_current: "current s e \<Longrightarrow> \<not> busy (depart s e) \<and> current (depart s e) e'= current s e'"
    and depart_live: "live (depart s e) = live s"
begin

lemma superseded_leaves_busy:
  assumes "activate s = (s', e)" and "live s" and "e' \<noteq> e"
  shows "depart s' e' = s' \<and> busy (depart s' e')"
  using assms activate_current [OF assms(1)] activate_busy [OF assms(1,2)] depart_stale by auto

lemma leave_all_stale:
  assumes "activate s = (s', e)" and "live s" and "e \<notin> set es"
  shows "fold (\<lambda>x t. depart t x) es s' = s'"
  using assms(3)
proof (induction es)
  case (Cons x xs)
  then have "depart s' x = s'"
    using activate_current [OF assms(1)] depart_stale by auto
  with Cons show ?case by simp
qed simp

lemma leave_frees:
  assumes "activate s = (s', e)" and "live s" and "e \<notin> set es"
  shows "\<not> busy (depart (fold (\<lambda>x t. depart t x) es s') e)"
  using leave_all_stale [OF assms] activate_current [OF assms(1)] depart_current by auto

end

interpretation session_takeover: takeover become_active is_current leave is_busy "\<lambda>s. \<not> ended s"
  by unfold_locales (auto simp: session_defs)

section \<open>Properties\<close>

text \<open>Taking over: once a new connection is active, the leaving of any number of older
  ones changes nothing and the session stays busy; only the active one's leaving frees it.\<close>

theorem takeover_discipline:
  assumes "become_active s = (s', e)" and "\<not> ended s" and "e \<notin> set es"
  shows "is_busy s' \<and> fold (\<lambda>x t. leave t x) es s' = s' \<and>
         \<not> is_busy (leave (fold (\<lambda>x t. leave t x) es s') e)"
  using session_takeover.leave_all_stale [OF assms] session_takeover.leave_frees [OF assms]
    session_takeover.activate_busy [OF assms(1,2)] by blast

theorem takeover_discipline_witness:
  "\<exists>s'. fst (become_active (new_session [] [] 80 24 0 0 [])) = s' \<and> is_busy s' \<and>
     leave (leave s' 0) 7 = s' \<and> \<not> is_busy (leave (leave (leave s' 0) 7) 1)"
proof -
  have live: "\<not> ended (new_session [] [] 80 24 0 0 [])" by (simp add: new_session_def)
  obtain s' e where act: "become_active (new_session [] [] 80 24 0 0 []) = (s', e)" by force
  then have "e = 1" by (simp add: session_defs new_session_def)
  with takeover_discipline [OF act live, of "[0, 7]"] act show ?thesis by auto
qed

lemma epochs_count:
  "active_epoch (((\<lambda>s. fst (become_active s)) ^^ n) s) = active_epoch s + word_of_nat n"
  by (induction n) (simp_all add: session_defs)

text \<open>A superseded connection never becomes current again: after any number of further
  takeovers below the epoch counter's wrap-around, its epoch check fails and its leaving
  does nothing.\<close>

lemma superseded_forever:
  assumes "become_active s = (s', e)" and "0 < n" and "n < 2 ^ 64"
  shows "\<not> is_current (((\<lambda>s. fst (become_active s)) ^^ n) s') e \<and>
         leave (((\<lambda>s. fst (become_active s)) ^^ n) s') e = ((\<lambda>s. fst (become_active s)) ^^ n) s'"
proof -
  have "active_epoch s' = e" using assms(1) by (auto simp: session_defs)
  moreover have "unat (word_of_nat n :: u64) = n" using assms(3) by (rule unat_of_nat_len)
  then have "(word_of_nat n :: u64) \<noteq> 0" using assms(2) by auto
  ultimately show ?thesis by (simp add: is_current_def leave_def epochs_count)
qed

end
