(* ===== verification/Control.thy ===== *)
theory Control
  imports Thther_Prelude
begin

text \<open>
  proto/control.rs: the requests and responses the agent and the daemon exchange. Their
  JSON form is serde's: a printer and a parser, arguments where they are used.
\<close>

datatype control_request =
    OnProtocol u8 control_request
  | OnPort u16 control_request
  | Create u16 u16
  | Attach string
  | Ls
  | Kill string

record session_info =
  info_id :: string
  info_started :: u64
  info_status :: string
  info_cmd :: string

datatype control_response =
    Bootstrap u16 string string
  | LsResponse "session_info list"
  | OkResponse
  | ErrResponse string

end
