(* ===== verification/Registry.thy ===== *)
theory Registry
  imports Session Control
begin

text \<open>
  server/registry.rs, and the sharing of sessions: the code holds sessions behind
  \<open>Arc\<close>, so a connection keeps its session after the registry has dropped it. The
  server state is a store of sessions by address and a registry from identifiers to
  addresses.
\<close>

section \<open>The store and the registry\<close>

record server =
  store :: "nat \<Rightarrow> session option"
  next_addr :: nat
  registry :: "string \<Rightarrow> nat option"

definition empty_server :: server where
  "empty_server = \<lparr>store = (\<lambda>_. None), next_addr = 0, registry = (\<lambda>_. None)\<rparr>"

text \<open>\<open>Arc::new\<close>: a new address for a session.\<close>

definition alloc :: "session \<Rightarrow> server \<Rightarrow> server \<times> nat" where
  "alloc s sv =
     (sv\<lparr>store := (store sv)(next_addr sv \<mapsto> s), next_addr := Suc (next_addr sv)\<rparr>, next_addr sv)"

text \<open>A method call on the session at an address.\<close>

definition on_session :: "nat \<Rightarrow> (session \<Rightarrow> session) \<Rightarrow> server \<Rightarrow> server" where
  "on_session a f sv = sv\<lparr>store := (store sv)(a := map_option f (store sv a))\<rparr>"

definition reg_insert :: "nat \<Rightarrow> server \<Rightarrow> server" where
  "reg_insert a sv =
     (case store sv a of
        None \<Rightarrow> sv
      | Some s \<Rightarrow> sv\<lparr>registry := (registry sv)(ident s \<mapsto> a)\<rparr>)"

definition reg_get :: "server \<Rightarrow> string \<Rightarrow> nat option" where
  "reg_get sv sid = registry sv sid"

definition reg_remove :: "string \<Rightarrow> server \<Rightarrow> server" where
  "reg_remove sid sv = sv\<lparr>registry := (registry sv)(sid := None)\<rparr>"

definition reg_contains :: "server \<Rightarrow> string \<Rightarrow> bool" where
  "reg_contains sv sid \<longleftrightarrow> registry sv sid \<noteq> None"

definition info_of :: "session \<Rightarrow> session_info" where
  "info_of s = \<lparr>info_id = ident s, info_started = started s, info_status = status_str s,
                info_cmd = command s\<rparr>"

text \<open>
  The order in which the hash map yields its keys is an argument; \<open>sort_by\<close> is stable,
  as \<open>sort_key\<close> is.
\<close>

definition reg_list :: "string list \<Rightarrow> server \<Rightarrow> session_info list" where
  "reg_list order sv =
     sort_key info_started
       (List.map_filter (\<lambda>sid. Option.bind (registry sv sid) (\<lambda>a. map_option info_of (store sv a))) order)"

text \<open>\<open>SessionShared::mark_ended\<close> with the registry it is given.\<close>

definition mark_session_ended :: "nat \<Rightarrow> server \<Rightarrow> server" where
  "mark_session_ended a sv =
     (case store sv a of
        None \<Rightarrow> sv
      | Some s \<Rightarrow>
          (case mark_ended s of
             (s', first) \<Rightarrow>
               let sv' = on_session a (\<lambda>_. s') sv in
               if first then reg_remove (ident s) sv' else sv'))"

lemmas registry_defs =
  alloc_def on_session_def reg_insert_def reg_get_def reg_remove_def reg_contains_def
  mark_session_ended_def

section \<open>Well-formed servers\<close>

text \<open>
  The registry names allocated sessions under their own identifiers and nothing ended;
  every live session is registered.
\<close>

definition server_ok :: "server \<Rightarrow> bool" where
  "server_ok sv \<longleftrightarrow>
     (\<forall>a. next_addr sv \<le> a \<longrightarrow> store sv a = None) \<and>
     (\<forall>sid a. registry sv sid = Some a \<longrightarrow>
        (\<exists>s. store sv a = Some s \<and> ident s = sid \<and> \<not> ended s)) \<and>
     (\<forall>a s. store sv a = Some s \<longrightarrow> \<not> ended s \<longrightarrow> registry sv (ident s) = Some a)"

lemma server_okD:
  assumes "server_ok sv"
  shows "next_addr sv \<le> a \<Longrightarrow> store sv a = None"
    and "registry sv sid = Some a \<Longrightarrow> \<exists>s. store sv a = Some s \<and> ident s = sid \<and> \<not> ended s"
    and "store sv a = Some s \<Longrightarrow> \<not> ended s \<Longrightarrow> registry sv (ident s) = Some a"
  using assms by (auto simp: server_ok_def)

lemma server_okI:
  assumes "\<And>a. next_addr sv \<le> a \<Longrightarrow> store sv a = None"
    and "\<And>sid a. registry sv sid = Some a \<Longrightarrow> \<exists>s. store sv a = Some s \<and> ident s = sid \<and> \<not> ended s"
    and "\<And>a s. store sv a = Some s \<Longrightarrow> \<not> ended s \<Longrightarrow> registry sv (ident s) = Some a"
  shows "server_ok sv"
  using assms by (simp add: server_ok_def)

lemma server_ok_empty: "server_ok empty_server"
  by (simp add: server_ok_def empty_server_def)

lemma on_session_sel [simp]:
  "store (on_session a f sv) x = (if x = a then map_option f (store sv a) else store sv x)"
  "registry (on_session a f sv) = registry sv" "next_addr (on_session a f sv) = next_addr sv"
  by (simp_all add: on_session_def)

text \<open>An operation that changes neither identifier nor liveness keeps the server well-formed.\<close>

lemma server_ok_on_session:
  assumes "server_ok sv" and f: "\<And>s. ident (f s) = ident s \<and> ended (f s) = ended s"
  shows "server_ok (on_session a f sv)"
proof (rule server_okI)
  show "next_addr (on_session a f sv) \<le> x \<Longrightarrow> store (on_session a f sv) x = None" for x
    using server_okD(1) [OF assms(1), of x] by auto
  show "registry (on_session a f sv) sid = Some x \<Longrightarrow>
      \<exists>s. store (on_session a f sv) x = Some s \<and> ident s = sid \<and> \<not> ended s" for sid x
    using server_okD(2) [OF assms(1), of sid x] f by auto
  show "store (on_session a f sv) x = Some s \<Longrightarrow> \<not> ended s \<Longrightarrow>
      registry (on_session a f sv) (ident s) = Some x" for x s
    using server_okD(3) [OF assms(1), of x] f by (auto split: if_splits)
qed

lemma server_ok_spawn:
  assumes "server_ok sv" and "\<not> reg_contains sv (ident s)" and "\<not> ended s"
    and "alloc s sv = (sv', a)"
  shows "server_ok (reg_insert a sv')"
proof -
  have st: "store sv' = (store sv)(a \<mapsto> s)" "registry sv' = registry sv"
    and a: "a = next_addr sv" "next_addr sv' = Suc a"
    using assms(4) by (auto simp: alloc_def)
  have new: "store sv a = None" using server_okD(1) [OF assms(1), of a] a by simp
  have none: "registry sv (ident s) = None" using assms(2) by (simp add: reg_contains_def)
  have ins: "reg_insert a sv' = sv'\<lparr>registry := (registry sv)(ident s \<mapsto> a)\<rparr>"
    by (simp add: reg_insert_def st)
  show ?thesis
  proof (rule server_okI)
    show "next_addr (reg_insert a sv') \<le> x \<Longrightarrow> store (reg_insert a sv') x = None" for x
      unfolding ins using a server_okD(1) [OF assms(1), of x] by (auto simp: st)
    show "registry (reg_insert a sv') sid = Some x \<Longrightarrow>
        \<exists>t. store (reg_insert a sv') x = Some t \<and> ident t = sid \<and> \<not> ended t" for sid x
      using assms(3) new server_okD(2) [OF assms(1), of sid x]
      by (auto simp: ins st split: if_splits)
    show "store (reg_insert a sv') x = Some t \<Longrightarrow> \<not> ended t \<Longrightarrow>
        registry (reg_insert a sv') (ident t) = Some x" for x t
      using none server_okD(3) [OF assms(1), of x t] by (auto simp: ins st split: if_splits)
  qed
qed

lemma mark_session_ended_live:
  assumes "store sv a = Some s" and "\<not> ended s"
  shows "mark_session_ended a sv =
    sv\<lparr>store := (store sv)(a \<mapsto> notify (s\<lparr>ended := True\<rparr>)),
       registry := (registry sv)(ident s := None)\<rparr>"
  using assms by (simp add: mark_session_ended_def mark_ended_def on_session_def reg_remove_def)

lemma mark_session_ended_twice:
  assumes "store sv a = Some s" and "ended s"
  shows "mark_session_ended a sv = sv"
  using assms
  by (simp add: mark_session_ended_def mark_ended_def on_session_def fun_upd_idem)

lemma notify_sel [simp]:
  "ident (notify s) = ident s" "ended (notify s) = ended s" "ring (notify s) = ring s"
  by (simp_all add: notify_def)

lemma server_ok_mark_ended:
  assumes "server_ok sv"
  shows "server_ok (mark_session_ended a sv)"
proof (cases "store sv a")
  case None
  with assms show ?thesis by (simp add: mark_session_ended_def)
next
  case (Some s)
  show ?thesis
  proof (cases "ended s")
    case True
    with assms Some show ?thesis by (simp add: mark_session_ended_twice)
  next
    case False
    note eq = mark_session_ended_live [OF Some False]
    note reg = server_okD(3) [OF assms Some False]
    show ?thesis
    proof (rule server_okI)
      show "next_addr (mark_session_ended a sv) \<le> x \<Longrightarrow> store (mark_session_ended a sv) x = None" for x
        using Some server_okD(1) [OF assms, of x] by (auto simp: eq)
      show "registry (mark_session_ended a sv) sid = Some x \<Longrightarrow>
          \<exists>t. store (mark_session_ended a sv) x = Some t \<and> ident t = sid \<and> \<not> ended t" for sid x
        using Some server_okD(2) [OF assms, of sid x] by (auto simp: eq split: if_splits)
      show "store (mark_session_ended a sv) x = Some t \<Longrightarrow> \<not> ended t \<Longrightarrow>
          registry (mark_session_ended a sv) (ident t) = Some x" for x t
        using reg server_okD(3) [OF assms, of x t] by (auto simp: eq split: if_splits)
    qed
  qed
qed

section \<open>The contract of a session table\<close>

text \<open>What the daemon relies on: a lookup after an insertion, a removal or another session's change.\<close>

locale session_table =
  fixes lookup :: "'t \<Rightarrow> string \<Rightarrow> 'a option"
    and insert_at :: "'a \<Rightarrow> 't \<Rightarrow> 't"
    and remove :: "string \<Rightarrow> 't \<Rightarrow> 't"
    and names :: "'t \<Rightarrow> 'a \<Rightarrow> string option"
  assumes lookup_insert: "names t a = Some i \<Longrightarrow> lookup (insert_at a t) j = (if j = i then Some a else lookup t j)"
    and lookup_remove: "lookup (remove i t) j = (if j = i then None else lookup t j)"
    and names_insert: "names (insert_at a t) = names t"
    and names_remove: "names (remove i t) = names t"
begin

lemma insert_remove: "names t a = Some i \<Longrightarrow> lookup t i = None \<Longrightarrow> lookup (remove i (insert_at a t)) = lookup t"
  by (auto simp: fun_eq_iff lookup_insert lookup_remove)

lemma insert_replaces:
  "names t a = Some i \<Longrightarrow> names t b = Some i \<Longrightarrow>
     lookup (insert_at b (insert_at a t)) = lookup (insert_at b t)"
  by (auto simp: fun_eq_iff lookup_insert names_insert)

end

interpretation registry_table: session_table reg_get reg_insert reg_remove
    "\<lambda>sv a. map_option ident (store sv a)"
  by unfold_locales (auto simp: registry_defs fun_eq_iff split: option.splits)

section \<open>Properties\<close>

lemma map_filter_infos:
  assumes "server_ok sv"
  shows "set order \<subseteq> dom (registry sv) \<Longrightarrow>
    map info_id (List.map_filter (\<lambda>sid. Option.bind (registry sv sid) (\<lambda>a. map_option info_of (store sv a))) order)
      = order"
proof (induction order)
  case Nil
  then show ?case by (simp add: List.map_filter_def)
next
  case (Cons sid order)
  then obtain a where a: "registry sv sid = Some a" by auto
  with server_okD(2) [OF assms a] Cons show ?case
    by (auto simp: List.map_filter_def info_of_def)
qed

text \<open>The session list names every registered session once, oldest first, whatever
  order the hash map yields its keys in.\<close>

theorem list_complete_sorted:
  assumes "server_ok sv" and "distinct order" and "set order = dom (registry sv)"
  shows "sorted (map info_started (reg_list order sv)) \<and>
         set (map info_id (reg_list order sv)) = dom (registry sv) \<and>
         length (reg_list order sv) = card (dom (registry sv))"
proof -
  let ?l = "List.map_filter (\<lambda>sid. Option.bind (registry sv sid) (\<lambda>a. map_option info_of (store sv a))) order"
  have ids: "map info_id ?l = order" by (rule map_filter_infos [OF assms(1)]) (simp add: assms(3))
  then have "length ?l = length order" and "set (map info_id ?l) = set order"
    by (metis length_map, simp)
  with assms(2,3) show ?thesis
    by (simp add: reg_list_def distinct_card [symmetric])
qed

theorem list_complete_sorted_witness:
  "length (reg_list [''a'']
     (reg_insert 0 (fst (alloc (new_session ''a'' [] 80 24 0 0 []) empty_server)))) = 1"
proof -
  let ?sv = "reg_insert 0 (fst (alloc (new_session ''a'' [] 80 24 0 0 []) empty_server))"
  have "server_ok ?sv"
    by (rule server_ok_spawn [OF server_ok_empty])
      (simp_all add: reg_contains_def empty_server_def new_session_def alloc_def)
  moreover have "dom (registry ?sv) = {''a''}"
    by (auto simp: registry_defs empty_server_def new_session_def)
  ultimately show ?thesis using list_complete_sorted [of ?sv "[''a'']"] by simp
qed

end
