(* ===== verification/Config.thy ===== *)
theory Config
  imports Control
begin

text \<open>
  config.rs and the configuration half of main.rs. The file's contents, the environment
  variables and the TOML parser are arguments. A \<open>NonZeroU16\<close> is a \<open>u16\<close>; that it is
  not zero is part of \<open>config_ok\<close>.
\<close>

record config =
  ssh_target :: "string option"
  ssh_port :: "u16 option"
  tcp_host :: "string option"
  port :: "u16 option"
  port_range :: "u16 \<times> u16"
  ring_bytes :: nat

definition default_port_range :: "u16 \<times> u16" where
  "default_port_range = (60000, 61000)"

definition default_ring_bytes :: nat where
  "default_ring_bytes = 256 * 1024"

definition default_config :: config where
  "default_config =
     \<lparr>ssh_target = None, ssh_port = None, tcp_host = None, port = None,
      port_range = default_port_range, ring_bytes = default_ring_bytes\<rparr>"

text \<open>\<open>Option::or\<close>.\<close>

fun option_or :: "'a option \<Rightarrow> 'a option \<Rightarrow> 'a option" where
  "option_or (Some x) y = Some x"
| "option_or None y = y"

definition with_client_overrides :: "config \<Rightarrow> string option \<Rightarrow> u16 option \<Rightarrow> config" where
  "with_client_overrides c target p =
     (let c1 = (case target of None \<Rightarrow> c | Some t \<Rightarrow> c\<lparr>ssh_target := Some t, tcp_host := None\<rparr>)
      in c1\<lparr>port := option_or p (port c1)\<rparr>)"

text \<open>\<open>PathBuf::join\<close> with a relative component.\<close>

definition path_join :: "string \<Rightarrow> string \<Rightarrow> string" where
  "path_join a b = (if a = [] \<or> last a = CHR ''/'' then a @ b else a @ ''/'' @ b)"

definition base_dir :: "string option \<Rightarrow> string" where
  "base_dir home = (case home of Some h \<Rightarrow> path_join h ''.thther'' | None \<Rightarrow> ''/tmp/.thther'')"

definition runtime_dir :: "string option \<Rightarrow> string option \<Rightarrow> string" where
  "runtime_dir xdg home = (case xdg of Some x \<Rightarrow> path_join x ''thther'' | None \<Rightarrow> base_dir home)"

definition control_socket_path :: "string option \<Rightarrow> string option \<Rightarrow> string" where
  "control_socket_path xdg home = path_join (runtime_dir xdg home) ''control.sock''"

definition daemon_log_path :: "string option \<Rightarrow> string" where
  "daemon_log_path home = path_join (base_dir home) ''daemon.log''"

definition config_path :: "string option \<Rightarrow> string" where
  "config_path home = path_join (base_dir home) ''config.toml''"

datatype file_result = FileText string | FileMissing | FileError error

definition load_config ::
  "(string \<Rightarrow> error + config) \<Rightarrow> string option \<Rightarrow> file_result \<Rightarrow> error_chain + config" where
  "load_config parse_toml home file =
     (case file of
        FileText s \<Rightarrow>
          (case parse_toml s of
             Inr c \<Rightarrow> Inr c
           | Inl e \<Rightarrow> Inl (Context (''parsing '' @ config_path home) (Root e)))
      | FileMissing \<Rightarrow> Inr default_config
      | FileError e \<Rightarrow> Inl (Context (''reading '' @ config_path home) (Root e)))"

definition require_ssh_target :: "string option \<Rightarrow> config \<Rightarrow> error_chain + string" where
  "require_ssh_target home c =
     (case ssh_target c of
        Some t \<Rightarrow> Inr t
      | None \<Rightarrow> Inl (Root (Failure
          (''no ssh target; pass -t user@host or set ssh_target in '' @ config_path home))))"

text \<open>\<open>target.rsplit('@').next()\<close>: what follows the last \<open>@\<close>, all of it without one.\<close>

definition after_last_at :: "string \<Rightarrow> string" where
  "after_last_at t = rev (takeWhile (\<lambda>c. c \<noteq> CHR ''@'') (rev t))"

definition resolve_tcp_host :: "string option \<Rightarrow> config \<Rightarrow> error_chain + string" where
  "resolve_tcp_host home c =
     (case tcp_host c of
        Some h \<Rightarrow> Inr h
      | None \<Rightarrow>
          (case require_ssh_target home c of
             Inl e \<Rightarrow> Inl e
           | Inr t \<Rightarrow> Inr (after_last_at t)))"

definition load_client_config ::
  "(string \<Rightarrow> error + config) \<Rightarrow> string option \<Rightarrow> file_result \<Rightarrow> string option \<Rightarrow> u16 option \<Rightarrow>
     u16 option \<Rightarrow> error_chain + config" where
  "load_client_config parse_toml home file target p sp =
     (case load_config parse_toml home file of
        Inl e \<Rightarrow> Inl e
      | Inr c \<Rightarrow> Inr ((with_client_overrides c target p)\<lparr>ssh_port := sp\<rparr>))"

definition config_ok :: "config \<Rightarrow> bool" where
  "config_ok c \<longleftrightarrow> ssh_port c \<noteq> Some 0 \<and> port c \<noteq> Some 0"

lemma after_last_at_no_at: "CHR ''@'' \<notin> set (after_last_at t)"
  by (auto simp: after_last_at_def dest: set_takeWhileD)

lemma after_last_at_host:
  assumes "CHR ''@'' \<notin> set host"
  shows "after_last_at host = host" and "after_last_at (user @ ''@'' @ host) = host"
proof -
  from assms have "\<forall>c \<in> set (rev host). c \<noteq> CHR ''@''" by auto
  then have all: "takeWhile (\<lambda>c. c \<noteq> CHR ''@'') (rev host) = rev host"
    by (rule takeWhile_eq_all_conv [THEN iffD2])
  then show "after_last_at host = host" unfolding after_last_at_def by (simp only: rev_rev_ident)
  have "takeWhile (\<lambda>c. c \<noteq> CHR ''@'') (rev host @ CHR ''@'' # rev user) = rev host"
    using all by (subst takeWhile_append2) (use assms in auto)
  then show "after_last_at (user @ ''@'' @ host) = host"
    unfolding after_last_at_def by simp
qed

section \<open>Properties\<close>

text \<open>An explicit target decides the host the client dials: its part after the user,
  whatever \<open>tcp_host\<close> the configuration file pairs with its own target.\<close>

theorem explicit_target_host:
  assumes "load_config parse_toml home file = Inr c" and "CHR ''@'' \<notin> set host"
    and "load_client_config parse_toml home file (Some target) p sp = Inr c'"
    and "target = host \<or> target = user @ ''@'' @ host"
  shows "resolve_tcp_host home c' = Inr host \<and> ssh_port c' = sp \<and> port c' = option_or p (port c)"
  using assms after_last_at_host [OF assms(2)]
  by (auto simp: load_client_config_def with_client_overrides_def resolve_tcp_host_def
      require_ssh_target_def)

theorem explicit_target_host_witness:
  "resolve_tcp_host None
     (default_config\<lparr>ssh_target := Some ''me@box'', port := Some 7, ssh_port := Some 22\<rparr>) = Inr ''box''"
  using explicit_target_host [of "\<lambda>_. Inr (default_config\<lparr>tcp_host := Some ''old''\<rparr>)" None "FileText []"
      "default_config\<lparr>tcp_host := Some ''old''\<rparr>" "''box''" "''me@box''" "Some 7" "Some 22"
      "default_config\<lparr>ssh_target := Some ''me@box'', port := Some 7, ssh_port := Some 22\<rparr>" "''me''"]
  by (simp add: load_config_def load_client_config_def with_client_overrides_def default_config_def)

end
