(* ===== verification/Handshake.thy ===== *)
theory Handshake
  imports Crypto
begin

text \<open>
  proto/handshake.rs: the plaintext exchange before the encrypted frames. Each sender
  acts on a \<open>sink\<close>; each receiver takes the bytes the connection still delivers and
  returns what is left of them. Nonces are 32-byte arrays in the code: byte lists here,
  with their length a hypothesis where it matters.
\<close>

section \<open>Constants and messages\<close>

definition MAGIC :: bytes where "MAGIC = as_bytes ''THT1''"
definition VERSION :: u8 where "VERSION = 2"
definition SESSION_ID_LEN :: nat where "SESSION_ID_LEN = 8"
definition STATUS_OK :: u8 where "STATUS_OK = 0"
definition STATUS_NO_SESSION :: u8 where "STATUS_NO_SESSION = 1"
definition STATUS_VERSION_MISMATCH :: u8 where "STATUS_VERSION_MISMATCH = 2"
definition STATUS_BAD_OFFSET :: u8 where "STATUS_BAD_OFFSET = 3"

lemmas status_bytes =
  STATUS_OK_def STATUS_NO_SESSION_def STATUS_VERSION_MISMATCH_def STATUS_BAD_OFFSET_def

fun rejection_message :: "rejection \<Rightarrow> string" where
  "rejection_message NoSession = ''server: no such session''"
| "rejection_message VersionMismatch =
     ''terminal protocol version mismatch; upgrade both ends and manually restart the daemon after finishing its sessions''"
| "rejection_message BadOffset = ''server: resume offset exceeds session output''"

record client_hello =
  hello_session_id :: string
  hello_nonce :: bytes
  hello_offset :: u64

text \<open>The generator of the operating system fills a buffer byte by byte.\<close>

definition random_nonce :: "(nat \<Rightarrow> u8) \<Rightarrow> bytes" where
  "random_nonce generator = map generator [0..<NONCE_LEN]"

lemma length_random_nonce [simp]: "length (random_nonce generator) = NONCE_LEN"
  by (simp add: random_nonce_def)

section \<open>Client side\<close>

definition client_send :: "sink \<Rightarrow> string \<Rightarrow> bytes \<Rightarrow> u64 \<Rightarrow> sink \<times> (error + unit)" where
  "client_send w session_id client_nonce offset =
     (if length session_id \<noteq> SESSION_ID_LEN then (w, Inl BadSessionIdLength)
      else send_flushed w
        (MAGIC @ [VERSION] @ as_bytes session_id @ client_nonce @ u64_to_be offset))"

definition client_recv :: "bytes \<Rightarrow> bytes \<times> (error + (bytes \<times> u64))" where
  "client_recv r =
     (case read_exact 1 r of
        Inl e \<Rightarrow> ([], Inl e)
      | Inr (status, r1) \<Rightarrow>
          let s = hd status in
          if s = STATUS_OK then
            (case read_exact NONCE_LEN r1 of
               Inl e \<Rightarrow> ([], Inl e)
             | Inr (nonce, r2) \<Rightarrow>
                 (case read_exact 8 r2 of
                    Inl e \<Rightarrow> ([], Inl e)
                  | Inr (tot, r3) \<Rightarrow> (r3, Inr (nonce, u64_of_be tot))))
          else if s = STATUS_NO_SESSION then (r1, Inl (Rejected NoSession))
          else if s = STATUS_VERSION_MISMATCH then (r1, Inl (Rejected VersionMismatch))
          else if s = STATUS_BAD_OFFSET then (r1, Inl (Rejected BadOffset))
          else (r1, Inl (UnknownStatus s)))"

section \<open>Server side\<close>

definition server_recv :: "bytes \<Rightarrow> bytes \<times> (error + client_hello)" where
  "server_recv r =
     (case read_exact 4 r of
        Inl e \<Rightarrow> ([], Inl e)
      | Inr (magic, r1) \<Rightarrow>
          if magic \<noteq> MAGIC then (r1, Inl BadMagic)
          else
            (case read_exact 1 r1 of
               Inl e \<Rightarrow> ([], Inl e)
             | Inr (ver, r2) \<Rightarrow>
                 if hd ver \<noteq> VERSION then (r2, Inl (Rejected VersionMismatch))
                 else
                   (case read_exact SESSION_ID_LEN r2 of
                      Inl e \<Rightarrow> ([], Inl e)
                    | Inr (idb, r3) \<Rightarrow>
                        if \<not> valid_utf8 idb then (r3, Inl InvalidUtf8)
                        else
                          (case read_exact NONCE_LEN r3 of
                             Inl e \<Rightarrow> ([], Inl e)
                           | Inr (nonce, r4) \<Rightarrow>
                               (case read_exact 8 r4 of
                                  Inl e \<Rightarrow> ([], Inl e)
                                | Inr (offset, r5) \<Rightarrow>
                                    (r5, Inr \<lparr>hello_session_id = string_of_bytes idb,
                                              hello_nonce = nonce,
                                              hello_offset = u64_of_be offset\<rparr>))))))"

definition server_send_ok :: "sink \<Rightarrow> bytes \<Rightarrow> u64 \<Rightarrow> sink \<times> (error + unit)" where
  "server_send_ok w server_nonce server_total =
     send_flushed w ([STATUS_OK] @ server_nonce @ u64_to_be server_total)"

definition server_send_err :: "sink \<Rightarrow> u8 \<Rightarrow> sink \<times> (error + unit)" where
  "server_send_err w status = send_flushed w [status]"

lemma length_MAGIC [simp]: "length MAGIC = 4"
  by (simp add: MAGIC_def)

section \<open>What each side reads of what the other wrote\<close>

lemma client_send_InrD:
  assumes "client_send w sid nonce off = (w', Inr u)"
  shows "length sid = SESSION_ID_LEN \<and>
         written w' = written w @ MAGIC @ [VERSION] @ as_bytes sid @ nonce @ u64_to_be off"
  using assms by (auto simp: client_send_def dest: send_flushed_InrD split: if_splits)

lemma server_recv_hello:
  assumes "length sid = SESSION_ID_LEN" and "valid_utf8 (as_bytes sid)" and "length nonce = NONCE_LEN"
  shows "server_recv (MAGIC @ [VERSION] @ as_bytes sid @ nonce @ u64_to_be off @ rest) =
           (rest, Inr \<lparr>hello_session_id = sid, hello_nonce = nonce, hello_offset = off\<rparr>)"
  using assms by (simp add: server_recv_def)

lemma server_recv_other_version:
  assumes "v \<noteq> VERSION"
  shows "server_recv (MAGIC @ v # rest) = (rest, Inl (Rejected VersionMismatch))"
  using assms by (simp add: server_recv_def)

lemma client_recv_ok:
  assumes "length nonce = NONCE_LEN"
  shows "client_recv (STATUS_OK # nonce @ u64_to_be tot @ rest) = (rest, Inr (nonce, tot))"
  using assms by (simp add: client_recv_def)

lemma client_recv_status:
  assumes "s \<noteq> STATUS_OK"
  shows "client_recv (s # rest) =
           (rest, Inl (if s = STATUS_NO_SESSION then Rejected NoSession
                       else if s = STATUS_VERSION_MISMATCH then Rejected VersionMismatch
                       else if s = STATUS_BAD_OFFSET then Rejected BadOffset
                       else UnknownStatus s))"
  using assms by (simp add: client_recv_def Let_def)

text \<open>The server's side of an accepted hello determines the bytes that were read.\<close>

lemma server_recv_InrD:
  assumes "server_recv r = (rest, Inr h)"
  shows "r = MAGIC @ [VERSION] @ as_bytes (hello_session_id h) @ hello_nonce h @
             u64_to_be (hello_offset h) @ rest
         \<and> length (hello_session_id h) = SESSION_ID_LEN \<and> length (hello_nonce h) = NONCE_LEN
         \<and> valid_utf8 (as_bytes (hello_session_id h))"
proof -
  from assms obtain magic ver sid nonce off r1 r2 r3 r4 where
      1: "read_exact 4 r = Inr (magic, r1)" and "magic = MAGIC"
    and 2: "read_exact 1 r1 = Inr (ver, r2)" and "hd ver = VERSION"
    and 3: "read_exact SESSION_ID_LEN r2 = Inr (sid, r3)" and "valid_utf8 sid"
    and 4: "read_exact NONCE_LEN r3 = Inr (nonce, r4)"
    and 5: "read_exact 8 r4 = Inr (off, rest)"
    and h: "h = \<lparr>hello_session_id = string_of_bytes sid, hello_nonce = nonce,
                 hello_offset = u64_of_be off\<rparr>"
    by (auto simp: server_recv_def split: sum.splits if_splits prod.splits)
  from read_exact_InrD [OF 2] \<open>hd ver = VERSION\<close> have "ver = [VERSION]"
    by (cases ver) auto
  with read_exact_InrD [OF 1] read_exact_InrD [OF 2] read_exact_InrD [OF 3]
    read_exact_InrD [OF 4] read_exact_InrD [OF 5] \<open>magic = MAGIC\<close> \<open>valid_utf8 sid\<close>
  show ?thesis by (simp add: h be64.enc_dec)
qed

section \<open>Properties\<close>

text \<open>The server accepts exactly the client's hello: magic, version 2, eight bytes of
  well-formed identifier, a 32-byte nonce and an offset, and nothing beyond them is read.\<close>

theorem hello_exactly:
  "server_recv r = (rest, Inr h) \<longleftrightarrow>
     r = MAGIC @ [VERSION] @ as_bytes (hello_session_id h) @ hello_nonce h @
         u64_to_be (hello_offset h) @ rest
     \<and> length (hello_session_id h) = SESSION_ID_LEN \<and> length (hello_nonce h) = NONCE_LEN
     \<and> valid_utf8 (as_bytes (hello_session_id h))"
  using server_recv_InrD [of r rest h]
    server_recv_hello [of "hello_session_id h" "hello_nonce h" "hello_offset h" rest]
  by auto

end
