(* ===== verification/Daemon.thy ===== *)
theory Daemon
  imports Registry Config Handshake
begin

text \<open>
  server/daemon.rs: binding the TCP port, the control requests, and the connections:
  handshake, authentication, reader and writer. The operating system's answers, the
  random numbers and the iteration order of the registry's hash map are arguments.
\<close>

section \<open>Binding the TCP port\<close>

definition invalid_range_message :: "u16 \<Rightarrow> u16 \<Rightarrow> string" where
  "invalid_range_message lo hi =
     ''invalid TCP port range '' @ dec_string (unat lo) @ ''-'' @ dec_string (unat hi) @
     ''; expected 1 <= low <= high <= 65535''"

definition no_free_port_message :: "u16 \<Rightarrow> u16 \<Rightarrow> string" where
  "no_free_port_message lo hi =
     ''no free TCP port in range '' @ dec_string (unat lo) @ ''-'' @ dec_string (unat hi)"

text \<open>The loop \<open>for port in lo..=hi\<close>, from port number \<open>p\<close>.\<close>

function try_ports :: "(u16 \<Rightarrow> bool) \<Rightarrow> nat \<Rightarrow> nat \<Rightarrow> u16 option" where
  "try_ports can_bind p hi =
     (if p \<le> hi then
        if can_bind (word_of_nat p) then Some (word_of_nat p) else try_ports can_bind (Suc p) hi
      else None)"
  by pat_completeness auto
termination
  by (relation "measure (\<lambda>(can_bind, p, hi). Suc hi - p)") auto

declare try_ports.simps [simp del]

definition bind_tcp_in_range :: "(u16 \<Rightarrow> bool) \<Rightarrow> u16 \<times> u16 \<Rightarrow> error + u16" where
  "bind_tcp_in_range can_bind lohi =
     (case lohi of (lo, hi) \<Rightarrow>
        if \<not> (lo \<noteq> 0 \<and> lo \<le> hi) then Inl (Failure (invalid_range_message lo hi))
        else
          (case try_ports can_bind (unat lo) (unat hi) of
             Some p \<Rightarrow> Inr p
           | None \<Rightarrow> Inl (Failure (no_free_port_message lo hi))))"

definition bind_tcp :: "(u16 \<Rightarrow> bool) \<Rightarrow> config \<Rightarrow> error + u16" where
  "bind_tcp can_bind cfg =
     (case port cfg of
        Some p \<Rightarrow>
          if can_bind p then Inr p else Inl (Failure (''bind TCP port '' @ dec_string (unat p)))
      | None \<Rightarrow> bind_tcp_in_range can_bind (port_range cfg))"

section \<open>Creating a session\<close>

text \<open>
  What the environment answers to one control request: the stream of random identifiers,
  \<open>$SHELL\<close>, \<open>$TERM\<close> and \<open>$HOME\<close>, the errors of the fallible calls on the PTY in the order
  the code makes them, the time, a fresh key, and the order of the registry's keys.
\<close>

record pty_results =
  openpty :: "string option"
  spawn_command :: "string option"
  clone_reader :: "string option"
  take_writer :: "string option"

definition pty_works :: pty_results where
  "pty_works = \<lparr>openpty = None, spawn_command = None, clone_reader = None, take_writer = None\<rparr>"

record daemon_env =
  rng :: "nat \<Rightarrow> u32"
  shell_var :: "string option"
  term_var :: "string option"
  home_var :: "string option"
  pty_calls :: pty_results
  clock :: u64
  fresh_key :: bytes
  key_order :: "string list"

partial_function (option) new_session_id :: "server \<Rightarrow> (nat \<Rightarrow> u32) \<Rightarrow> nat \<Rightarrow> string option" where
  "new_session_id sv draws i =
     (let sid = hex8 (draws i) in
      if \<not> reg_contains sv sid then Some sid else new_session_id sv draws (Suc i))"

definition plain_env :: daemon_env where
  "plain_env =
     \<lparr>rng = (\<lambda>_. 0), shell_var = None, term_var = None, home_var = None, pty_calls = pty_works,
      clock = 0, fresh_key = [], key_order = []\<rparr>"

text \<open>The command the shell is started with: program, \<open>$TERM\<close>, and working directory if it is set.\<close>

record shell_command =
  program :: string
  term_name :: string
  work_dir :: "string option"

definition shell_command_for :: "daemon_env \<Rightarrow> string \<Rightarrow> shell_command" where
  "shell_command_for env shell =
     \<lparr>program = shell,
      term_name = (case term_var env of Some t \<Rightarrow> t | None \<Rightarrow> ''xterm-256color''),
      work_dir = home_var env\<rparr>"

text \<open>The first \<open>?\<close> of \<open>spawn_session\<close> that returns.\<close>

definition spawn_error :: "daemon_env \<Rightarrow> string option" where
  "spawn_error env =
     (case openpty (pty_calls env) of
        Some e \<Rightarrow> Some e
      | None \<Rightarrow>
          (case spawn_command (pty_calls env) of
             Some e \<Rightarrow> Some e
           | None \<Rightarrow>
               (case clone_reader (pty_calls env) of
                  Some e \<Rightarrow> Some e
                | None \<Rightarrow> take_writer (pty_calls env))))"

lemma plain_env_sel [simp]:
  "rng plain_env = (\<lambda>_. 0)" "shell_var plain_env = None" "pty_calls plain_env = pty_works"
  "clock plain_env = 0" "fresh_key plain_env = []" "key_order plain_env = []"
  by (simp_all add: plain_env_def)

lemma spawn_error_works [simp]: "pty_calls env = pty_works \<Longrightarrow> spawn_error env = None"
  by (simp add: spawn_error_def pty_works_def)

text \<open>
  \<open>spawn_session\<close> in two parts. \<open>start_session\<close>: the shell is started, the session is allocated
  and its threads (\<open>pty_output\<close>, \<open>pty_writer\<close>, \<open>mark_session_ended\<close>) start. If a call fails after
  the shell has been started, the error goes with that shell, which nothing kills or waits for.
  Then the session is registered; theory \<open>Crowd\<close> has what the threads may do before that.
\<close>

definition left_running :: "daemon_env \<Rightarrow> string \<Rightarrow> shell_command option" where
  "left_running env shell =
     (if openpty (pty_calls env) = None \<and> spawn_command (pty_calls env) = None
      then Some (shell_command_for env shell) else None)"

definition start_session ::
  "daemon_env \<Rightarrow> string \<Rightarrow> string \<Rightarrow> u16 \<Rightarrow> u16 \<Rightarrow> nat \<Rightarrow> server \<Rightarrow>
     server \<times> ((string \<times> shell_command option) + (nat \<times> shell_command))" where
  "start_session env sid shell cols rows ring_size sv =
     (case spawn_error env of
        Some e \<Rightarrow> (sv, Inl (e, left_running env shell))
      | None \<Rightarrow>
          (case alloc (new_session sid shell cols rows ring_size (clock env) (fresh_key env)) sv of
             (sv', a) \<Rightarrow> (sv', Inr (a, shell_command_for env shell))))"

definition spawn_session ::
  "daemon_env \<Rightarrow> string \<Rightarrow> string \<Rightarrow> u16 \<Rightarrow> u16 \<Rightarrow> nat \<Rightarrow> server \<Rightarrow>
     server \<times> ((string \<times> shell_command option) + (nat \<times> shell_command))" where
  "spawn_session env sid shell cols rows ring_size sv =
     (case start_session env sid shell cols rows ring_size sv of
        (sv', Inl e) \<Rightarrow> (sv', Inl e)
      | (sv', Inr (a, started_command)) \<Rightarrow> (reg_insert a sv', Inr (a, started_command)))"

lemma spawn_session_eq:
  "spawn_session env sid shell cols rows ring_size sv =
     (case spawn_error env of
        Some e \<Rightarrow> (sv, Inl (e, left_running env shell))
      | None \<Rightarrow>
          (case alloc (new_session sid shell cols rows ring_size (clock env) (fresh_key env)) sv of
             (sv', a) \<Rightarrow> (reg_insert a sv', Inr (a, shell_command_for env shell))))"
  by (simp add: spawn_session_def start_session_def split: option.splits prod.splits)

section \<open>Control requests\<close>

definition wrong_port_message :: "u16 \<Rightarrow> u16 \<Rightarrow> string" where
  "wrong_port_message p expected =
     ''daemon is listening on TCP port '' @ dec_string (unat p) @ '', but TCP port '' @
     dec_string (unat expected) @ '' was requested; use port '' @ dec_string (unat p) @
     '' or manually restart the daemon to change ports (restarting ends its sessions)''"

definition version_mismatch :: control_response where
  "version_mismatch = ErrResponse (rejection_message VersionMismatch)"

text \<open>
  The validation loop: the response that rejects the request, or whether a protocol
  wrapper was seen and the request inside all wrappers.
\<close>

fun unwrap_request :: "u16 \<Rightarrow> bool \<Rightarrow> control_request \<Rightarrow> control_response + (bool \<times> control_request)" where
  "unwrap_request p checked (OnPort expected request) =
     (if expected \<noteq> p then Inl (ErrResponse (wrong_port_message p expected))
      else unwrap_request p checked request)"
| "unwrap_request p checked (OnProtocol version request) =
     (if version \<noteq> VERSION then Inl version_mismatch else unwrap_request p True request)"
| "unwrap_request p checked req = Inr (checked, req)"

fun needs_protocol :: "control_request \<Rightarrow> bool" where
  "needs_protocol (Create c r) = True"
| "needs_protocol (Attach i) = True"
| "needs_protocol _ = False"

text \<open>
  \<open>execute_control\<close>; \<open>None\<close> if the search for a free identifier does not end. The hex
  encoder of the key is the \<open>hex\<close> crate's.
\<close>

definition do_create ::
  "(bytes \<Rightarrow> string) \<Rightarrow> nat \<Rightarrow> u16 \<Rightarrow> daemon_env \<Rightarrow> server \<Rightarrow> u16 \<Rightarrow> u16 \<Rightarrow> (server \<times> control_response) option" where
  "do_create hex_encode ring_size p env sv cols rows =
     (case new_session_id sv (rng env) 0 of
        None \<Rightarrow> None
      | Some sid \<Rightarrow>
          let shell = (case shell_var env of Some s \<Rightarrow> s | None \<Rightarrow> ''/bin/sh'') in
          case spawn_session env sid shell (max cols 1) (max rows 1) ring_size sv of
            (sv', Inl (e, left)) \<Rightarrow> Some (sv', ErrResponse (''spawn failed: '' @ e))
          | (sv', Inr (a, started_command)) \<Rightarrow>
              (case store sv' a of
                 None \<Rightarrow> None
               | Some s \<Rightarrow> Some (sv', Bootstrap p (ident s) (hex_encode (current_psk s)))))"

definition do_attach ::
  "(bytes \<Rightarrow> string) \<Rightarrow> u16 \<Rightarrow> daemon_env \<Rightarrow> server \<Rightarrow> string \<Rightarrow> server \<times> control_response" where
  "do_attach hex_encode p env sv sid =
     (case Option.bind (reg_get sv sid) (\<lambda>a. map_option (Pair a) (store sv a)) of
        None \<Rightarrow> (sv, ErrResponse ''no such session'')
      | Some (a, s) \<Rightarrow>
          if is_ended s then (sv, ErrResponse ''session ended'')
          else if is_busy s then (sv, ErrResponse ''session busy (already attached)'')
          else
            (case rotate_psk (fresh_key env) s of
               (s', k) \<Rightarrow> (on_session a (\<lambda>_. s') sv, Bootstrap p (ident s) (hex_encode k))))"

definition do_kill :: "server \<Rightarrow> string \<Rightarrow> server \<times> control_response" where
  "do_kill sv sid =
     (case reg_get sv sid of
        Some a \<Rightarrow> (on_session a kill sv, OkResponse)
      | None \<Rightarrow> (sv, ErrResponse ''no such session''))"

definition execute_control ::
  "(bytes \<Rightarrow> string) \<Rightarrow> nat \<Rightarrow> u16 \<Rightarrow> daemon_env \<Rightarrow> server \<Rightarrow> control_request \<Rightarrow>
     (server \<times> control_response) option" where
  "execute_control hex_encode ring_size p env sv req =
     (case unwrap_request p False req of
        Inl response \<Rightarrow> Some (sv, response)
      | Inr (checked, inner) \<Rightarrow>
          if \<not> checked \<and> needs_protocol inner then Some (sv, version_mismatch)
          else
            (case inner of
               Create cols rows \<Rightarrow> do_create hex_encode ring_size p env sv cols rows
             | Attach sid \<Rightarrow> Some (do_attach hex_encode p env sv sid)
             | Ls \<Rightarrow> Some (sv, LsResponse (reg_list (key_order env) sv))
             | Kill sid \<Rightarrow> Some (do_kill sv sid)
             | _ \<Rightarrow> None))"

text \<open>
  \<open>handle_control\<close>: the line read from the control socket (\<open>None\<close> at end of file) or the error
  of reading it, the parser and printer of the JSON forms, and the sink the answer goes to.
\<close>

definition handle_control ::
  "(string \<Rightarrow> control_request option) \<Rightarrow> (control_response \<Rightarrow> string) \<Rightarrow> (bytes \<Rightarrow> string) \<Rightarrow>
     nat \<Rightarrow> u16 \<Rightarrow> daemon_env \<Rightarrow> server \<Rightarrow> sink \<Rightarrow> error + string option \<Rightarrow>
     (server \<times> sink \<times> (error + unit)) option" where
  "handle_control parse_json print_json hex_encode ring_size p env sv w line =
     (case line of
        Inl e \<Rightarrow> Some (sv, w, Inl e)
      | Inr None \<Rightarrow> Some (sv, w, Inr ())
      | Inr (Some l) \<Rightarrow>
          (case parse_json (str_trim l) of
             None \<Rightarrow> Some (sv, w, Inl (Failure ''invalid request''))
           | Some req \<Rightarrow>
               (case execute_control hex_encode ring_size p env sv req of
                  None \<Rightarrow> None
                | Some (sv', resp) \<Rightarrow>
                    (case send_flushed w (as_bytes (print_json resp) @ [0x0A]) of
                       (w', res) \<Rightarrow> Some (sv', w', res)))))"

section \<open>Facts of the operations\<close>

lemma try_ports_Some:
  "try_ports can_bind p hi = Some q \<Longrightarrow>
     \<exists>k. q = word_of_nat k \<and> p \<le> k \<and> k \<le> hi \<and> can_bind (word_of_nat k) \<and>
         (\<forall>j. p \<le> j \<longrightarrow> j < k \<longrightarrow> \<not> can_bind (word_of_nat j))"
proof (induction can_bind p hi rule: try_ports.induct)
  case (1 can_bind p hi)
  show ?case
  proof (cases "p \<le> hi \<and> \<not> can_bind (word_of_nat p)")
    case True
    with "1.prems" have "try_ports can_bind (Suc p) hi = Some q"
      by (simp add: try_ports.simps [of can_bind p hi])
    with "1.IH" True obtain k where
        "q = word_of_nat k" "Suc p \<le> k" "k \<le> hi" "can_bind (word_of_nat k)"
        "\<forall>j. Suc p \<le> j \<longrightarrow> j < k \<longrightarrow> \<not> can_bind (word_of_nat j)" by blast
    moreover have "\<not> can_bind (word_of_nat j)" if "p \<le> j" "j < k" for j
      using that True calculation(5) by (cases "j = p") auto
    ultimately show ?thesis by (intro exI [of _ k]) auto
  next
    case False
    with "1.prems" show ?thesis
      by (intro exI [of _ p]) (auto simp: try_ports.simps [of can_bind p hi] split: if_splits)
  qed
qed

lemma try_ports_None:
  "try_ports can_bind p hi = None \<Longrightarrow> p \<le> k \<Longrightarrow> k \<le> hi \<Longrightarrow> \<not> can_bind (word_of_nat k)"
proof (induction can_bind p hi rule: try_ports.induct)
  case (1 can_bind p hi)
  then have "p \<le> hi" by simp
  with "1.prems"(1) have no: "\<not> can_bind (word_of_nat p)" and rest: "try_ports can_bind (Suc p) hi = None"
    by (simp_all add: try_ports.simps [of can_bind p hi] split: if_splits)
  show ?case
  proof (cases "k = p")
    case True
    with no show ?thesis by simp
  next
    case False
    with "1.IH" [OF \<open>p \<le> hi\<close> no rest] "1.prems" show ?thesis by simp
  qed
qed

lemma new_session_id_skips:
  "\<forall>k. i \<le> k \<longrightarrow> k < j \<longrightarrow> reg_contains sv (hex8 (draws k)) \<Longrightarrow> i \<le> j \<Longrightarrow>
     new_session_id sv draws i = new_session_id sv draws j"
proof (induction "j - i" arbitrary: i)
  case 0
  then show ?case by simp
next
  case (Suc n)
  then have "reg_contains sv (hex8 (draws i))" by simp
  then have "new_session_id sv draws i = new_session_id sv draws (Suc i)"
    by (simp add: new_session_id.simps [of sv draws i])
  also have "\<dots> = new_session_id sv draws j"
    using Suc by (intro Suc.hyps(1)) auto
  finally show ?case .
qed

lemma new_session_id_found:
  assumes "\<not> reg_contains sv (hex8 (draws j))" and "i \<le> j"
    and "\<forall>k. i \<le> k \<longrightarrow> k < j \<longrightarrow> reg_contains sv (hex8 (draws k))"
  shows "new_session_id sv draws i = Some (hex8 (draws j))"
  using new_session_id_skips [OF assms(3,2)] assms(1)
  by (simp add: new_session_id.simps [of sv draws j])

lemma new_session_id_fresh:
  assumes "new_session_id sv draws i = Some sid"
  shows "length sid = 8 \<and> \<not> reg_contains sv sid"
proof (rule new_session_id.raw_induct [where P = "\<lambda>sv draws i sid. length sid = 8 \<and> \<not> reg_contains sv sid", OF _ assms])
  fix f sv draws i sid
  assume IH: "\<And>sv draws i sid. f sv draws i = Some sid \<Longrightarrow> length sid = 8 \<and> \<not> reg_contains sv sid"
    and eq: "(let sid = hex8 (draws i) in
        if \<not> reg_contains sv sid then Some sid else f sv draws (Suc i)) = Some sid"
  show "length sid = 8 \<and> \<not> reg_contains sv sid"
    using eq IH [of sv draws "Suc i" sid] by (auto simp: Let_def split: if_splits)
qed

text \<open>What a request's wrappers require, whether one of them names the protocol, and what is inside.\<close>

fun wrappers_ok :: "u16 \<Rightarrow> control_request \<Rightarrow> bool" where
  "wrappers_ok p (OnPort expected request) \<longleftrightarrow> expected = p \<and> wrappers_ok p request"
| "wrappers_ok p (OnProtocol version request) \<longleftrightarrow> version = VERSION \<and> wrappers_ok p request"
| "wrappers_ok p _ \<longleftrightarrow> True"

fun names_protocol :: "control_request \<Rightarrow> bool" where
  "names_protocol (OnPort expected request) \<longleftrightarrow> names_protocol request"
| "names_protocol (OnProtocol version request) \<longleftrightarrow> True"
| "names_protocol _ \<longleftrightarrow> False"

fun inner_request :: "control_request \<Rightarrow> control_request" where
  "inner_request (OnPort expected request) = inner_request request"
| "inner_request (OnProtocol version request) = inner_request request"
| "inner_request req = req"

definition admitted :: "u16 \<Rightarrow> control_request \<Rightarrow> bool" where
  "admitted p req \<longleftrightarrow>
     wrappers_ok p req \<and> (needs_protocol (inner_request req) \<longrightarrow> names_protocol req)"

lemma unwrap_request_ok:
  "wrappers_ok p req \<Longrightarrow>
     unwrap_request p checked req = Inr (checked \<or> names_protocol req, inner_request req)"
  by (induction req arbitrary: checked) auto

lemma unwrap_request_bad:
  "\<not> wrappers_ok p req \<Longrightarrow> \<exists>m. unwrap_request p checked req = Inl (ErrResponse m)"
  by (induction req arbitrary: checked) (auto simp: version_mismatch_def)

lemma inner_request_plain: "inner_request req \<noteq> OnPort e r" "inner_request req \<noteq> OnProtocol v r"
  by (induction req) auto

lemma execute_admitted:
  assumes "admitted p req"
  shows "execute_control hx n p env sv req =
    (case inner_request req of
       Create cols rows \<Rightarrow> do_create hx n p env sv cols rows
     | Attach sid \<Rightarrow> Some (do_attach hx p env sv sid)
     | Ls \<Rightarrow> Some (sv, LsResponse (reg_list (key_order env) sv))
     | Kill sid \<Rightarrow> Some (do_kill sv sid)
     | _ \<Rightarrow> None)"
  using assms unwrap_request_ok [of p req False]
  by (auto simp: admitted_def execute_control_def)

lemma do_create_keeps:
  assumes "server_ok sv" and "do_create hx n p env sv cols rows = Some (sv', resp)"
  shows "server_ok sv'"
proof -
  from assms(2) obtain sid where sid: "new_session_id sv (rng env) 0 = Some sid"
    by (auto simp: do_create_def split: option.splits)
  show ?thesis
  proof (cases "spawn_error env")
    case None
    let ?sh = "case shell_var env of Some s \<Rightarrow> s | None \<Rightarrow> ''/bin/sh''"
    let ?s = "new_session sid ?sh (max cols 1) (max rows 1) n (clock env) (fresh_key env)"
    obtain sv1 a where al: "alloc ?s sv = (sv1, a)" by force
    have "server_ok (reg_insert a sv1)"
      by (rule server_ok_spawn [OF assms(1) _ _ al])
        (use new_session_id_fresh [OF sid] in \<open>simp_all add: new_session_def\<close>)
    moreover have "sv' = reg_insert a sv1"
      using assms(2) sid None al
      by (auto simp: do_create_def spawn_session_eq Let_def split: option.splits)
    ultimately show ?thesis by simp
  next
    case (Some e)
    with assms sid show ?thesis by (simp add: do_create_def spawn_session_eq Let_def)
  qed
qed

lemma server_ok_psk:
  assumes "server_ok sv" and "store sv a = Some s"
  shows "server_ok (on_session a (\<lambda>_. s\<lparr>psk := k\<rparr>) sv)"
proof -
  have "on_session a (\<lambda>_. s\<lparr>psk := k\<rparr>) sv = on_session a (\<lambda>s. s\<lparr>psk := k\<rparr>) sv"
    using assms(2) by (simp add: on_session_def)
  with server_ok_on_session [OF assms(1)] show ?thesis by simp
qed

lemma do_attach_keeps:
  assumes "server_ok sv"
  shows "server_ok (fst (do_attach hx p env sv sid))"
  using assms server_ok_psk [OF assms]
  by (auto simp: do_attach_def rotate_psk_def split: option.splits bind_splits)

lemma do_kill_keeps: "server_ok sv \<Longrightarrow> server_ok (fst (do_kill sv sid))"
proof -
  have "ident (kill s) = ident s \<and> ended (kill s) = ended s" for s
    by (simp add: kill_def)
  then show "server_ok sv \<Longrightarrow> server_ok (fst (do_kill sv sid))"
    by (auto simp: do_kill_def intro!: server_ok_on_session split: option.splits)
qed

lemma execute_keeps:
  assumes "server_ok sv" and "execute_control hx n p env sv req = Some (sv', resp)"
  shows "server_ok sv'"
proof (cases "unwrap_request p False req")
  case (Inl r)
  with assms show ?thesis by (simp add: execute_control_def)
next
  case (Inr x)
  with assms do_create_keeps [OF assms(1)] do_attach_keeps [OF assms(1)] do_kill_keeps [OF assms(1)]
  show ?thesis
    by (auto simp: execute_control_def split: prod.splits if_splits control_request.splits)
      (metis fst_conv)+
qed

lemma do_create_eq:
  assumes "new_session_id sv (rng env) 0 = Some sid" and "spawn_error env = None"
  shows "do_create hx n p env sv cols rows =
    (let s = new_session sid (case shell_var env of Some sh \<Rightarrow> sh | None \<Rightarrow> ''/bin/sh'')
               (max cols 1) (max rows 1) n (clock env) (fresh_key env)
     in Some (sv\<lparr>store := (store sv)(next_addr sv \<mapsto> s), next_addr := Suc (next_addr sv),
                 registry := (registry sv)(sid \<mapsto> next_addr sv)\<rparr>,
              Bootstrap p sid (hx (fresh_key env))))"
  using assms
  by (simp add: do_create_def spawn_session_eq alloc_def reg_insert_def new_session_def
      current_psk_def Let_def)

text \<open>The session a request may change.\<close>

fun target :: "control_request \<Rightarrow> string option" where
  "target (OnPort e req) = target req"
| "target (OnProtocol v req) = target req"
| "target (Attach sid) = Some sid"
| "target (Kill sid) = Some sid"
| "target _ = None"

lemma target_inner: "target req = target (inner_request req)"
  by (induction req) auto

lemma attach_frame:
  assumes "server_ok sv" and "store sv a = Some s" and "ident s \<noteq> sid"
  shows "store (fst (do_attach hx p env sv sid)) a = Some s \<and> store (fst (do_kill sv sid)) a = Some s"
proof -
  have "b \<noteq> a" if "reg_get sv sid = Some b" for b
    using server_okD(2) [OF assms(1), of sid b] that assms(2,3) by (auto simp: reg_get_def)
  with assms(2) show ?thesis
    by (auto simp: do_attach_def do_kill_def split: option.splits bind_splits prod.splits)
qed

lemma create_frame:
  assumes "do_create hx n p env sv cols rows = Some (sv', resp)"
    and "server_ok sv" and "store sv a = Some s"
  shows "store sv' a = Some s"
proof -
  have "a < next_addr sv" using server_okD(1) [OF assms(2), of a] assms(3) by (cases "next_addr sv \<le> a") auto
  moreover obtain sid where "new_session_id sv (rng env) 0 = Some sid"
    using assms(1) by (auto simp: do_create_def split: option.splits)
  ultimately show ?thesis
    using assms(1,3) do_create_eq [of sv env sid hx n p cols rows]
    by (cases "spawn_error env") (auto simp: Let_def do_create_def spawn_session_eq)
qed

lemma new_session_id_iff:
  "new_session_id sv draws i = Some sid \<longleftrightarrow>
     (\<exists>j \<ge> i. sid = hex8 (draws j) \<and> \<not> reg_contains sv sid \<and>
            (\<forall>k. i \<le> k \<longrightarrow> k < j \<longrightarrow> reg_contains sv (hex8 (draws k))))" (is "?L = ?R")
proof
  assume ?L
  then show ?R
  proof (rule new_session_id.raw_induct [where P = "\<lambda>sv draws i sid. \<exists>j \<ge> i. sid = hex8 (draws j) \<and>
      \<not> reg_contains sv sid \<and> (\<forall>k. i \<le> k \<longrightarrow> k < j \<longrightarrow> reg_contains sv (hex8 (draws k)))", rotated])
    fix f sv draws i sid
    assume IH: "\<And>sv draws i sid. f sv draws i = Some sid \<Longrightarrow> \<exists>j \<ge> i. sid = hex8 (draws j) \<and>
        \<not> reg_contains sv sid \<and> (\<forall>k. i \<le> k \<longrightarrow> k < j \<longrightarrow> reg_contains sv (hex8 (draws k)))"
      and eq: "(let sid = hex8 (draws i) in
          if \<not> reg_contains sv sid then Some sid else f sv draws (Suc i)) = Some sid"
    show "\<exists>j \<ge> i. sid = hex8 (draws j) \<and> \<not> reg_contains sv sid \<and>
        (\<forall>k. i \<le> k \<longrightarrow> k < j \<longrightarrow> reg_contains sv (hex8 (draws k)))"
    proof (cases "reg_contains sv (hex8 (draws i))")
      case False
      with eq show ?thesis by (intro exI [of _ i]) (auto simp: Let_def)
    next
      case True
      with eq IH [of sv draws "Suc i" sid] obtain j where
          "Suc i \<le> j" "sid = hex8 (draws j)" "\<not> reg_contains sv sid"
          "\<forall>k. Suc i \<le> k \<longrightarrow> k < j \<longrightarrow> reg_contains sv (hex8 (draws k))" by (auto simp: Let_def)
      moreover have "reg_contains sv (hex8 (draws k))" if "i \<le> k" "k < j" for k
        using that True calculation(4) by (cases "k = i") auto
      ultimately show ?thesis by (intro exI [of _ j]) auto
    qed
  qed
next
  assume ?R
  then show ?L by (auto intro: new_session_id_found)
qed

lemma execute_rejected:
  assumes "\<not> admitted p req"
  shows "\<exists>m. execute_control hx n p env sv req = Some (sv, ErrResponse m)"
proof (cases "wrappers_ok p req")
  case True
  with assms unwrap_request_ok [OF True, of False] show ?thesis
    by (simp add: admitted_def execute_control_def version_mismatch_def)
next
  case False
  from unwrap_request_bad [OF False, of False] show ?thesis
    by (auto simp: execute_control_def)
qed
section \<open>Properties\<close>

text \<open>C13. No request that the daemon does not admit has any effect: a wrong port or protocol
  version in any wrapper, at any depth, or a create or attach request that names no protocol,
  is answered with an error and leaves the whole server as it was.\<close>

theorem rejected_request_changes_nothing:
  assumes "\<not> admitted p req"
  shows "\<exists>m. execute_control hx n p env sv req = Some (sv, ErrResponse m)"
  by (rule execute_rejected [OF assms])

theorem rejected_request_changes_nothing_witness:
  "\<exists>m. execute_control (\<lambda>_. []) 0 62000
      plain_env
      empty_server (OnProtocol VERSION (OnPort 62001 (Kill ''a''))) = Some (empty_server, ErrResponse m)"
  by (rule rejected_request_changes_nothing) (simp add: admitted_def)

text \<open>An admitted create request whose shell starts adds exactly one session, under an
  identifier no registered session has, with at least one column and row and the key it
  answers with; every session there was is untouched.\<close>

theorem create_adds_one_session:
  assumes "server_ok sv" and "admitted p req" and "inner_request req = Create cols rows"
    and "spawn_error env = None" and "\<not> reg_contains sv (hex8 (rng env j))"
  shows "\<exists>sid sv' s. execute_control hx n p env sv req = Some (sv', Bootstrap p sid (hx (psk s))) \<and>
      \<not> reg_contains sv sid \<and> registry sv' = (registry sv)(sid \<mapsto> next_addr sv) \<and>
      store sv' = (store sv)(next_addr sv \<mapsto> s) \<and> store sv (next_addr sv) = None \<and>
      ident s = sid \<and> psk s = fresh_key env \<and> \<not> is_ended s \<and> \<not> is_busy s \<and>
      opened_size s = (max cols 1, max rows 1)"
proof -
  from exists_least_iff [of "\<lambda>j. \<not> reg_contains sv (hex8 (rng env j))"] assms(5)
  obtain m where "\<not> reg_contains sv (hex8 (rng env m))" "\<forall>k < m. reg_contains sv (hex8 (rng env k))"
    by blast
  then obtain sid where sid: "new_session_id sv (rng env) 0 = Some sid"
    using new_session_id_found [of sv "rng env" m 0] by blast
  show ?thesis
    using new_session_id_fresh [OF sid] server_okD(1) [OF assms(1), of "next_addr sv"]
    unfolding execute_admitted [OF assms(2)] assms(3) control_request.case
      do_create_eq [OF sid assms(4)] Let_def
    by (intro exI conjI) (auto simp: new_session_def is_ended_def is_busy_def)
qed

theorem create_adds_one_session_witness:
  "\<exists>sid sv' s. execute_control (\<lambda>_. []) 0 62000
      (plain_env\<lparr>rng := (\<lambda>_. 7), fresh_key := [9]\<rparr>)
      empty_server (OnProtocol VERSION (Create 0 24)) = Some (sv', Bootstrap 62000 sid []) \<and>
      store sv' 0 = Some s \<and> opened_size s = (1, 24)"
proof -
  let ?env = "(plain_env\<lparr>rng := (\<lambda>_. 7), fresh_key := [9]\<rparr>)"
  have "\<not> reg_contains empty_server (hex8 (rng ?env 0))"
    by (simp add: reg_contains_def empty_server_def)
  from create_adds_one_session [OF server_ok_empty _ _ _ this, of 62000 "OnProtocol VERSION (Create 0 24)" 0 24 "\<lambda>_. []" 0]
  show ?thesis by (auto simp: admitted_def empty_server_def)
qed

text \<open>An admitted attach request answers with a key only for a registered session that is
  idle, and that key becomes the session's; for a busy or unknown one it is an error and
  nothing changes. In particular a running connection's key is never rotated.\<close>

theorem attach_rotates_idle_only:
  assumes "server_ok sv" and "admitted p req" and "inner_request req = Attach sid"
  shows "\<exists>sv' resp. execute_control hx n p env sv req = Some (sv', resp) \<and>
    (case reg_get sv sid of
       None \<Rightarrow> sv' = sv \<and> resp = ErrResponse ''no such session''
     | Some a \<Rightarrow>
         \<exists>s. store sv a = Some s \<and>
           (if connected s then sv' = sv \<and> resp = ErrResponse ''session busy (already attached)''
            else resp = Bootstrap p sid (hx (fresh_key env)) \<and>
                 sv' = sv\<lparr>store := (store sv)(a \<mapsto> s\<lparr>psk := fresh_key env\<rparr>)\<rparr>))"
proof (cases "reg_get sv sid")
  case None
  with assms(2,3) show ?thesis by (simp add: execute_admitted do_attach_def)
next
  case (Some a)
  with server_okD(2) [OF assms(1), of sid a] obtain s where
      "store sv a = Some s" "ident s = sid" "\<not> ended s" by (auto simp: reg_get_def)
  with Some assms(2,3) show ?thesis
    by (simp add: execute_admitted do_attach_def is_ended_def is_busy_def rotate_psk_def on_session_def)
qed

theorem attach_rotates_idle_only_witness:
  "\<exists>sv' resp. execute_control (\<lambda>_. []) 0 1
      (plain_env\<lparr>fresh_key := [5]\<rparr>)
      (reg_insert 0 (fst (alloc (new_session ''a'' [] 80 24 0 0 []) empty_server)))
      (OnProtocol VERSION (Attach ''a'')) = Some (sv', resp) \<and> map_option psk (store sv' 0) = Some [5]"
proof -
  let ?sv = "reg_insert 0 (fst (alloc (new_session ''a'' [] 80 24 0 0 []) empty_server))"
  let ?env = "(plain_env\<lparr>fresh_key := [5]\<rparr>)"
  have ok: "server_ok ?sv"
    by (rule server_ok_spawn [OF server_ok_empty])
      (simp_all add: reg_contains_def empty_server_def new_session_def alloc_def)
  have "admitted 1 (OnProtocol VERSION (Attach ''a''))" by (simp add: admitted_def)
  from attach_rotates_idle_only [OF ok this, of "''a''" "\<lambda>_. []" 0 ?env] show ?thesis
    by (auto simp: registry_defs empty_server_def new_session_def)
qed

text \<open>Requests are isolated: whatever a control request does, a session other than the one
  it names, registered or not, keeps its whole state.\<close>

theorem request_touches_target_only:
  assumes "server_ok sv" and "execute_control hx n p env sv req = Some (sv', resp)"
    and "store sv a = Some s" and "target req \<noteq> Some (ident s)"
  shows "store sv' a = Some s"
proof (cases "admitted p req")
  case False
  from execute_rejected [OF False, of hx n env sv] assms(2,3) show ?thesis by auto
next
  case True
  note ex = execute_admitted [OF True, of hx n env sv]
  show ?thesis
  proof (cases "inner_request req")
    case (Create c r)
    with ex assms(2) have "do_create hx n p env sv c r = Some (sv', resp)" by simp
    from create_frame [OF this assms(1,3)] show ?thesis .
  next
    case (Attach sid)
    with assms(4) target_inner [of req] have "ident s \<noteq> sid" by auto
    from attach_frame [OF assms(1,3) this, of hx p env] Attach ex assms(2) show ?thesis
      by (cases "do_attach hx p env sv sid") simp
  next
    case (Kill sid)
    with assms(4) target_inner [of req] have "ident s \<noteq> sid" by auto
    from attach_frame [OF assms(1,3) this, of hx p env] Kill ex assms(2) show ?thesis
      by (cases "do_kill sv sid") simp
  qed (use ex assms in \<open>auto simp: inner_request_plain\<close>)
qed

theorem request_touches_target_only_witness:
  "store (fst (do_kill (reg_insert 0 (fst (alloc (new_session ''a'' [] 80 24 0 0 []) empty_server))) ''b'')) 0
     = Some (new_session ''a'' [] 80 24 0 0 [])"
proof -
  let ?sv = "reg_insert 0 (fst (alloc (new_session ''a'' [] 80 24 0 0 []) empty_server))"
  let ?env = "(plain_env\<lparr>fresh_key := [5]\<rparr>)"
  have ok: "server_ok ?sv"
    by (rule server_ok_spawn [OF server_ok_empty])
      (simp_all add: reg_contains_def empty_server_def new_session_def alloc_def)
  have ex: "execute_control (\<lambda>_. []) 0 1 ?env ?sv (Kill ''b'') = Some (do_kill ?sv ''b'')"
    by (simp add: execute_control_def)
  obtain sv' resp where k: "do_kill ?sv ''b'' = (sv', resp)" by force
  from request_touches_target_only [OF ok ex [unfolded k], of 0 "new_session ''a'' [] 80 24 0 0 []"]
  have "store sv' 0 = Some (new_session ''a'' [] 80 24 0 0 [])"
    by (simp add: registry_defs empty_server_def new_session_def)
  then show ?thesis unfolding k fst_conv .
qed

lemma word_of_nat_port:
  assumes "unat lo \<le> k" and "k \<le> unat (hi :: u16)"
  shows "unat (word_of_nat k :: u16) = k"
proof -
  have "unat hi < 65536" using unsigned_less [of hi, where 'a = nat] by simp
  with assms show ?thesis by (simp add: unat_of_nat)
qed

text \<open>The port the daemon listens on: the configured one or none at all, and without one the
  least port of a valid range that can be bound, failing only if none of them can.\<close>

theorem bind_tcp_port:
  "case bind_tcp can_bind cfg of
     Inr q \<Rightarrow> can_bind q \<and>
       (case port cfg of
          Some p \<Rightarrow> q = p
        | None \<Rightarrow> fst (port_range cfg) \<noteq> 0 \<and> fst (port_range cfg) \<le> q \<and> q \<le> snd (port_range cfg) \<and>
            (\<forall>p. fst (port_range cfg) \<le> p \<longrightarrow> p < q \<longrightarrow> \<not> can_bind p))
   | Inl e \<Rightarrow>
       (case port cfg of
          Some p \<Rightarrow> \<not> can_bind p
        | None \<Rightarrow> fst (port_range cfg) = 0 \<or>
            (\<forall>p. fst (port_range cfg) \<le> p \<longrightarrow> p \<le> snd (port_range cfg) \<longrightarrow> \<not> can_bind p))"
proof (cases "port cfg")
  case (Some p)
  then show ?thesis by (simp add: bind_tcp_def)
next
  case None
  obtain lo hi where lohi: "port_range cfg = (lo, hi)" by force
  show ?thesis
  proof (cases "lo \<noteq> 0 \<and> lo \<le> hi")
    case False
    with None lohi show ?thesis by (auto simp: bind_tcp_def bind_tcp_in_range_def)
  next
    case True
    show ?thesis
    proof (cases "try_ports can_bind (unat lo) (unat hi)")
      case no: None
      have "\<not> can_bind p" if "lo \<le> p" "p \<le> hi" for p
        using try_ports_None [OF no, of "unat p"] that by (simp add: word_le_nat_alt)
      with True no None lohi show ?thesis by (simp add: bind_tcp_def bind_tcp_in_range_def)
    next
      case (Some q)
      from try_ports_Some [OF this] obtain k where
          k: "q = word_of_nat k" "unat lo \<le> k" "k \<le> unat hi" "can_bind (word_of_nat k)"
          "\<forall>j. unat lo \<le> j \<longrightarrow> j < k \<longrightarrow> \<not> can_bind (word_of_nat j)" by blast
      with word_of_nat_port [of lo k hi] have uq: "unat q = k" by simp
      have "\<not> can_bind p" if "lo \<le> p" "p < q" for p
        using k(5) that uq by (metis of_nat_unat ucast_id word_le_nat_alt word_less_nat_alt)
      with True Some None lohi k(1-4) uq show ?thesis
        by (simp add: bind_tcp_def bind_tcp_in_range_def word_le_nat_alt)
    qed
  qed
qed

theorem bind_tcp_port_witness:
  "bind_tcp (\<lambda>p. p = 60002) (default_config\<lparr>port_range := (60000, 60005)\<rparr>) = Inr 60002"
proof -
  let ?cfg = "default_config\<lparr>port_range := (60000, 60005)\<rparr>"
  have none: "port ?cfg = None" by (simp add: default_config_def)
  show ?thesis
    using bind_tcp_port [of ?cfg "\<lambda>p. p = 60002"] none
    by (cases "bind_tcp (\<lambda>p. p = 60002) ?cfg") (auto dest: spec [of _ 60002])
qed

end
