(* ===== verification/Connection.thy ===== *)
theory Connection
  imports Daemon
begin

text \<open>
  The TCP connections of server/daemon.rs: \<open>handle_tcp\<close> up to the point where the
  connection is active, and the loops of its reader and writer. Between two awaits the
  rest of the daemon may run, so each loop iteration is given the session as it stands
  at each of its accesses.
\<close>

section \<open>Handshake and authentication\<close>

record accepted =
  at_addr :: nat
  at_link :: link
  at_opener :: opener
  at_rest :: bytes
  at_offset :: u64

text \<open>Replying with an error status and returning the error, unless the reply itself fails.\<close>

definition refuse :: "sink \<Rightarrow> u8 \<Rightarrow> error \<Rightarrow> sink \<times> (error + 'a)" where
  "refuse w status e =
     (case server_send_err w status of
        (w', Inl e') \<Rightarrow> (w', Inl e')
      | (w', Inr u) \<Rightarrow> (w', Inl e))"

definition live_session :: "server \<Rightarrow> string \<Rightarrow> (nat \<times> session) option" where
  "live_session sv sid =
     (case reg_get sv sid of
        None \<Rightarrow> None
      | Some a \<Rightarrow>
          (case store sv a of
             None \<Rightarrow> None
           | Some s \<Rightarrow> if is_ended s then None else Some (a, s)))"

definition tcp_open ::
  "(bytes \<Rightarrow> cipher) \<Rightarrow> kdf \<Rightarrow> server \<Rightarrow> bytes \<Rightarrow> sink \<Rightarrow> bytes \<Rightarrow> sink \<times> (error + accepted)" where
  "tcp_open mk hkdf sv r w server_nonce =
     (case server_recv r of
        (r1, Inl e) \<Rightarrow>
          if is_rejection e then refuse w STATUS_VERSION_MISMATCH e else (w, Inl e)
      | (r1, Inr hello) \<Rightarrow>
          (case live_session sv (hello_session_id hello) of
             None \<Rightarrow> refuse w STATUS_NO_SESSION (Failure (''no such session '' @ hello_session_id hello))
           | Some (a, s) \<Rightarrow>
               if hello_offset hello > current_total s
               then refuse w STATUS_BAD_OFFSET (Failure ''resume offset exceeds session output'')
               else
                 (case server_send_ok w server_nonce (current_total s) of
                    (w1, Inl e) \<Rightarrow> (w1, Inl e)
                  | (w1, Inr u) \<Rightarrow>
                      let k = derive_key hkdf (current_psk s) (hello_nonce hello) server_nonce in
                      (w1, Inr \<lparr>at_addr = a,
                                at_link = (w1, new_sealer mk k DIR_SERVER_TO_CLIENT),
                                at_opener = new_opener mk k DIR_CLIENT_TO_SERVER,
                                at_rest = r1, at_offset = hello_offset hello\<rparr>))))"

definition tcp_auth :: "accepted \<Rightarrow> error + accepted" where
  "tcp_auth c =
     (case read_frame (at_rest c) (at_opener c) of
        ((r1, op1), Inr Hello) \<Rightarrow>
          (case write_frame (fst (at_link c)) (snd (at_link c)) Hello of
             (l, Inl e) \<Rightarrow> Inl e
           | (l, Inr u) \<Rightarrow> Inr (c\<lparr>at_link := l, at_opener := op1, at_rest := r1\<rparr>))
      | _ \<Rightarrow> Inl (Failure ''auth failed''))"

text \<open>
  The connection becomes active: the epoch it was given. At its end it leaves with it.
\<close>

definition tcp_activate :: "nat \<Rightarrow> server \<Rightarrow> server \<times> u64" where
  "tcp_activate a sv =
     (on_session a (\<lambda>s. fst (become_active s)) sv,
      case store sv a of None \<Rightarrow> 0 | Some s \<Rightarrow> snd (become_active s))"

definition tcp_leave :: "nat \<Rightarrow> u64 \<Rightarrow> server \<Rightarrow> server" where
  "tcp_leave a epoch sv = on_session a (\<lambda>s. leave s epoch) sv"

text \<open>The whole opening of a connection when nothing else runs in between.\<close>

definition tcp_connect ::
  "(bytes \<Rightarrow> cipher) \<Rightarrow> kdf \<Rightarrow> server \<Rightarrow> bytes \<Rightarrow> sink \<Rightarrow> bytes \<Rightarrow> server \<times> (error + (accepted \<times> u64))" where
  "tcp_connect mk hkdf sv r w server_nonce =
     (case tcp_open mk hkdf sv r w server_nonce of
        (w1, Inl e) \<Rightarrow> (sv, Inl e)
      | (w1, Inr c) \<Rightarrow>
          (case tcp_auth c of
             Inl e \<Rightarrow> (sv, Inl e)
           | Inr c1 \<Rightarrow> (case tcp_activate (at_addr c1) sv of (sv', epoch) \<Rightarrow> (sv', Inr (c1, epoch)))))"

section \<open>The reader\<close>

text \<open>One iteration: whether the idle timeout fires first, and whether the writer still takes pongs.\<close>

record serve_turn =
  idle :: bool
  pong_taken :: bool

fun server_reader :: "bytes \<Rightarrow> opener \<Rightarrow> session \<Rightarrow> serve_turn list \<Rightarrow> session \<times> bool" where
  "server_reader r op s [] = (s, False)"
| "server_reader r op s (t # ts) =
     (if idle t then (s, True)
      else
        (case read_frame r op of
           ((r', op'), Inl e) \<Rightarrow> (s, True)
         | ((r', op'), Inr f) \<Rightarrow>
             (case f of
                Data b \<Rightarrow> server_reader r' op' (send_input s b) ts
              | Resize c rw \<Rightarrow> server_reader r' op' (resize s c rw) ts
              | Ping \<Rightarrow> if pong_taken t then server_reader r' op' s ts else (s, True)
              | _ \<Rightarrow> server_reader r' op' s ts)))"

section \<open>The writer\<close>

datatype wake = DataReady | PongAsked bool | WriterTick

text \<open>
  The session at the three accesses of one iteration (the epoch check, the ring read, the
  ended check) and what ends the wait, if it comes to that.
\<close>

record writer_obs =
  seen_epoch :: session
  seen_ring :: session
  seen_ended :: session
  woken :: wake

datatype writer_stop = Superseded | PeerGone | SessionOver

text \<open>
  The loop, for any way of putting a frame: on the wire that is \<open>put_frame\<close>; in the
  proofs it also records the frames in a list. The result is the cursor and, if the loop
  stopped, why.
\<close>

fun server_writer ::
  "('l \<Rightarrow> frame \<Rightarrow> 'l \<times> bool) \<Rightarrow> 'l \<Rightarrow> u64 \<Rightarrow> u64 \<Rightarrow> writer_obs list \<Rightarrow> 'l \<times> u64 \<times> writer_stop option" where
  "server_writer put l cursor epoch [] = (l, cursor, None)"
| "server_writer put l cursor epoch (ob # obs) =
     (if \<not> is_current (seen_epoch ob) epoch then (l, cursor, Some Superseded)
      else
        (case session_read_from (seen_ring ob) cursor of
           (offset, data) \<Rightarrow>
             if data \<noteq> [] \<or> offset > cursor then
               (let cursor' = offset + word_of_nat (length data) in
                case put l (Output offset data) of
                  (l', False) \<Rightarrow> (l', cursor', Some PeerGone)
                | (l', True) \<Rightarrow> server_writer put l' cursor' epoch obs)
             else if is_ended (seen_ended ob) then (fst (put l Ended), cursor, Some SessionOver)
             else
               (case woken ob of
                  DataReady \<Rightarrow> server_writer put l cursor epoch obs
                | PongAsked asked \<Rightarrow>
                    if \<not> asked then (l, cursor, Some PeerGone)
                    else
                      (case put l Pong of
                         (l', False) \<Rightarrow> (l', cursor, Some PeerGone)
                       | (l', True) \<Rightarrow> server_writer put l' cursor epoch obs)
                | WriterTick \<Rightarrow>
                    (case put l Ping of
                       (l', False) \<Rightarrow> (l', cursor, Some PeerGone)
                     | (l', True) \<Rightarrow> server_writer put l' cursor epoch obs))))"

text \<open>
  The observations of one connection while the history grows to \<open>h\<close>: each ring that is
  read represents a part of \<open>h\<close> that has at least what the cursor has seen.
\<close>

fun observed :: "bytes \<Rightarrow> bytes \<Rightarrow> writer_obs list \<Rightarrow> bool" where
  "observed h0 h [] \<longleftrightarrow> prefix h0 h"
| "observed h0 h (ob # obs) \<longleftrightarrow>
     (\<exists>h1. prefix h0 h1 \<and> session_rep (seen_ring ob) h1 \<and> observed h1 h obs)"

lemma observed_prefix: "observed h0 h obs \<Longrightarrow> prefix h0 h"
  by (induction obs arbitrary: h0) (auto intro: prefix_order.trans)

lemma slices_prefix: "slices h c fs e \<Longrightarrow> prefix h h' \<Longrightarrow> slices h' c fs e"
  by (auto simp: prefix_def slices_append_history)

lemma server_writer_slices:
  "observed h0 h obs \<Longrightarrow> unat cursor \<le> length h0 \<Longrightarrow>
     server_writer log_frame fs cursor epoch obs = (fs', cursor', stop) \<Longrightarrow>
     \<exists>gs. fs' = fs @ gs \<and> slices h (unat cursor) (outputs gs) (unat cursor')"
proof (induction obs arbitrary: h0 fs cursor)
  case Nil
  then show ?case by (auto intro!: exI [of _ "[]"])
next
  case (Cons ob obs)
  from Cons.prems(1) obtain h1 where
      h1: "prefix h0 h1" "session_rep (seen_ring ob) h1" "observed h1 h obs" by auto
  have c1: "unat cursor \<le> length h1"
    using Cons.prems(2) prefix_length_le [OF h1(1)] by simp
  have stay: "\<exists>gs. fs' = fs @ gs \<and> slices h (unat cursor) (outputs gs) (unat cursor')"
    if "server_writer log_frame (fs @ xs) cursor epoch obs = (fs', cursor', stop)" and "outputs xs = []"
    for xs
  proof -
    from Cons.IH [OF h1(3) c1 that(1)] obtain gs where
        "fs' = (fs @ xs) @ gs" "slices h (unat cursor) (outputs gs) (unat cursor')" by blast
    with that(2) have "fs' = fs @ (xs @ gs) \<and> slices h (unat cursor) (outputs (xs @ gs)) (unat cursor')"
      by simp
    then show ?thesis by blast
  qed
  obtain off d where rd: "session_read_from (seen_ring ob) cursor = (off, d)" by force
  note sl = session_log.read_slice [OF h1(2) c1 rd]
  note ex = session_log.cursor_exact [OF h1(2) c1 rd]
  show ?case
  proof (cases "is_current (seen_epoch ob) epoch")
    case False
    with Cons.prems(3) show ?thesis by (auto intro!: exI [of _ "[]"])
  next
    case cur: True
    show ?thesis
    proof (cases "d \<noteq> [] \<or> off > cursor")
      case True
      let ?c = "off + word_of_nat (length d)"
      from Cons.prems(3) cur rd True
      have rest: "server_writer log_frame (fs @ [Output off d]) ?c epoch obs = (fs', cursor', stop)"
        by (simp add: Let_def log_frame_fold)
      have "unat ?c \<le> length h1" using sl ex by simp
      from Cons.IH [OF h1(3) this rest] obtain gs where
          gs: "fs' = (fs @ [Output off d]) @ gs" "slices h (unat ?c) (outputs gs) (unat cursor')"
        by blast
      have "slices h (unat cursor) [(off, d)] (unat ?c)"
        unfolding ex by (rule slices_prefix [OF conjunct1 [OF sl] observed_prefix [OF h1(3)]])
      with gs show ?thesis
        by (auto simp: slices_append [of _ _ "[(off, d)]", simplified] intro!: exI [of _ "Output off d # gs"])
    next
      case False
      with Cons.prems(3) cur rd stay [of "[]"] stay [of "[Pong]"] stay [of "[Ping]"] show ?thesis
        by (auto simp: log_frame_fold split: wake.splits if_splits intro: exI [of _ "[]"] exI [of _ "[Ended]"])
    qed
  qed
qed

text \<open>Every frame the writer sends has what every chunk it may read has.\<close>

lemma server_writer_all:
  assumes "P Ended" and "P Pong" and "P Ping"
  shows "\<forall>ob \<in> set obs. \<forall>c off d. session_read_from (seen_ring ob) c = (off, d) \<longrightarrow> P (Output off d) \<Longrightarrow>
    list_all P fs \<Longrightarrow> server_writer log_frame fs cursor epoch obs = (fs', cursor', stop) \<Longrightarrow> list_all P fs'"
proof (induction obs arbitrary: fs cursor)
  case (Cons ob obs)
  obtain off d where rd: "session_read_from (seen_ring ob) cursor = (off, d)" by force
  then have "P (Output off d)" using Cons.prems(1) by auto
  have go: "list_all P fs'"
    if "server_writer log_frame (fs @ xs) c epoch obs = (fs', cursor', stop)" and "list_all P xs" for xs c
    using Cons.IH [OF _ _ that(1)] Cons.prems(1,2) that(2) by simp
  from Cons.prems(2,3) rd \<open>P (Output off d)\<close> assms
    go [of "[]" cursor] go [of "[Output off d]"] go [of "[Pong]" cursor] go [of "[Ping]" cursor]
  show ?case
    by (auto simp: log_frame_fold Let_def split: if_splits wake.splits)
qed simp

text \<open>A frame that the peer's decoder accepts and that fits a record with its tag.\<close>

definition sendable :: "frame \<Rightarrow> bool" where
  "sendable f \<longleftrightarrow> well_formed f \<and> length (encode f) + 16 \<le> unat MAX_RECORD"

lemma read_sendable:
  assumes "session_rep s h" and "session_read_from s c = (off, d)"
  shows "sendable (Output off d)"
proof (cases "unat c \<le> length h")
  case True
  from session_log.read_slice [OF assms(1) True assms(2)] session_log.rep_bound [OF assms(1)]
  show ?thesis by (simp add: sendable_def MAX_RECORD_def MAX_OUTPUT_BYTES_def)
next
  case False
  then have "c \<ge> ring_total (ring s)"
    using ring_rep_total [of "ring s" h] assms(1) by (simp add: session_rep_def word_le_nat_alt)
  with assms(2) have "d = []" by (auto simp: session_read_from_def ring_read_from_def Let_def)
  with unsigned_less [of off, where 'a = nat] show ?thesis
    by (simp add: sendable_def MAX_RECORD_def)
qed

lemma server_frames_sendable:
  assumes "\<forall>ob \<in> set obs. \<exists>h. session_rep (seen_ring ob) h"
    and "server_writer log_frame [] cursor epoch obs = (fs, cursor', stop)"
  shows "list_all sendable fs"
  by (rule server_writer_all [OF _ _ _ _ _ assms(2)])
    (use assms(1) read_sendable in \<open>auto simp: sendable_def MAX_RECORD_def\<close>)

section \<open>Properties\<close>

text \<open>What the reader does with one frame.\<close>

fun on_frame :: "frame \<Rightarrow> session \<Rightarrow> session" where
  "on_frame (Data b) s = send_input s b"
| "on_frame (Resize c r) s = resize s c r"
| "on_frame _ s = s"

fun pty_msgs :: "frame list \<Rightarrow> pty_msg list" where
  "pty_msgs [] = []"
| "pty_msgs (Data b # fs) = Input b # pty_msgs fs"
| "pty_msgs (Resize c r # fs) = ResizeTo c r # pty_msgs fs"
| "pty_msgs (_ # fs) = pty_msgs fs"

definition taking_turn :: serve_turn where
  "taking_turn = \<lparr>idle = False, pong_taken = True\<rparr>"

lemma server_reader_run:
  "in_sync sl op \<Longrightarrow> list_all well_formed fs \<Longrightarrow> traverse frame_wire sl fs = (sl', Inr cs) \<Longrightarrow>
     server_reader (concat cs) op s (replicate (length fs) taking_turn) = (fold on_frame fs s, False)"
proof (induction fs arbitrary: sl op cs s)
  case Nil
  then show ?case by simp
next
  case (Cons f fs)
  from Cons.prems(3) obtain s1 c cs' where
      1: "frame_wire sl f = (s1, Inr c)" and 2: "traverse frame_wire s1 fs = (sl', Inr cs')"
    and cs: "cs = c # cs'"
    by (auto split: prod.splits sum.splits)
  from Cons.prems(2) have ok: "well_formed f" "list_all well_formed fs" by auto
  from frame_stream.put_get [OF Cons.prems(1) ok(1) 1] obtain op1 where
      "in_sync s1 op1" "read_frame (c @ concat cs') op = ((concat cs', op1), Inr f)" by blast
  with Cons.IH [OF _ ok(2) 2] cs show ?case
    by (cases f) (simp_all add: taking_turn_def)
qed

lemma fold_on_frame_pty:
  "pty_open s \<Longrightarrow> to_pty (fold on_frame fs s) = to_pty s @ pty_msgs fs \<and> pty_open (fold on_frame fs s)"
proof (induction fs arbitrary: s)
  case (Cons f fs)
  have "pty_open (on_frame f s)" and "to_pty (on_frame f s) = to_pty s @ pty_msgs [f]"
    using Cons.prems by (cases f; simp add: session_defs)+
  with Cons.IH [of "on_frame f s"] show ?case by (cases f) simp_all
qed simp

text \<open>The server's reader hands the shell exactly what the client sent: a run of frames
  that arrives whole adds its inputs and resizes to the PTY's queue, in order, each once.\<close>

theorem reader_forwards_in_order:
  assumes "in_sync sl op" and "list_all well_formed fs" and "traverse frame_wire sl fs = (sl', Inr cs)"
    and "pty_open s"
  shows "\<exists>s'. server_reader (concat cs) op s (replicate (length fs) taking_turn) = (s', False) \<and>
              to_pty s' = to_pty s @ pty_msgs fs \<and> ring s' = ring s \<and> ended s' = ended s"
proof -
  have "ring (fold on_frame fs s) = ring s \<and> ended (fold on_frame fs s) = ended s" for s
  proof (induction fs arbitrary: s)
    case (Cons f fs)
    then show ?case by (cases f) simp_all
  qed simp
  with server_reader_run [OF assms(1-3)] fold_on_frame_pty [OF assms(4)] show ?thesis by blast
qed

theorem reader_forwards_in_order_witness:
  "\<exists>cs s'. server_reader (concat cs) (new_opener (\<lambda>_. tag_cipher) [] 0) (new_session [] [] 80 24 0 0 [])
      [taking_turn, taking_turn] = (s', False) \<and> to_pty s' = [Input [104], ResizeTo 90 30]"
proof -
  let ?fs = "[Data [104], Resize 90 30]"
  have "\<exists>s' cs. traverse frame_wire (new_sealer (\<lambda>_. tag_cipher) [] 0) ?fs = (s', Inr cs)"
    by (simp add: frame_wire_def write_frame_reliable [OF reliable_open_sink(1)]
        seal_def new_sealer_def tag_cipher_def checked_add_def MAX_RECORD_def)
  then obtain s' cs where
      wire: "traverse frame_wire (new_sealer (\<lambda>_. tag_cipher) [] 0) ?fs = (s', Inr cs)" by blast
  have sync: "in_sync (new_sealer (\<lambda>_. tag_cipher) [] 0) (new_opener (\<lambda>_. tag_cipher) [] 0)"
    by (rule new_ends_in_sync) (rule tag_cipher_ok)
  have "list_all well_formed ?fs" "pty_open (new_session [] [] 80 24 0 0 [])"
    by (simp_all add: new_session_def)
  from reader_forwards_in_order [OF sync this(1) wire this(2)] obtain s2 where
      "server_reader (concat cs) (new_opener (\<lambda>_. tag_cipher) [] 0) (new_session [] [] 80 24 0 0 [])
         (replicate (length ?fs) taking_turn) = (s2, False)"
      "to_pty s2 = [Input [104], ResizeTo 90 30]"
    by (auto simp: new_session_def simp del: server_reader.simps)
  then show ?thesis
    by (auto simp: numeral_2_eq_2 simp del: server_reader.simps)
qed

text \<open>What the server's writer sends on one connection, whatever interrupts it and however
  the output grows meanwhile, is a run of the shell's output: each frame is a slice of it, no
  two overlap, they come in order from the client's offset, and the cursor is where they end.\<close>

theorem writer_sends_slices:
  assumes "observed h0 h obs" and "unat cursor \<le> length h0"
    and "server_writer log_frame fs cursor epoch obs = (fs', cursor', stop)"
  shows "\<exists>gs. fs' = fs @ gs \<and> slices h (unat cursor) (outputs gs) (unat cursor')"
  by (rule server_writer_slices [OF assms])

theorem writer_sends_slices_witness:
  "\<exists>gs c'. slices [1, 2, 3] 1 (outputs gs) c' \<and>
     gs = fst (server_writer log_frame [] 1 0
       [\<lparr>seen_epoch = new_session [] [] 80 24 8 0 [], seen_ring = pty_output (new_session [] [] 80 24 8 0 []) [1, 2, 3],
         seen_ended = new_session [] [] 80 24 8 0 [], woken = DataReady\<rparr>])"
proof -
  let ?s = "new_session [] [] 80 24 8 0 []"
  let ?obs = "[\<lparr>seen_epoch = ?s, seen_ring = pty_output ?s [1, 2, 3], seen_ended = ?s, woken = DataReady\<rparr>]"
  have "session_rep (pty_output ?s [1, 2, 3]) ([] @ [1, 2, 3])"
    by (rule session_log.rep_append [OF session_rep_new]) simp
  then have ob: "observed [1, 2, 3] [1, 2, 3] ?obs" by auto
  obtain fs c stop where "server_writer log_frame [] 1 0 ?obs = (fs, c, stop)"
    by (cases "server_writer log_frame [] 1 0 ?obs") blast
  from writer_sends_slices [OF ob _ this] this show ?thesis by auto
qed

section \<open>Opening a connection\<close>

lemma tcp_open_InrD:
  assumes "tcp_open mk hkdf sv r w sn = (w', Inr c)"
  shows "\<exists>s hello. server_recv r = (at_rest c, Inr hello) \<and>
           live_session sv (hello_session_id hello) = Some (at_addr c, s) \<and>
           hello_offset hello \<le> current_total s \<and> at_offset c = hello_offset hello"
  using assms
  by (auto simp: tcp_open_def refuse_def Let_def not_less split: prod.splits sum.splits if_splits option.splits)

lemma tcp_auth_InrD: "tcp_auth c = Inr c' \<Longrightarrow> at_addr c' = at_addr c \<and> at_offset c' = at_offset c"
  by (auto simp: tcp_auth_def split: prod.splits sum.splits frame.splits)

lemma live_session_SomeD:
  "live_session sv sid = Some (a, s) \<Longrightarrow> registry sv sid = Some a \<and> store sv a = Some s \<and> \<not> ended s"
  by (auto simp: live_session_def reg_get_def is_ended_def split: option.splits if_splits)

lemma tcp_connect_outcome:
  "case tcp_connect mk hkdf sv r w sn of
     (sv', Inl e) \<Rightarrow> sv' = sv
   | (sv', Inr (c, epoch)) \<Rightarrow>
       \<exists>hello s s'. snd (server_recv r) = Inr hello \<and>
         registry sv (hello_session_id hello) = Some (at_addr c) \<and>
         store sv (at_addr c) = Some s \<and> \<not> ended s \<and>
         at_offset c = hello_offset hello \<and> at_offset c \<le> current_total s \<and>
         become_active s = (s', epoch) \<and> is_current s' epoch \<and> is_busy s' \<and>
         sv' = sv\<lparr>store := (store sv)(at_addr c \<mapsto> s')\<rparr>"
proof (cases "tcp_open mk hkdf sv r w sn")
  case (Pair w1 res)
  show ?thesis
  proof (cases res)
    case (Inl e)
    with Pair show ?thesis by (simp add: tcp_connect_def)
  next
    case (Inr c)
    show ?thesis
    proof (cases "tcp_auth c")
      case (Inl e)
      with Pair Inr show ?thesis by (simp add: tcp_connect_def)
    next
      case auth: (Inr c1)
      note same = tcp_auth_InrD [OF auth]
      from tcp_open_InrD [OF Pair [unfolded Inr]] obtain s hello where
          h: "snd (server_recv r) = Inr hello" "hello_offset hello \<le> current_total s" "at_offset c = hello_offset hello"
        and live: "live_session sv (hello_session_id hello) = Some (at_addr c, s)" by auto
      obtain s' e where act: "become_active s = (s', e)" by force
      note live = live_session_SomeD [OF live]
      from act live same have "tcp_activate (at_addr c1) sv = (sv\<lparr>store := (store sv)(at_addr c1 \<mapsto> s')\<rparr>, e)"
        by (simp add: tcp_activate_def on_session_def)
      moreover have "is_current s' e \<and> is_busy s'"
        using session_takeover.activate_current [OF act] session_takeover.activate_busy [OF act] live by simp
      ultimately show ?thesis
        using Pair Inr auth h live same act by (simp add: tcp_connect_def)
    qed
  qed
qed

text \<open>C17. A connection takes a session over only when everything has been checked: if anything
  fails, from the version to the first encrypted frame, the server is unchanged, so nobody is
  superseded and nothing marked busy; if all succeeds, a live registered session that has the
  client's offset behind it gets a current, busy connection, and no other session changes.\<close>

theorem connect_all_or_nothing:
  "case tcp_connect mk hkdf sv r w sn of
     (sv', Inl e) \<Rightarrow> sv' = sv
   | (sv', Inr (c, epoch)) \<Rightarrow>
       \<exists>hello s s'. snd (server_recv r) = Inr hello \<and>
         registry sv (hello_session_id hello) = Some (at_addr c) \<and>
         store sv (at_addr c) = Some s \<and> \<not> ended s \<and>
         at_offset c = hello_offset hello \<and> at_offset c \<le> current_total s \<and>
         become_active s = (s', epoch) \<and> is_current s' epoch \<and> is_busy s' \<and>
         sv' = sv\<lparr>store := (store sv)(at_addr c \<mapsto> s')\<rparr>"
  by (rule tcp_connect_outcome)

lemma handshake_outcome:
  assumes "reliable cw" and "written cw = []" and "reliable w" and "written w = []"
    and "length sid = SESSION_ID_LEN" and "valid_utf8 (as_bytes sid)"
    and "length cn = NONCE_LEN" and "length sn = NONCE_LEN"
    and "live_session sv sid = Some (a, s)" and "off \<le> current_total s"
    and "cipher_ok (mk (derive_key hkdf (current_psk s) cn sn))"
  shows "\<exists>cw' w' c. client_send cw sid cn off = (cw', Inr ()) \<and>
    tcp_open mk hkdf sv (written cw' @ rest) w sn = (w', Inr c) \<and>
    (\<forall>later. client_recv (written w' @ later) = (later, Inr (sn, current_total s))) \<and>
    at_addr c = a \<and> at_rest c = rest \<and> at_offset c = off \<and>
    in_sync (new_sealer mk (derive_key hkdf (current_psk s) cn sn) DIR_CLIENT_TO_SERVER) (at_opener c) \<and>
    in_sync (snd (at_link c)) (new_opener mk (derive_key hkdf (current_psk s) cn sn) DIR_SERVER_TO_CLIENT) \<and>
    reliable cw' \<and> fst (at_link c) = w' \<and> reliable w'"
proof -
  let ?k = "derive_key hkdf (current_psk s) cn sn"
  let ?msg = "MAGIC @ [VERSION] @ as_bytes sid @ cn @ u64_to_be off"
  have send: "client_send cw sid cn off = (cw\<lparr>written := ?msg\<rparr>, Inr ())"
    using assms(1,2,5) by (simp add: client_send_def)
  have recv: "server_recv (?msg @ rest) =
      (rest, Inr \<lparr>hello_session_id = sid, hello_nonce = cn, hello_offset = off\<rparr>)"
    using server_recv_hello [OF assms(5-7), of off rest] by simp
  let ?w = "w\<lparr>written := STATUS_OK # sn @ u64_to_be (current_total s)\<rparr>"
  have ok: "server_send_ok w sn (current_total s) = (?w, Inr ())"
    using assms(3,4) by (simp add: server_send_ok_def)
  let ?c = "\<lparr>at_addr = a, at_link = (?w, new_sealer mk ?k DIR_SERVER_TO_CLIENT),
             at_opener = new_opener mk ?k DIR_CLIENT_TO_SERVER, at_rest = rest, at_offset = off\<rparr>"
  have "tcp_open mk hkdf sv (?msg @ rest) w sn = (?w, Inr ?c)"
    unfolding tcp_open_def recv using assms(9,10) ok by (simp add: Let_def leD)
  with send client_recv_ok [OF assms(8), of "current_total s"] new_ends_in_sync [of mk ?k, OF assms(11)]
  show ?thesis by (intro exI [of _ "cw\<lparr>written := ?msg\<rparr>"] exI [of _ ?w] exI [of _ ?c]) (simp add: assms(1,3))
qed

text \<open>The two ends agree: when a client's hello reaches a server that has its session and its
  offset, the reply gives the client the server's nonce and total, and with the session's key
  both ends derive the same key and are in step in both directions, so that the channel's
  guarantees hold for everything that follows.\<close>

theorem handshake_agrees:
  assumes "reliable cw" and "written cw = []" and "reliable w" and "written w = []"
    and "length sid = SESSION_ID_LEN" and "valid_utf8 (as_bytes sid)"
    and "length cn = NONCE_LEN" and "length sn = NONCE_LEN"
    and "live_session sv sid = Some (a, s)" and "off \<le> current_total s"
    and "cipher_ok (mk (derive_key hkdf (current_psk s) cn sn))"
  shows "\<exists>cw' w' c. client_send cw sid cn off = (cw', Inr ()) \<and>
    tcp_open mk hkdf sv (written cw' @ rest) w sn = (w', Inr c) \<and>
    client_recv (written w' @ later) = (later, Inr (sn, current_total s)) \<and>
    at_addr c = a \<and> at_rest c = rest \<and> at_offset c = off \<and>
    in_sync (new_sealer mk (derive_key hkdf (current_psk s) cn sn) DIR_CLIENT_TO_SERVER) (at_opener c) \<and>
    in_sync (snd (at_link c)) (new_opener mk (derive_key hkdf (current_psk s) cn sn) DIR_SERVER_TO_CLIENT)"
  using handshake_outcome [where mk = mk and hkdf = hkdf, OF assms(1-10) assms(11)] by blast

theorem handshake_agrees_witness:
  "\<exists>c. snd (tcp_open (\<lambda>_. tag_cipher) (\<lambda>_ _ _ _. [])
       (reg_insert 0 (fst (alloc (new_session ''0000000a'' [] 80 24 16 0 [9]) empty_server)))
       (written (fst (client_send open_sink ''0000000a'' (replicate 32 1) 0))) open_sink (replicate 32 2)) = Inr c \<and>
     in_sync (snd (at_link c)) (new_opener (\<lambda>_. tag_cipher) [] DIR_SERVER_TO_CLIENT)"
proof -
  let ?s = "new_session ''0000000a'' [] 80 24 16 0 [9]"
  let ?sv = "reg_insert 0 (fst (alloc ?s empty_server))"
  have live: "live_session ?sv ''0000000a'' = Some (0, ?s)"
    by (simp add: live_session_def registry_defs empty_server_def new_session_def is_ended_def)
  have sid: "length ''0000000a'' = SESSION_ID_LEN" "valid_utf8 (as_bytes ''0000000a'')"
    by (simp add: SESSION_ID_LEN_def, code_simp)
  have n: "length (replicate 32 1 :: bytes) = NONCE_LEN" "length (replicate 32 2 :: bytes) = NONCE_LEN"
    by (simp_all add: NONCE_LEN_def)
  have kd: "derive_key (\<lambda>_ _ _ _. []) k cn sn = []" for k cn sn by (simp add: derive_key_def)
  from handshake_agrees [OF reliable_open_sink(1,2) reliable_open_sink(1,2) sid n live, of 0
      "\<lambda>_. tag_cipher" "\<lambda>_ _ _ _. []" "[]" "[]"]
  show ?thesis by (auto simp: tag_cipher_ok kd)
qed

text \<open>C24. A refused client is told why, unless it did not speak the protocol at all: another
  version, an unknown or ended session, or an offset beyond the output reach it as the
  matching rejection, and a client with garbage for a hello gets no byte.\<close>

theorem refusals_reach_client:
  assumes "reliable w" and "written w = []" and "tcp_open mk hkdf sv r w sn = (w', Inl e)"
  shows "case snd (server_recv r) of
      Inl e0 \<Rightarrow>
        if is_rejection e0 then client_recv (written w' @ later) = (later, Inl (Rejected VersionMismatch))
        else written w' = []
    | Inr hello \<Rightarrow>
        client_recv (written w' @ later) =
          (later, Inl (Rejected
            (if live_session sv (hello_session_id hello) = None then NoSession else BadOffset)))"
proof -
  have bytes: "client_recv (STATUS_VERSION_MISMATCH # later) = (later, Inl (Rejected VersionMismatch))"
    "client_recv (STATUS_NO_SESSION # later) = (later, Inl (Rejected NoSession))"
    "client_recv (STATUS_BAD_OFFSET # later) = (later, Inl (Rejected BadOffset))"
    by (simp_all add: client_recv_status status_bytes)
  show ?thesis
    using assms bytes
    by (auto simp: tcp_open_def refuse_def server_send_err_def server_send_ok_def Let_def
        split: prod.splits sum.splits if_splits option.splits)
qed

theorem refusals_reach_client_witness:
  "\<exists>w' e. tcp_open (\<lambda>_. tag_cipher) (\<lambda>_ _ _ _. []) empty_server (MAGIC @ [1]) open_sink [] = (w', Inl e) \<and>
     client_recv (written w') = ([], Inl (Rejected VersionMismatch))"
proof -
  have old: "server_recv (MAGIC @ [1]) = ([], Inl (Rejected VersionMismatch))"
    by (rule server_recv_other_version) (simp add: VERSION_def)
  obtain w' e where run: "tcp_open (\<lambda>_. tag_cipher) (\<lambda>_ _ _ _. []) empty_server (MAGIC @ [1]) open_sink [] = (w', Inl e)"
    by (simp add: tcp_open_def old refuse_def server_send_err_def)
  from refusals_reach_client [OF reliable_open_sink run, of "[]"] run old show ?thesis by auto
qed

end
