(* ===== verification/Daemon_Run.thy ===== *)
theory Daemon_Run
  imports Connection
begin

text \<open>
  The running daemon: control requests, connections, the threads of the sessions and the
  ends of shells, each as one step, in any order. The registry and the sessions stay in step.
  Theory \<open>Crowd\<close> takes the same apart into single accesses.
\<close>

section \<open>Steps\<close>

text \<open>
  \<open>requests\<close>: a control request is executed. \<open>connects\<close>: a TCP connection is opened, with
  any outcome. \<open>departs\<close>: a connection's task ends. \<open>inputs\<close>: the reader of a connection
  handles a frame. \<open>prints\<close>: the PTY reader appends output. \<open>drains\<close>: the PTY's writer
  thread takes its queue, or ends. \<open>ends\<close>: the PTY reader or the reaper marks the session
  ended. \<open>bumps\<close> and \<open>flags\<close>: one access of \<open>become_active\<close> or \<open>leave\<close> alone, for connections
  whose opening or end is interleaved with all the rest; \<open>rekeys\<close>: the same for the change of key
  of an attach request.
\<close>

inductive run_step :: "server \<Rightarrow> server \<Rightarrow> bool" where
  requests: "execute_control hx n p env sv req = Some (sv', resp) \<Longrightarrow> run_step sv sv'"
| connects: "tcp_connect mk hkdf sv r w sn = (sv', res) \<Longrightarrow> run_step sv sv'"
| departs: "run_step sv (tcp_leave a e sv)"
| inputs: "run_step sv (on_session a (on_frame f) sv)"
| prints: "run_step sv (on_session a (\<lambda>s. pty_output s bs) sv)"
| drains: "run_step sv (on_session a (\<lambda>s. s\<lparr>to_pty := q, pty_open := b\<rparr>) sv)"
| ends: "run_step sv (mark_session_ended a sv)"
| bumps: "run_step sv (on_session a (\<lambda>s. fst (bump_epoch s)) sv)"
| flags: "run_step sv (on_session a (set_connected b) sv)"
| rekeys: "run_step sv (on_session a (\<lambda>s. fst (rotate_psk k s)) sv)"

inductive run_reachable :: "server \<Rightarrow> bool" where
  started: "run_reachable empty_server"
| runs: "run_reachable sv \<Longrightarrow> run_step sv sv' \<Longrightarrow> run_reachable sv'"

inductive_cases run_stepE: "run_step sv sv'"

section \<open>What one step does\<close>

text \<open>A change of a session that keeps its identity and does not revive it.\<close>

definition grows :: "server \<Rightarrow> server \<Rightarrow> bool" where
  "grows sv sv' \<longleftrightarrow>
     (\<forall>a s. store sv a = Some s \<longrightarrow>
        (\<exists>s'. store sv' a = Some s' \<and> ident s' = ident s \<and> (ended s \<longrightarrow> ended s')))"

lemma grows_refl: "grows sv sv"
  by (simp add: grows_def)

lemma grows_trans: "grows sv sv' \<Longrightarrow> grows sv' sv'' \<Longrightarrow> grows sv sv''"
  unfolding grows_def by metis

lemma grows_on_session:
  "(\<And>s. ident (f s) = ident s \<and> (ended s \<longrightarrow> ended (f s))) \<Longrightarrow> grows sv (on_session a f sv)"
  by (auto simp: grows_def)

lemma kept_by_ops:
  "ident (leave s e) = ident s \<and> ended (leave s e) = ended s"
  "ident (fst (become_active s)) = ident s \<and> ended (fst (become_active s)) = ended s"
  "ident (on_frame f s) = ident s \<and> ended (on_frame f s) = ended s"
  "ident (pty_output s bs) = ident s \<and> ended (pty_output s bs) = ended s"
  "ident (kill s) = ident s \<and> ended (kill s) = ended s"
  "ident (fst (bump_epoch s)) = ident s \<and> ended (fst (bump_epoch s)) = ended s"
  "ident (set_connected b s) = ident s \<and> ended (set_connected b s) = ended s"
  "ident (fst (rotate_psk k s)) = ident s \<and> ended (fst (rotate_psk k s)) = ended s"
  by (cases f; simp add: session_defs Let_def)+

lemma tcp_connect_cases:
  "tcp_connect mk hkdf sv r w sn = (sv', res) \<Longrightarrow>
     sv' = sv \<or> (\<exists>a. sv' = on_session a (\<lambda>s. fst (become_active s)) sv)"
  by (auto simp: tcp_connect_def tcp_activate_def split: prod.splits sum.splits)

lemma grows_mark_ended: "grows sv (mark_session_ended a sv)"
proof (cases "store sv a")
  case None
  then show ?thesis by (simp add: mark_session_ended_def grows_refl)
next
  case (Some s)
  then show ?thesis
    by (cases "ended s") (auto simp: mark_session_ended_twice mark_session_ended_live grows_def)
qed

lemma execute_control_cases:
  assumes "execute_control hx n p env sv req = Some (sv', resp)"
  shows "sv' = sv \<or> (\<exists>cols rows. do_create hx n p env sv cols rows = Some (sv', resp)) \<or>
         (\<exists>sid. do_attach hx p env sv sid = (sv', resp)) \<or> (\<exists>sid. do_kill sv sid = (sv', resp))"
  using assms
  by (auto simp: execute_control_def split: sum.splits prod.splits if_splits control_request.splits)

lemma grows_execute:
  assumes "server_ok sv" and "execute_control hx n p env sv req = Some (sv', resp)"
  shows "grows sv sv'"
  using execute_control_cases [OF assms(2)]
proof (elim disjE exE)
  assume "sv' = sv" then show ?thesis by (simp add: grows_refl)
next
  fix cols rows
  assume "do_create hx n p env sv cols rows = Some (sv', resp)"
  from create_frame [OF this assms(1)] show ?thesis by (auto simp: grows_def)
next
  fix sid
  assume "do_attach hx p env sv sid = (sv', resp)"
  then show ?thesis
    by (auto simp: do_attach_def rotate_psk_def grows_def split: option.splits if_splits bind_splits)
next
  fix sid
  assume "do_kill sv sid = (sv', resp)"
  then show ?thesis
    by (auto simp: do_kill_def kept_by_ops intro!: grows_on_session grows_refl split: option.splits)
qed

lemma run_step_ok:
  assumes "run_step sv sv'" and "server_ok sv"
  shows "server_ok sv' \<and> grows sv sv'"
  using assms(1)
proof cases
  case (requests hx n p env req resp)
  with assms(2) show ?thesis by (blast intro: execute_keeps grows_execute)
next
  case (connects mk hkdf r w sn res)
  from tcp_connect_cases [OF this] assms(2) show ?thesis
    by (auto simp: kept_by_ops grows_refl intro!: server_ok_on_session grows_on_session)
next
  case (departs a e)
  with assms(2) show ?thesis
    by (auto simp: tcp_leave_def kept_by_ops intro!: server_ok_on_session grows_on_session)
next
  case (ends a)
  with assms(2) show ?thesis by (simp add: server_ok_mark_ended grows_mark_ended)
qed (use assms(2) in \<open>auto simp: kept_by_ops intro!: server_ok_on_session grows_on_session\<close>)

interpretation daemon_steps: step_invariant run_step server_ok
  by unfold_locales (simp add: run_step_ok)

lemma run_reachable_runs: "run_reachable sv \<Longrightarrow> run_step\<^sup>*\<^sup>* empty_server sv"
  by (induction rule: run_reachable.induct) auto

lemma run_reachable_ok: "run_reachable sv \<Longrightarrow> server_ok sv"
  by (blast dest: run_reachable_runs intro: daemon_steps.keeps_runs server_ok_empty)

lemma runs_grow: "run_step\<^sup>*\<^sup>* sv sv' \<Longrightarrow> server_ok sv \<Longrightarrow> server_ok sv' \<and> grows sv sv'"
  using daemon_steps.keeps_runs daemon_steps.relates_runs [of sv sv' grows] run_step_ok grows_refl grows_trans
  by blast

section \<open>Properties\<close>

text \<open>In every state the daemon can reach the registry and the sessions are in step: it names
  existing sessions under their own identifiers, none of them ended, and every session that
  has not ended is in it.\<close>

theorem daemon_registry_in_step:
  assumes "run_reachable sv"
  shows "(registry sv sid = Some a \<longrightarrow> (\<exists>s. store sv a = Some s \<and> ident s = sid \<and> \<not> is_ended s)) \<and>
         (store sv a = Some s \<longrightarrow> \<not> is_ended s \<longrightarrow> reg_get sv (ident s) = Some a)"
  using server_okD(2,3) [OF run_reachable_ok [OF assms]] by (auto simp: is_ended_def reg_get_def)

text \<open>A run: a session is created.\<close>

definition demo_env :: daemon_env where
  "demo_env = (plain_env\<lparr>rng := (\<lambda>_. 7), clock := 5, fresh_key := [1]\<rparr>)"

definition demo_server :: server where
  "demo_server =
     (let s = new_session (hex8 7) ''/bin/sh'' 80 24 16 5 [1]
      in \<lparr>store = [0 \<mapsto> s], next_addr = 1, registry = [hex8 7 \<mapsto> 0]\<rparr>)"

lemma demo_created:
  "execute_control (\<lambda>_. []) 16 1 demo_env empty_server (OnProtocol VERSION (Create 80 24)) =
     Some (demo_server, Bootstrap 1 (hex8 7) [])"
proof -
  have "new_session_id empty_server (rng demo_env) 0 = Some (hex8 (rng demo_env 0))"
    by (rule new_session_id_found) (simp_all add: reg_contains_def empty_server_def)
  then have "new_session_id empty_server (rng demo_env) 0 = Some (hex8 7)" by (simp add: demo_env_def)
  then show ?thesis
    by (simp add: execute_control_def do_create_eq demo_env_def demo_server_def empty_server_def Let_def)
qed

lemma demo_reachable: "run_reachable demo_server"
  by (rule run_reachable.runs [OF run_reachable.started run_step.requests [OF demo_created]])

theorem daemon_registry_in_step_witness:
  "\<exists>s. store demo_server 0 = Some s \<and> ident s = hex8 7 \<and> \<not> is_ended s"
  using daemon_registry_in_step [OF demo_reachable, of "hex8 7" 0] by (simp add: demo_server_def Let_def)

end
