(* ===== verification/Session_Threads.thy ===== *)
theory Session_Threads
  imports Daemon_Run
begin

text \<open>
  The threads \<open>spawn_session\<close> starts for a shell (server/session.rs): the reader of the
  PTY's output, the thread that writes to the PTY, and the reaper that waits for the shell.
  Each acts on the session by the steps of \<open>Daemon_Run\<close>.
\<close>

section \<open>The threads\<close>

text \<open>
  The reader: the results of its reads of the PTY, each of at most 8192 bytes, one per
  iteration. An empty read is the end of the output. The flag says whether it has returned.
\<close>

fun pty_reader :: "nat \<Rightarrow> server \<Rightarrow> (error + bytes) list \<Rightarrow> server \<times> bool" where
  "pty_reader a sv [] = (sv, False)"
| "pty_reader a sv (Inl e # reads) = (mark_session_ended a sv, True)"
| "pty_reader a sv (Inr bs # reads) =
     (if bs = [] then (mark_session_ended a sv, True)
      else pty_reader a (on_session a (\<lambda>s. pty_output s bs) sv) reads)"

text \<open>The writer takes the queue of its channel; it drops the receiver when a write fails.\<close>

definition pty_writer_thread :: "nat \<Rightarrow> pty \<Rightarrow> server \<Rightarrow> pty \<times> server" where
  "pty_writer_thread a p sv =
     (case store sv a of
        None \<Rightarrow> (p, sv)
      | Some s \<Rightarrow>
          (case pty_writer p (to_pty s) of
             (p', going) \<Rightarrow> (p', on_session a (\<lambda>s. s\<lparr>to_pty := [], pty_open := going\<rparr>) sv)))"

text \<open>The reaper: the shell has exited, or waiting for it has failed.\<close>

definition reaper :: "nat \<Rightarrow> error + int \<Rightarrow> server \<Rightarrow> server" where
  "reaper a waited sv = mark_session_ended a sv"

section \<open>The threads make steps of the daemon\<close>

lemma pty_reader_steps: "pty_reader a sv reads = (sv', done_reading) \<Longrightarrow> run_step\<^sup>*\<^sup>* sv sv'"
proof (induction a sv reads rule: pty_reader.induct)
  case (2 a sv e reads)
  then show ?case by (auto intro: r_into_rtranclp run_step.ends)
next
  case (3 a sv bs reads)
  show ?case
  proof (cases "bs = []")
    case True
    with "3.prems" show ?thesis by (auto intro: r_into_rtranclp run_step.ends)
  next
    case False
    with 3 have "run_step\<^sup>*\<^sup>* (on_session a (\<lambda>s. pty_output s bs) sv) sv'" by simp
    with run_step.prints [of sv a bs] show ?thesis by (rule converse_rtranclp_into_rtranclp)
  qed
qed simp

lemma pty_writer_thread_steps: "pty_writer_thread a p sv = (p', sv') \<Longrightarrow> run_step\<^sup>*\<^sup>* sv sv'"
  by (auto simp: pty_writer_thread_def intro: r_into_rtranclp run_step.drains
      split: option.splits prod.splits)

lemma reaper_steps: "run_step sv (reaper a waited sv)"
  by (simp add: reaper_def run_step.ends)

lemma mark_session_ended_at:
  assumes "store sv a = Some s"
  shows "store (mark_session_ended a sv) =
      (store sv)(a \<mapsto> (if ended s then s else notify (s\<lparr>ended := True\<rparr>)))"
    and "registry (mark_session_ended a sv) =
      (if ended s then registry sv else (registry sv)(ident s := None))"
  using assms by (cases "ended s"; simp add: mark_session_ended_twice mark_session_ended_live fun_upd_idem)+

text \<open>The session after a number of successful reads.\<close>

lemma pty_reader_chunks:
  assumes "list_all (\<lambda>b. b \<noteq> []) chunks" and "store sv a = Some s"
  shows "pty_reader a sv (map Inr chunks @ reads) =
           pty_reader a (sv\<lparr>store := (store sv)(a \<mapsto> foldl pty_output s chunks)\<rparr>) reads"
  using assms
proof (induction chunks arbitrary: sv s)
  case Nil
  then show ?case by (simp add: fun_upd_idem)
next
  case (Cons b chunks)
  let ?sv = "sv\<lparr>store := (store sv)(a \<mapsto> pty_output s b)\<rparr>"
  from Cons.prems(1) have "list_all (\<lambda>b. b \<noteq> []) chunks" by simp
  from Cons.IH [OF this, of ?sv "pty_output s b"] Cons.prems show ?case
    by (simp add: on_session_def cong: if_cong)
qed

lemma pty_outputs:
  "session_rep s h \<Longrightarrow> length h + length (concat chunks) < 2 ^ 64 \<Longrightarrow>
     session_rep (foldl pty_output s chunks) (h @ concat chunks)"
  "ident (foldl pty_output s chunks) = ident s"
  "ended (foldl pty_output s chunks) = ended s"
proof (induction chunks arbitrary: s h)
  case (Cons b chunks)
  {
    case 1
    then have "session_rep (pty_output s b) (h @ b)" by (intro session_log.rep_append) simp_all
    from Cons.IH(1) [OF this] 1 show ?case by simp
  next
    case 2
    with Cons.IH(2) show ?case by (simp add: kept_by_ops)
  next
    case 3
    with Cons.IH(3) show ?case by (simp add: kept_by_ops)
  }
qed simp_all

section \<open>Properties\<close>



end
