(* ===== verification/Client_Output.thy ===== *)
theory Client_Output
  imports Ring
begin

text \<open>
  \<open>SessionOutput\<close> of client/session.rs: standard output and the committed offset, the
  acceptance of one output frame, and the contract that every byte of the shell's output
  appears once, in order, or is named in a gap notice.
\<close>

section \<open>Accepting an output frame\<close>

record session_output =
  writer :: sink
  received :: u64

definition new_output :: "sink \<Rightarrow> session_output" where
  "new_output w = \<lparr>writer = w, received = 0\<rparr>"

definition gap_notice :: "nat \<Rightarrow> bytes" where
  "gap_notice n =
     [0x18, 0x0D, 0x0A] @ as_bytes ''[thther] output gap: '' @ as_bytes (dec_string n) @
     as_bytes '' bytes unavailable'' @ [0x0D, 0x0A]"

definition output_failed :: error where
  "output_failed = Fatal OutputError"

definition accept :: "session_output \<Rightarrow> u64 \<Rightarrow> bytes \<Rightarrow> session_output \<times> (error + unit)" where
  "accept so offset data =
     (case checked_add offset (word_of_nat (length data)) of
        None \<Rightarrow> (so, Inl (Fatal (ProtocolError ''output offset overflow'')))
      | Some end_off \<Rightarrow>
          if end_off \<le> received so then (so, Inr ())
          else
            (case (if offset > received so
                   then write_all (writer so) (gap_notice (unat (offset - received so)))
                   else (writer so, True)) of
               (w1, False) \<Rightarrow> (so\<lparr>writer := w1\<rparr>, Inl output_failed)
             | (w1, True) \<Rightarrow>
                 (let skip = unat (saturating_sub (received so) offset) in
                  case write_all w1 (drop skip data) of
                    (w2, False) \<Rightarrow> (so\<lparr>writer := w2\<rparr>, Inl output_failed)
                  | (w2, True) \<Rightarrow>
                      if flush_ok w2 then (so\<lparr>writer := w2, received := end_off\<rparr>, Inr ())
                      else (so\<lparr>writer := w2\<rparr>, Inl output_failed))))"

text \<open>Accepting the frames of one or several connections in the order they arrive.\<close>

fun feed :: "('o \<Rightarrow> u64 \<Rightarrow> bytes \<Rightarrow> 'o \<times> (error + unit)) \<Rightarrow> 'o \<Rightarrow> (u64 \<times> bytes) list \<Rightarrow> 'o \<times> (error + unit)" where
  "feed f t [] = (t, Inr ())"
| "feed f t ((off, d) # fs) =
     (case f t off d of
        (t', Inl e) \<Rightarrow> (t', Inl e)
      | (t', Inr u) \<Rightarrow> feed f t' fs)"

section \<open>What the terminal shows\<close>

text \<open>
  A piece of the terminal's content: the output between two absolute offsets, or a notice
  that stands for it. The pieces tile the offsets from the first to the committed one.
\<close>

datatype piece = Shown nat nat | Gap nat nat

fun tiles :: "nat \<Rightarrow> piece list \<Rightarrow> nat \<Rightarrow> bool" where
  "tiles a [] e \<longleftrightarrow> a = e"
| "tiles a (Shown x y # ps) e \<longleftrightarrow> x = a \<and> x \<le> y \<and> tiles y ps e"
| "tiles a (Gap x y # ps) e \<longleftrightarrow> x = a \<and> x < y \<and> tiles y ps e"

fun render_piece :: "bytes \<Rightarrow> piece \<Rightarrow> bytes" where
  "render_piece h (Shown x y) = take (y - x) (drop x h)"
| "render_piece h (Gap x y) = gap_notice (y - x)"

definition render :: "bytes \<Rightarrow> piece list \<Rightarrow> bytes" where
  "render h ps = concat (map (render_piece h) ps)"

lemma tiles_append: "tiles a (ps @ qs) e \<longleftrightarrow> (\<exists>m. tiles a ps m \<and> tiles m qs e)"
  by (induction a ps e rule: tiles.induct) auto

lemma tiles_le: "tiles a ps e \<Longrightarrow> a \<le> e"
  by (induction a ps e rule: tiles.induct) auto

lemma render_append: "render h (ps @ qs) = render h ps @ render h qs"
  by (simp add: render_def)

lemma render_simps [simp]: "render h [] = []" "render h (p # ps) = render_piece h p @ render h ps"
  by (simp_all add: render_def)

lemma render_history: "tiles a ps e \<Longrightarrow> e \<le> length h \<Longrightarrow> render (h @ b) ps = render h ps"
  by (induction a ps e rule: tiles.induct) (auto dest: tiles_le)

text \<open>Without gaps the pieces are the output itself.\<close>

definition no_gap :: "piece list \<Rightarrow> bool" where
  "no_gap ps \<longleftrightarrow> (\<forall>p \<in> set ps. \<forall>x y. p \<noteq> Gap x y)"

lemma no_gap_simps [simp]:
  "no_gap []" "no_gap (Shown x y # ps) = no_gap ps" "\<not> no_gap (Gap x y # ps)"
  "no_gap (ps @ qs) = (no_gap ps \<and> no_gap qs)"
  by (auto simp: no_gap_def)

lemma render_no_gap:
  "tiles a ps e \<Longrightarrow> no_gap ps \<Longrightarrow> e \<le> length h \<Longrightarrow> render h ps = take (e - a) (drop a h)"
proof (induction a ps e rule: tiles.induct)
  case (2 a x y ps e)
  then have "y \<le> e" and "x = a" "a \<le> y" by (auto dest: tiles_le)
  with 2 have "render h (Shown x y # ps) = take (y - a) (drop a h) @ take (e - y) (drop y h)"
    by simp
  also have "drop y h = drop (y - a) (drop a h)"
    using \<open>a \<le> y\<close> by simp
  also have "take (y - a) (drop a h) @ take (e - y) (drop (y - a) (drop a h)) =
             take ((y - a) + (e - y)) (drop a h)"
    by (simp only: take_add)
  also have "(y - a) + (e - y) = e - a"
    using \<open>a \<le> y\<close> \<open>y \<le> e\<close> by simp
  finally show ?case .
qed auto

definition showing :: "session_output \<Rightarrow> bytes \<Rightarrow> piece list \<Rightarrow> bool" where
  "showing so h ps \<longleftrightarrow>
     written (writer so) = render h ps \<and> tiles 0 ps (unat (received so)) \<and>
     unat (received so) \<le> length h"

definition slice :: "bytes \<Rightarrow> u64 \<Rightarrow> bytes \<Rightarrow> bool" where
  "slice h off d \<longleftrightarrow>
     unat off + length d \<le> length h \<and> d = take (length d) (drop (unat off) h)"

text \<open>The pieces one accepted frame adds, given the committed offset before it.\<close>

definition new_pieces :: "nat \<Rightarrow> nat \<Rightarrow> nat \<Rightarrow> piece list" where
  "new_pieces r off e =
     (if e \<le> r then []
      else if r < off then [Gap r off, Shown off e]
      else [Shown r e])"

text \<open>
  The contract of a terminal fed with slices of the output: an accepted frame adds
  exactly the pieces that are new, a rejected one commits nothing and is fatal.
\<close>

locale terminal =
  fixes take_frame :: "'o \<Rightarrow> u64 \<Rightarrow> bytes \<Rightarrow> 'o \<times> (error + unit)"
    and displays :: "'o \<Rightarrow> bytes \<Rightarrow> piece list \<Rightarrow> bool"
    and pos :: "'o \<Rightarrow> nat"
  assumes take_ok: "displays t h ps \<Longrightarrow> slice h off d \<Longrightarrow> length h < 2 ^ 64 \<Longrightarrow>
        take_frame t off d = (t', Inr u) \<Longrightarrow>
        displays t' h (ps @ new_pieces (pos t) (unat off) (unat off + length d)) \<and>
        pos t' = max (pos t) (unat off + length d)"
    and take_err: "take_frame t off d = (t', Inl e) \<Longrightarrow> pos t' = pos t \<and> is_fatal e"
begin

text \<open>A whole run of chunks, in order and without overlap, from anywhere at or before the committed offset.\<close>

lemma take_run:
  "displays t h ps \<Longrightarrow> slices h c fs e \<Longrightarrow> length h < 2 ^ 64 \<Longrightarrow> feed take_frame t fs = (t', Inr u) \<Longrightarrow>
     c \<le> pos t \<Longrightarrow>
     \<exists>qs. displays t' h (ps @ qs) \<and> pos t' = max (pos t) e \<and> (gapless c fs \<longrightarrow> no_gap qs)"
proof (induction fs arbitrary: t ps c)
  case Nil
  then show ?case by (auto intro!: exI [of _ "[]"])
next
  case (Cons f fs)
  obtain off d where f: "f = (off, d)" by force
  from Cons.prems(4) obtain t1 u1 where
      t1: "take_frame t off d = (t1, Inr u1)" and rest: "feed take_frame t1 fs = (t', Inr u)"
    by (auto simp: f split: prod.splits sum.splits)
  from Cons.prems(2) have sl: "slice h off d" and fs: "slices h (unat off + length d) fs e"
    and le: "unat off + length d \<le> e"
    by (auto simp: f slice_def dest: slices_bounds)
  let ?qs = "new_pieces (pos t) (unat off) (unat off + length d)"
  from take_ok [OF Cons.prems(1) sl Cons.prems(3) t1]
  have d1: "displays t1 h (ps @ ?qs)" and p1: "pos t1 = max (pos t) (unat off + length d)"
    by simp_all
  from Cons.IH [OF d1 fs Cons.prems(3) rest] p1 obtain qs' where
      "displays t' h ((ps @ ?qs) @ qs')" "pos t' = max (pos t1) e"
      "gapless (unat off + length d) fs \<longrightarrow> no_gap qs'"
    by auto
  moreover have "no_gap ?qs" if "unat off = c"
    using that Cons.prems(5) by (simp add: new_pieces_def)
  ultimately show ?case
    using p1 le by (intro exI [of _ "?qs @ qs'"]) (auto simp: f)
qed

end

lemma slice_end:
  assumes "slice h off d" and "length h < 2 ^ 64"
  shows "\<exists>e. checked_add off (word_of_nat (length d)) = Some e \<and> unat e = unat off + length d"
proof -
  from assms have "length d < 2 ^ 64" by (simp add: slice_def)
  then have "unat (word_of_nat (length d) :: u64) = length d" by (rule unat_of_nat_len)
  with assms show ?thesis
    by (simp add: checked_add_def slice_def unat_add_exact)
qed

lemma accept_new:
  assumes "checked_add off (word_of_nat (length d)) = Some e"
    and "accept so off d = (so', Inr u)" and "received so < e"
  shows "received so' = e \<and>
         written (writer so') = written (writer so) @
           (if received so < off then gap_notice (unat off - unat (received so)) else []) @
           drop (unat (received so) - unat off) d"
proof (cases "received so < off")
  case True
  then have "unat (off - received so) = unat off - unat (received so)"
    by (intro unat_sub_exact) simp
  with assms True show ?thesis
    by (auto simp: accept_def Let_def not_le unat_saturating_sub
        dest!: write_all_True split: prod.splits bool.splits if_splits)
next
  case False
  with assms show ?thesis
    by (auto simp: accept_def Let_def not_le unat_saturating_sub
        dest!: write_all_True split: prod.splits bool.splits if_splits)
qed

lemma accept_old:
  assumes "checked_add off (word_of_nat (length d)) = Some e" and "\<not> received so < e"
  shows "accept so off d = (so, Inr ())"
  using assms by (simp add: accept_def not_less)

lemma accept_error:
  assumes "accept so off d = (so', Inl e)"
  shows "received so' = received so \<and> is_fatal e"
  using assms
  by (auto simp: accept_def Let_def output_failed_def
      split: option.splits prod.splits bool.splits if_splits)

lemma drop_slice:
  assumes "slice h off d" and "unat off \<le> r"
  shows "drop (r - unat off) d = take (unat off + length d - r) (drop r h)"
proof -
  from assms have "d = take (length d) (drop (unat off) h)" by (simp add: slice_def)
  then have "drop (r - unat off) d = drop (r - unat off) (take (length d) (drop (unat off) h))"
    by (rule arg_cong)
  also have "\<dots> = take (length d - (r - unat off)) (drop r h)"
    using assms(2) by (simp add: drop_take)
  also have "length d - (r - unat off) = unat off + length d - r"
    using assms(2) by simp
  finally show ?thesis .
qed

interpretation session_terminal: terminal accept showing "\<lambda>so. unat (received so)"
proof (unfold_locales)
  fix so h ps off d so' u
  assume sh: "showing so h ps" and sl: "slice h off d" and len: "length h < 2 ^ 64"
    and acc: "accept so off d = (so', Inr u)"
  let ?r = "unat (received so)"
  let ?e = "unat off + length d"
  from slice_end [OF sl len] obtain e where
      e: "checked_add off (word_of_nat (length d)) = Some e" "unat e = ?e" by blast
  have "d = take (length d) (drop (unat off) h)" "?e \<le> length h"
    using sl by (simp_all add: slice_def)
  show "showing so' h (ps @ new_pieces ?r (unat off) ?e) \<and> unat (received so') = max ?r ?e"
  proof (cases "received so < e")
    case False
    with accept_old [OF e(1) False] acc sh e(2) show ?thesis
      by (auto simp: new_pieces_def u64_less_iff)
  next
    case True
    note new = accept_new [OF e(1) acc True]
    have lt: "?r < ?e" using True e(2) by (simp add: u64_less_iff)
    show ?thesis
    proof (cases "?r < unat off")
      case gap: True
      with new sh e(2) lt \<open>?e \<le> length h\<close> \<open>d = _\<close> show ?thesis
        by (simp add: new_pieces_def showing_def render_append tiles_append u64_less_iff)
    next
      case False
      with new sh e(2) lt \<open>?e \<le> length h\<close> drop_slice [OF sl, of ?r] show ?thesis
        by (simp add: new_pieces_def showing_def render_append tiles_append u64_less_iff)
    qed
  qed
next
  show "accept so off d = (so', Inl e) \<Longrightarrow> unat (received so') = unat (received so) \<and> is_fatal e"
    for so off d so' e
    by (simp add: accept_error)
qed

section \<open>Properties\<close>

lemma accept_idem:
  assumes "accept so off d = (so', Inr u)"
  shows "accept so' off d = (so', Inr ())"
proof (cases "checked_add off (word_of_nat (length d))")
  case None
  with assms show ?thesis by (simp add: accept_def)
next
  case (Some e)
  show ?thesis
  proof (cases "received so < e")
    case True
    with accept_new [OF Some assms True] show ?thesis by (intro accept_old [OF Some]) simp
  next
    case False
    with accept_old [OF Some False] assms show ?thesis by simp
  qed
qed

text \<open>A frame that cannot be shown is fatal and commits nothing: the committed offset
  stays, and the terminal has received a beginning of the notice and bytes due, no more.\<close>

theorem accept_error_commits_nothing:
  assumes "accept so off d = (so', Inl e)"
  shows "received so' = received so \<and> is_fatal e \<and>
    (\<exists>k. written (writer so') = written (writer so) @
       take k ((if received so < off then gap_notice (unat off - unat (received so)) else []) @
               drop (unat (received so) - unat off) d))"
proof -
  let ?w = "writer so" and ?d = "drop (unat (received so) - unat off) d"
  let ?n = "if received so < off then gap_notice (unat (off - received so)) else []"
  have n: "?n = (if received so < off then gap_notice (unat off - unat (received so)) else [])"
    by (simp add: unat_sub_exact)
  have first: "\<exists>j. take k xs = take j (xs @ ys)" for k and xs ys :: bytes
    by (rule exI [of _ "min k (length xs)"]) (simp add: min_def)
  have second: "\<exists>j. xs @ take k ys = take j (xs @ ys)" for k and xs ys :: bytes
    by (rule exI [of _ "length xs + k"]) simp
  obtain w1 ok1 where w1: "write_all ?w ?n = (w1, ok1)" by force
  obtain w2 ok2 where w2: "write_all w1 ?d = (w2, ok2)" by force
  have "so' = so \<or> \<not> ok1 \<and> writer so' = w1 \<or> ok1 \<and> writer so' = w2"
    using assms w1 w2
    by (auto simp: accept_def Let_def unat_saturating_sub split: option.splits if_splits bool.splits)
  then have "\<exists>k. written (writer so') = written ?w @ take k (?n @ ?d)"
  proof (elim disjE conjE)
    assume "so' = so"
    then show ?thesis by (intro exI [of _ 0]) simp
  next
    assume "writer so' = w1"
    moreover obtain k where "written w1 = written ?w @ take k ?n"
      using write_all_prefix [OF w1] by blast
    moreover obtain j where "take k ?n = take j (?n @ ?d)" using first by blast
    ultimately show ?thesis by (intro exI [of _ j]) simp
  next
    assume o1: ok1 and w: "writer so' = w2"
    from w1 o1 have "write_all ?w ?n = (w1, True)" by simp
    from write_all_True [OF this] have "written w1 = written ?w @ ?n" by blast
    moreover obtain k where "written w2 = written w1 @ take k ?d"
      using write_all_prefix [OF w2] by blast
    moreover obtain j where "?n @ take k ?d = take j (?n @ ?d)" using second by blast
    ultimately show ?thesis
      unfolding w by (intro exI [of _ j]) (simp only: append.assoc)
  qed
  with accept_error [OF assms] n show ?thesis by simp
qed

theorem accept_error_commits_nothing_witness:
  "received (fst (accept (new_output \<lparr>written = [], room = Some 1, flush_ok = True\<rparr>) 0 [1, 2])) = 0"
proof -
  have "accept (new_output \<lparr>written = [], room = Some 1, flush_ok = True\<rparr>) 0 [1, 2] =
      (\<lparr>writer = \<lparr>written = [1], room = Some 0, flush_ok = True\<rparr>, received = 0\<rparr>, Inl output_failed)"
    by (simp add: accept_def new_output_def write_all_def checked_add_def saturating_sub_def)
  from accept_error_commits_nothing [OF this] this show ?thesis by (simp add: new_output_def)
qed

end
