(* ===== verification/Reconnect.thy ===== *)
theory Reconnect
  imports Thther_Prelude
begin

text \<open>
  client/reconnect.rs: the reconnect backoff. A \<open>Duration\<close> is a number of milliseconds;
  the delays stay far below the overflow of the code's \<open>Duration\<close>.
\<close>

datatype duration = Millis (millis: nat)

instantiation duration :: linorder
begin

definition less_eq_duration :: "duration \<Rightarrow> duration \<Rightarrow> bool" where
  "less_eq_duration a b \<longleftrightarrow> millis a \<le> millis b"

definition less_duration :: "duration \<Rightarrow> duration \<Rightarrow> bool" where
  "less_duration a b \<longleftrightarrow> millis a < millis b"

instance
  by standard (auto simp: less_eq_duration_def less_duration_def duration.expand)

end

lemma millis_min [simp]: "millis (min a b) = min (millis a) (millis b)"
  by (simp add: min_def less_eq_duration_def)

definition duration_mul :: "duration \<Rightarrow> nat \<Rightarrow> duration" where
  "duration_mul d k = Millis (millis d * k)"

record backoff =
  cur_delay :: duration
  max_delay :: duration

definition new_backoff :: backoff where
  "new_backoff = \<lparr>cur_delay = Millis 250, max_delay = Millis 5000\<rparr>"

definition reset :: "backoff \<Rightarrow> backoff" where
  "reset b = b\<lparr>cur_delay := Millis 250\<rparr>"

definition next_delay :: "backoff \<Rightarrow> backoff \<times> duration" where
  "next_delay b = (b\<lparr>cur_delay := min (duration_mul (cur_delay b) 2) (max_delay b)\<rparr>, cur_delay b)"

text \<open>The delays of \<open>n\<close> attempts in a row.\<close>

primrec delays :: "nat \<Rightarrow> backoff \<Rightarrow> duration list" where
  "delays 0 b = []"
| "delays (Suc n) b = (case next_delay b of (b', d) \<Rightarrow> d # delays n b')"

lemma length_delays [simp]: "length (delays n b) = n"
  by (induction n arbitrary: b) (auto split: prod.splits)

lemma capped_double: "min (min (c * 2) m * 2 ^ j) m = min (c * (2 * 2 ^ j)) (m :: nat)"
proof (cases "c * 2 \<le> m")
  case True
  then show ?thesis by (simp add: mult.assoc)
next
  case False
  then have m: "min (c * 2) m = m" by simp
  have "m * 1 \<le> m * 2 ^ j" and "c * 2 * 1 \<le> c * 2 * 2 ^ j"
    by (intro mult_le_mono2, simp)+
  then have "m \<le> m * 2 ^ j" and "c * 2 \<le> c * (2 * 2 ^ j)"
    by (simp_all only: mult.assoc mult_1_right)
  with False have "m \<le> m * 2 ^ j" and "m \<le> c * (2 * 2 ^ j)"
    by linarith+
  with m show ?thesis by (metis min.absorb2)
qed

lemma delays_nth:
  "k < n \<Longrightarrow> millis (cur_delay b) \<le> millis (max_delay b) \<Longrightarrow>
     millis (delays n b ! k) = min (millis (cur_delay b) * 2 ^ k) (millis (max_delay b))"
proof (induction n arbitrary: b k)
  case 0
  then show ?case by simp
next
  case (Suc n)
  show ?case
  proof (cases k)
    case 0
    with Suc.prems show ?thesis by (simp add: next_delay_def)
  next
    case (Suc j)
    let ?b = "b\<lparr>cur_delay := min (duration_mul (cur_delay b) 2) (max_delay b)\<rparr>"
    have "millis (delays n ?b ! j) = min (millis (cur_delay ?b) * 2 ^ j) (millis (max_delay ?b))"
      using Suc Suc.prems by (intro Suc.IH) simp_all
    also have "\<dots> = min (millis (cur_delay b) * 2 ^ k) (millis (max_delay b))"
      by (simp add: Suc duration_mul_def capped_double)
    finally show ?thesis using Suc by (simp add: next_delay_def)
  qed
qed

text \<open>The values a client's backoff can have: between the first delay and the cap.\<close>

definition backoff_ok :: "backoff \<Rightarrow> bool" where
  "backoff_ok b \<longleftrightarrow> max_delay b = Millis 5000 \<and> Millis 250 \<le> cur_delay b \<and> cur_delay b \<le> max_delay b"

lemma backoff_ok_steps:
  "backoff_ok new_backoff" "backoff_ok b \<Longrightarrow> backoff_ok (reset b)"
  "backoff_ok b \<Longrightarrow> backoff_ok (fst (next_delay b))"
  by (auto simp: backoff_ok_def new_backoff_def reset_def next_delay_def duration_mul_def
      less_eq_duration_def)

lemma next_delay_bounds: "backoff_ok b \<Longrightarrow> next_delay b = (b', d) \<Longrightarrow> Millis 250 \<le> d \<and> d \<le> Millis 5000"
  by (auto simp: backoff_ok_def next_delay_def less_eq_duration_def)

section \<open>Properties\<close>

text \<open>The delay before the k-th reconnect attempt after a reset is 250 ms doubled k
  times, capped at 5 s.\<close>

theorem backoff_schedule:
  assumes "backoff_ok b" and "k < n"
  shows "millis (delays n (reset b) ! k) = min (250 * 2 ^ k) 5000"
  using delays_nth [OF assms(2), of "reset b"] assms(1)
  by (simp add: backoff_ok_def reset_def less_eq_duration_def)

theorem backoff_schedule_witness: "millis (delays 6 (reset new_backoff) ! 4) = 4000"
  using backoff_schedule [OF backoff_ok_steps(1), of 4 6] by simp

end
