(* ===== verification/Client_Session.thy ===== *)
theory Client_Session
  imports Client_Output Handshake Reconnect
begin

text \<open>
  client/session.rs: the reader and writer halves of a connection, the connection itself
  and the reconnect loop. The tasks of one connection run concurrently; what the
  scheduler, the network, the keyboard and the terminal do is an argument: a list of
  events per task, consumed one per iteration of its loop. \<open>None\<close> as a result means that
  the task is still waiting when the list ends.
\<close>

section \<open>Keyboard input and the detach sequence\<close>

definition DETACH_PREFIX :: u8 where "DETACH_PREFIX = 0x1c"
definition DETACH_KEY :: u8 where "DETACH_KEY = 0x64"

datatype outcome = SessionEnded | Detached | Disconnected

text \<open>
  The loop over one chunk of keyboard bytes: the prefix flag, the bytes to send so far;
  \<open>None\<close> is the early return on the detach key.
\<close>

fun scan_keys :: "bool \<Rightarrow> bytes \<Rightarrow> bytes \<Rightarrow> (bool \<times> bytes) option" where
  "scan_keys pending out [] = Some (pending, out)"
| "scan_keys pending out (b # bs) =
     (if pending then
        if b = DETACH_KEY then None
        else if b = DETACH_PREFIX then scan_keys True (out @ [DETACH_PREFIX]) bs
        else scan_keys False (out @ [DETACH_PREFIX, b]) bs
      else if b = DETACH_PREFIX then scan_keys True out bs
      else scan_keys False (out @ [b]) bs)"

definition held :: "bool \<Rightarrow> bytes" where
  "held pending = (if pending then [DETACH_PREFIX] else [])"

lemma held_simps [simp]: "held True = [DETACH_PREFIX]" "held False = []"
  by (simp_all add: held_def)

lemma scan_keys_transparent:
  "scan_keys p out bs = Some (p', out') \<Longrightarrow> out @ held p @ bs = out' @ held p'"
  by (induction p out bs rule: scan_keys.induct) (auto split: if_splits)

lemma detach_key_distinct [simp]: "DETACH_KEY \<noteq> DETACH_PREFIX" "DETACH_PREFIX \<noteq> DETACH_KEY"
  by (simp_all add: DETACH_KEY_def DETACH_PREFIX_def)

lemma sublist_pair_Cons:
  "sublist [x, y] (b # bs) \<longleftrightarrow> (b = x \<and> bs \<noteq> [] \<and> hd bs = y) \<or> sublist [x, y] bs"
  by (cases bs) (auto simp: sublist_Cons_right)

lemma scan_keys_detach:
  "scan_keys p out bs = None \<longleftrightarrow> sublist [DETACH_PREFIX, DETACH_KEY] (held p @ bs)"
proof (induction p out bs rule: scan_keys.induct)
  case (1 pending out)
  then show ?case by (cases pending) (auto simp: sublist_pair_Cons)
next
  case (2 pending out b bs)
  then show ?case by (cases pending) (auto simp: sublist_pair_Cons)
qed

text \<open>Several chunks, as the loop receives them.\<close>

fun scan_chunks :: "bool \<Rightarrow> bytes list \<Rightarrow> (bool \<times> bytes list) option" where
  "scan_chunks p [] = Some (p, [])"
| "scan_chunks p (c # cs) =
     (case scan_keys p [] c of
        None \<Rightarrow> None
      | Some (p', out) \<Rightarrow>
          (case scan_chunks p' cs of None \<Rightarrow> None | Some (p'', outs) \<Rightarrow> Some (p'', out # outs)))"

lemma scan_chunks_transparent:
  "scan_chunks p cs = Some (p', outs) \<Longrightarrow> held p @ concat cs = concat outs @ held p'"
proof (induction cs arbitrary: p outs)
  case Nil
  then show ?case by simp
next
  case (Cons c cs)
  from Cons.prems obtain p1 out outs' where
      1: "scan_keys p [] c = Some (p1, out)" and 2: "scan_chunks p1 cs = Some (p', outs')"
    and "outs = out # outs'"
    by (auto split: option.splits)
  from scan_keys_transparent [OF 1] Cons.IH [OF 2] \<open>outs = _\<close> show ?case
    by (metis append.assoc append_Nil concat.simps(2))
qed

section \<open>The writer half\<close>

datatype writer_event =
    Keys "bytes option"             \<comment> \<open>a chunk of standard input, or its end\<close>
  | WindowChange "(u16 \<times> u16) option"  \<comment> \<open>a window change, and the size if it can be read\<close>
  | PongWanted bool                  \<comment> \<open>the reader saw a ping, or (\<open>False\<close>) has gone\<close>
  | Tick u64                         \<comment> \<open>the three-second timer, and the committed offset then\<close>

text \<open>The loop, for any way of putting a frame, as in the server's writer.\<close>

fun client_writer ::
  "('l \<Rightarrow> frame \<Rightarrow> 'l \<times> bool) \<Rightarrow> 'l \<Rightarrow> bool \<Rightarrow> writer_event list \<Rightarrow> 'l \<times> outcome option" where
  "client_writer put l p [] = (l, None)"
| "client_writer put l p (Keys None # evs) = (l, Some Detached)"
| "client_writer put l p (Keys (Some bs) # evs) =
     (case scan_keys p [] bs of
        None \<Rightarrow> (l, Some Detached)
      | Some (p', out) \<Rightarrow>
          if out = [] then client_writer put l p' evs
          else
            (case put l (Data out) of
               (l', False) \<Rightarrow> (l', Some Disconnected)
             | (l', True) \<Rightarrow> client_writer put l' p' evs))"
| "client_writer put l p (WindowChange None # evs) = client_writer put l p evs"
| "client_writer put l p (WindowChange (Some (c, r)) # evs) =
     (case put l (Resize c r) of
        (l', False) \<Rightarrow> (l', Some Disconnected)
      | (l', True) \<Rightarrow> client_writer put l' p evs)"
| "client_writer put l p (PongWanted wanted # evs) =
     (if \<not> wanted then (l, Some Disconnected)
      else
        (case put l Pong of
           (l', False) \<Rightarrow> (l', Some Disconnected)
         | (l', True) \<Rightarrow> client_writer put l' p evs))"
| "client_writer put l p (Tick off # evs) =
     (case put l (Ack off) of
        (l', False) \<Rightarrow> (l', Some Disconnected)
      | (l', True) \<Rightarrow>
          (case put l' Ping of
             (l'', False) \<Rightarrow> (l'', Some Disconnected)
           | (l'', True) \<Rightarrow> client_writer put l'' p evs))"

section \<open>The reader half\<close>

text \<open>
  One iteration: whether the stop signal wins the \<open>select!\<close> before a frame is read, and
  what happens to the pong request a ping causes.
\<close>

datatype pong_request = PongSent | PongClosed | StoppedFirst

record reader_turn =
  stop_first :: bool
  pong_request :: pong_request

definition unexpected_frame :: error where
  "unexpected_frame = Fatal (ProtocolError ''unexpected server frame'')"

fun client_reader ::
  "bytes \<Rightarrow> opener \<Rightarrow> session_output \<Rightarrow> reader_turn list \<Rightarrow> session_output \<times> (error + outcome) option" where
  "client_reader r op so [] = (so, None)"
| "client_reader r op so (t # ts) =
     (if stop_first t then (so, Some (Inr Disconnected))
      else
        (case read_frame r op of
           ((r', op'), Inl e) \<Rightarrow> (so, Some (Inr Disconnected))
         | ((r', op'), Inr f) \<Rightarrow>
             (case f of
                Output offset data \<Rightarrow>
                  (case accept so offset data of
                     (so', Inl e) \<Rightarrow> (so', Some (Inl e))
                   | (so', Inr u) \<Rightarrow> client_reader r' op' so' ts)
              | Ended \<Rightarrow> (so, Some (Inr SessionEnded))
              | Ping \<Rightarrow>
                  (case pong_request t of
                     PongSent \<Rightarrow> client_reader r' op' so ts
                   | PongClosed \<Rightarrow> (so, Some (Inr Disconnected))
                   | StoppedFirst \<Rightarrow> (so, Some (Inr Disconnected)))
              | Pong \<Rightarrow> client_reader r' op' so ts
              | _ \<Rightarrow> (so, Some (Inl unexpected_frame)))))"

section \<open>One connection\<close>

text \<open>
  The environment of one attempt: whether the dial succeeds, what the server's side of
  the connection delivers, how much of ours it takes, our nonce, the terminal size, the
  turns of the two halves, and which of them finishes the \<open>select!\<close>.
\<close>

record attempt =
  dial_ok :: bool
  incoming :: bytes
  outgoing :: sink
  our_nonce :: bytes
  term_size :: "(u16 \<times> u16) option"
  reader_turns :: "reader_turn list"
  writer_events :: "writer_event list"
  writer_first :: bool

definition run_halves ::
  "attempt \<Rightarrow> session_output \<Rightarrow> bytes \<Rightarrow> opener \<Rightarrow> link \<Rightarrow> session_output \<times> (error + outcome) option" where
  "run_halves a so r op l =
     (case client_reader r op so (reader_turns a) of
        (so', ro) \<Rightarrow>
          if \<not> writer_first a then (so', ro)
          else
            (case client_writer put_frame l False (writer_events a) of
               (l', None) \<Rightarrow> (so', None)
             | (l', Some wo) \<Rightarrow>
                 (case ro of
                    None \<Rightarrow> (so', None)
                  | Some (Inl e) \<Rightarrow> (so', Some (Inl e))
                  | Some (Inr o1) \<Rightarrow>
                      (so', Some (Inr (if o1 = SessionEnded then o1 else wo))))))"

definition connect_once ::
  "(bytes \<Rightarrow> cipher) \<Rightarrow> kdf \<Rightarrow> string \<Rightarrow> bytes \<Rightarrow> session_output \<Rightarrow> attempt \<Rightarrow>
     session_output \<times> (error + outcome) option" where
  "connect_once mk hkdf sid key so a =
     (if \<not> dial_ok a then (so, Some (Inl ConnectFailed))
      else
        let offset = received so in
        case client_send (outgoing a) sid (our_nonce a) offset of
          (w, Inl e) \<Rightarrow> (so, Some (Inl e))
        | (w, Inr u) \<Rightarrow>
            (case client_recv (incoming a) of
               (r, Inl e) \<Rightarrow> (so, Some (Inl e))
             | (r, Inr (server_nonce, server_total)) \<Rightarrow>
                 if offset > server_total then (so, Some (Inl (Rejected BadOffset)))
                 else
                   let k = derive_key hkdf key (our_nonce a) server_nonce;
                       sealer0 = new_sealer mk k DIR_CLIENT_TO_SERVER;
                       opener0 = new_opener mk k DIR_SERVER_TO_CLIENT in
                   case write_frame w sealer0 Hello of
                     (l, Inl e) \<Rightarrow> (so, Some (Inl e))
                   | (l, Inr u) \<Rightarrow>
                       (case read_frame r opener0 of
                          ((r1, op1), Inl e) \<Rightarrow> (so, Some (Inl e))
                        | ((r1, op1), Inr f) \<Rightarrow>
                            if f \<noteq> Hello then (so, Some (Inl (Fatal (ProtocolError ''bad server hello''))))
                            else
                              (case term_size a of
                                 None \<Rightarrow> run_halves a so r1 op1 l
                               | Some (c, rw) \<Rightarrow>
                                   (case write_frame (fst l) (snd l) (Resize c rw) of
                                      (l', Inl e) \<Rightarrow> (so, Some (Inl e))
                                    | (l', Inr u) \<Rightarrow> run_halves a so r1 op1 l')))))"

section \<open>The reconnect loop\<close>

datatype drive_result = Finished outcome | Failed error

text \<open>
  The loop of \<open>drive\<close> over the results of its attempts: the result if it returned, and
  the delays it slept before each further attempt.
\<close>

fun drive :: "backoff \<Rightarrow> bool \<Rightarrow> (error + outcome) list \<Rightarrow> drive_result option \<times> duration list" where
  "drive b established [] = (None, [])"
| "drive b established (res # rs) =
     (case res of
        Inr SessionEnded \<Rightarrow> (Some (Finished SessionEnded), [])
      | Inr Detached \<Rightarrow> (Some (Finished Detached), [])
      | Inr Disconnected \<Rightarrow>
          (case next_delay (reset b) of (b', d) \<Rightarrow>
             case drive b' True rs of (result, ds) \<Rightarrow> (result, d # ds))
      | Inl e \<Rightarrow>
          if \<not> established \<or> is_fatal e \<or> is_rejection e then (Some (Failed e), [])
          else
            (case next_delay b of (b', d) \<Rightarrow>
               case drive b' established rs of (result, ds) \<Rightarrow> (result, d # ds)))"

text \<open>The same loop with each attempt run on the output state the previous one left.\<close>

fun drive_session ::
  "(bytes \<Rightarrow> cipher) \<Rightarrow> kdf \<Rightarrow> string \<Rightarrow> bytes \<Rightarrow> session_output \<Rightarrow> bool \<Rightarrow> attempt list \<Rightarrow>
     session_output \<times> drive_result option" where
  "drive_session mk hkdf sid key so established [] = (so, None)"
| "drive_session mk hkdf sid key so established (a # as) =
     (case connect_once mk hkdf sid key so a of
        (so', None) \<Rightarrow> (so', None)
      | (so', Some (Inr Disconnected)) \<Rightarrow> drive_session mk hkdf sid key so' True as
      | (so', Some (Inr o1)) \<Rightarrow> (so', Some (Finished o1))
      | (so', Some (Inl e)) \<Rightarrow>
          if \<not> established \<or> is_fatal e \<or> is_rejection e then (so', Some (Failed e))
          else drive_session mk hkdf sid key so' established as)"

section \<open>Properties\<close>

lemma sublist_pair_append:
  "sublist [x, y] (xs @ ys) \<longleftrightarrow>
     sublist [x, y] xs \<or> sublist [x, y] ys \<or> (xs \<noteq> [] \<and> last xs = x \<and> ys \<noteq> [] \<and> hd ys = y)"
  by (induction xs) (auto simp: sublist_pair_Cons neq_Nil_conv)

lemma sublist_pair_carry:
  assumes "\<not> sublist [x, y] xs" and "q \<longleftrightarrow> xs \<noteq> [] \<and> last xs = x"
  shows "sublist [x, y] (xs @ ys) \<longleftrightarrow> sublist [x, y] ((if q then [x] else []) @ ys)"
proof (cases q)
  case True
  with assms show ?thesis
    by (simp add: sublist_pair_append [of x y xs ys] sublist_pair_Cons) blast
next
  case False
  with assms show ?thesis by (simp add: sublist_pair_append [of x y xs ys]) blast
qed

lemma scan_keys_held_last:
  "scan_keys p out bs = Some (p', out') \<Longrightarrow> bs \<noteq> [] \<Longrightarrow> p' \<longleftrightarrow> last bs = DETACH_PREFIX"
proof (induction p out bs rule: scan_keys.induct)
  case (2 pending out b bs)
  then show ?case by (cases bs) (auto split: if_splits)
qed simp

lemma scan_chunks_detach:
  "scan_chunks p cs = None \<longleftrightarrow> sublist [DETACH_PREFIX, DETACH_KEY] (held p @ concat cs)"
proof (induction cs arbitrary: p)
  case Nil
  then show ?case by (cases p) (auto simp: sublist_pair_Cons)
next
  case (Cons c cs)
  show ?case
  proof (cases "scan_keys p [] c")
    case None
    with scan_keys_detach [of p "[]" c] show ?thesis
      by (simp add: sublist_pair_append [of _ _ "held p @ c" "concat cs", simplified])
  next
    case (Some r)
    obtain p' out where r: "r = (p', out)" by force
    with Some scan_keys_detach [of p "[]" c]
    have no: "\<not> sublist [DETACH_PREFIX, DETACH_KEY] (held p @ c)" by auto
    have "p' \<longleftrightarrow> held p @ c \<noteq> [] \<and> last (held p @ c) = DETACH_PREFIX"
    proof (cases "c = []")
      case True
      with Some r show ?thesis by (cases p) auto
    next
      case False
      with scan_keys_held_last [of p "[]" c p' out] Some r show ?thesis by simp
    qed
    from no this have "sublist [DETACH_PREFIX, DETACH_KEY] ((held p @ c) @ concat cs) \<longleftrightarrow>
        sublist [DETACH_PREFIX, DETACH_KEY] (held p' @ concat cs)"
      unfolding held_def [of p'] by (rule sublist_pair_carry)
    with Cons.IH [of p'] Some r show ?thesis by (auto split: option.splits)
  qed
qed

text \<open>The keyboard is transparent: however the input is cut into chunks, the client
  detaches exactly when it contains the prefix followed by the detach key; otherwise the
  bytes sent are the bytes typed, in order, less a final prefix still held back.\<close>

theorem keyboard_transparent:
  "case scan_chunks False cs of
     None \<Rightarrow> sublist [DETACH_PREFIX, DETACH_KEY] (concat cs)
   | Some (p, outs) \<Rightarrow>
       concat cs = concat outs @ held p \<and> \<not> sublist [DETACH_PREFIX, DETACH_KEY] (concat cs)"
proof (cases "scan_chunks False cs")
  case None
  with scan_chunks_detach [of False cs] show ?thesis by simp
next
  case (Some r)
  obtain p outs where r: "r = (p, outs)" by force
  with Some scan_chunks_detach [of False cs] scan_chunks_transparent [of False cs p outs]
  show ?thesis by auto
qed

text \<open>
  What the writer half has put on the wire of the keys it was given; and the input it has
  been given by the events so far.
\<close>

fun typed :: "writer_event list \<Rightarrow> bytes" where
  "typed [] = []"
| "typed (Keys (Some bs) # evs) = bs @ typed evs"
| "typed (_ # evs) = typed evs"

fun sent_input :: "frame list \<Rightarrow> bytes" where
  "sent_input [] = []"
| "sent_input (Data bs # fs) = bs @ sent_input fs"
| "sent_input (_ # fs) = sent_input fs"

lemma sent_input_append [simp]: "sent_input (fs @ gs) = sent_input fs @ sent_input gs"
  by (induction fs rule: sent_input.induct) auto

lemma client_writer_sends_typed:
  "client_writer log_frame fs p evs = (fs', None) \<Longrightarrow>
     \<exists>p'. sent_input fs' @ held p' = sent_input fs @ held p @ typed evs"
proof (induction evs arbitrary: fs p)
  case Nil
  then show ?case by auto
next
  case (Cons ev evs)
  show ?case
  proof (cases ev)
    case (Keys inp)
    with Cons.prems obtain bs where bs: "inp = Some bs" by (cases inp) auto
    with Cons.prems Keys obtain p1 out where sc: "scan_keys p [] bs = Some (p1, out)"
      by (auto split: option.splits)
    then have "client_writer log_frame (if out = [] then fs else fs @ [Data out]) p1 evs = (fs', None)"
      using Cons.prems Keys bs by (auto simp: log_frame_fold split: if_splits)
    from Cons.IH [OF this] obtain p' where
        "sent_input fs' @ held p' = sent_input (if out = [] then fs else fs @ [Data out]) @ held p1 @ typed evs"
      by blast
    then have "sent_input fs' @ held p' = sent_input fs @ (out @ held p1) @ typed evs"
      by (simp split: if_splits)
    also have "out @ held p1 = held p @ bs"
      using scan_keys_transparent [OF sc] by simp
    finally show ?thesis using Keys bs by (intro exI [of _ p']) simp
  next
    case (WindowChange sz)
    with Cons.prems Cons.IH show ?thesis
      by (cases sz) (fastforce simp: log_frame_fold)+
  next
    case (PongWanted b)
    with Cons.prems Cons.IH [of "fs @ [Pong]" p] show ?thesis
      by (auto simp: log_frame_fold split: if_splits)
  next
    case (Tick off)
    with Cons.prems Cons.IH [of "(fs @ [Ack off]) @ [Ping]" p] show ?thesis
      by (auto simp: log_frame_fold)
  qed
qed

text \<open>The attempts after which the loop goes on.\<close>

fun goes_on :: "error + outcome \<Rightarrow> bool" where
  "goes_on (Inr res) \<longleftrightarrow> res = Disconnected"
| "goes_on (Inl e) \<longleftrightarrow> \<not> is_fatal e \<and> \<not> is_rejection e"

fun result_of :: "error + outcome \<Rightarrow> drive_result" where
  "result_of (Inr res) = Finished res"
| "result_of (Inl e) = Failed e"

lemma drive_stops:
  "drive b est rs = (Some res, ds) \<Longrightarrow> backoff_ok b \<Longrightarrow>
     \<exists>pre r post. rs = pre @ r # post \<and> length ds = length pre \<and> list_all goes_on pre \<and>
       (est \<or> pre = [] \<or> hd pre = Inr Disconnected) \<and> res = result_of r \<and>
       (\<not> goes_on r \<or> \<not> est \<and> pre = [] \<and> isl r) \<and>
       (\<forall>d \<in> set ds. Millis 250 \<le> d \<and> d \<le> Millis 5000)"
proof (induction rs arbitrary: b est ds)
  case Nil
  then show ?case by simp
next
  case (Cons r rs)
  have stop: ?case if "drive b est (r # rs) = (Some (result_of r), [])" and "\<not> goes_on r \<or> \<not> est \<and> isl r"
    using Cons.prems(1) that by (intro exI [of _ "[]"]) auto
  have go: ?case
    if "goes_on r" and "next_delay b1 = (b2, d)" and "backoff_ok b1" and "est \<or> r = Inr Disconnected"
      and "drive b2 True rs = (Some res, ds2)" and "ds = d # ds2" for b1 b2 d ds2
  proof -
    from that(2,3) have "backoff_ok b2" using backoff_ok_steps(3) [of b1] by simp
    from Cons.IH [OF that(5) this] obtain pre q post where
        "rs = pre @ q # post" "length ds2 = length pre" "list_all goes_on pre" "res = result_of q"
        "\<not> goes_on q" "\<forall>d \<in> set ds2. Millis 250 \<le> d \<and> d \<le> Millis 5000" by blast
    with that next_delay_bounds [OF that(3,2)] show ?thesis
      by (intro exI [of _ "r # pre"] exI [of _ q] exI [of _ post]) auto
  qed
  show ?case
  proof (cases r)
    case (Inl e)
    with Cons.prems stop go [of b] show ?thesis
      by (auto split: prod.splits if_splits)
  next
    case (Inr o1)
    with Cons.prems stop go [of "reset b"] backoff_ok_steps(2) [of b] show ?thesis
      by (cases o1) (auto split: prod.splits)
  qed
qed

text \<open>The reconnect loop returns the result of the first attempt it does not retry: one that is final,
  or the very first one if it fails. Before that all attempts are retried, the first of which was
  connected. It never retries a fatal error or a rejection, and sleeps between 250 ms and 5 s
  before each further attempt.\<close>

theorem drive_returns_first_final:
  assumes "drive new_backoff False rs = (Some res, ds)"
  shows "\<exists>pre r post. rs = pre @ r # post \<and> length ds = length pre \<and> list_all goes_on pre \<and>
           (pre = [] \<or> hd pre = Inr Disconnected) \<and> res = result_of r \<and>
           (\<not> goes_on r \<or> pre = [] \<and> isl r) \<and>
           (\<forall>d \<in> set ds. Millis 250 \<le> d \<and> d \<le> Millis 5000)"
  using drive_stops [OF assms backoff_ok_steps(1)] by blast

theorem drive_returns_first_final_witness:
  "\<exists>pre r post. [Inr Disconnected, Inl ConnectFailed, Inl (Rejected NoSession)] = pre @ r # post \<and>
     length [Millis 250, Millis 500] = length pre \<and> list_all goes_on pre \<and>
     (pre = [] \<or> hd pre = Inr Disconnected) \<and> Failed (Rejected NoSession) = result_of r \<and>
     (\<not> goes_on r \<or> pre = [] \<and> isl r) \<and>
     (\<forall>d \<in> set [Millis 250, Millis 500]. Millis 250 \<le> d \<and> d \<le> Millis 5000)"
  by (rule drive_returns_first_final)
    (simp add: new_backoff_def next_delay_def reset_def duration_mul_def min_def less_eq_duration_def)

text \<open>An attempt with a final result ends the loop, whatever came before.\<close>

lemma drive_ends:
  assumes "r \<in> set rs" and "\<not> goes_on r"
  shows "\<exists>res ds. drive b est rs = (Some res, ds)"
  using assms(1)
proof (induction rs arbitrary: b est)
  case (Cons x rs)
  show ?case
  proof (cases "goes_on x")
    case True
    with assms(2) Cons.prems have "r \<in> set rs" by auto
    note IH = Cons.IH [OF this]
    show ?thesis
    proof (cases x)
      case (Inl e)
      with True IH [of "fst (next_delay b)" est] show ?thesis
        by (auto split: prod.splits if_splits)
    next
      case (Inr o1)
      with True IH [of "fst (next_delay (reset b))" True] show ?thesis
        by (auto split: prod.splits)
    qed
  next
    case False
    then show ?thesis by (cases x) (auto split: outcome.splits)
  qed
qed simp

end
