(* ===== verification/Client_Run.thy ===== *)
theory Client_Run
  imports Client_Session
begin

text \<open>
  client/session.rs, the interactive client around its connections: the thread that reads
  the keyboard, the reconnect loop with the attempts it makes, and the terminal's mode
  before and after. The terminal's answers and the keyboard's reads are arguments.
\<close>

section \<open>The keyboard thread\<close>

text \<open>
  \<open>spawn_stdin_reader\<close>: each read of standard input, of at most 4096 bytes, with the result
  of handing it to the channel (\<open>False\<close> when the receiver is gone). The result is what the
  receiver gets, \<open>None\<close> being the closed channel.
\<close>

fun stdin_reader :: "((error + bytes) \<times> bool) list \<Rightarrow> bytes option list" where
  "stdin_reader [] = []"
| "stdin_reader ((Inl e, taken) # reads) = [None]"
| "stdin_reader ((Inr bs, taken) # reads) =
     (if bs = [] then [None]
      else if \<not> taken then []
      else Some bs # stdin_reader reads)"

text \<open>What the writer half gets from it is what was read, up to the end of the input.\<close>

lemma typed_append: "typed (evs @ evs') = typed evs @ typed evs'"
  by (induction evs rule: typed.induct) auto

lemma typed_stdin:
  assumes "list_all (\<lambda>b. b \<noteq> []) chunks"
  shows "typed (map Keys (stdin_reader (map (\<lambda>b. (Inr b, True)) chunks @ reads))) =
           concat chunks @ typed (map Keys (stdin_reader reads))"
  using assms by (induction chunks) auto

lemma stdin_end_detaches:
  assumes "client_writer put l p evs = (l', None)"
  shows "client_writer put l p (evs @ [Keys None]) = (l', Some Detached)"
  using assms
  by (induction put l p evs rule: client_writer.induct)
    (auto split: option.splits prod.splits bool.splits if_splits)

section \<open>The attempts of one session\<close>

text \<open>
  The results of the attempts made one after the other on the output state that the one before
  left, up to the first that does not return.
\<close>

fun attempt_results ::
  "(bytes \<Rightarrow> cipher) \<Rightarrow> kdf \<Rightarrow> string \<Rightarrow> bytes \<Rightarrow> session_output \<Rightarrow> attempt list \<Rightarrow> (error + outcome) list" where
  "attempt_results mk hkdf sid key so [] = []"
| "attempt_results mk hkdf sid key so (a # as) =
     (case connect_once mk hkdf sid key so a of
        (so', None) \<Rightarrow> []
      | (so', Some r) \<Rightarrow> r # attempt_results mk hkdf sid key so' as)"

text \<open>
  The reconnect loop that runs each connection on the output the one before left makes the
  decisions of the loop over the results alone, whatever delays that loop sleeps.
\<close>

lemma drive_session_drive:
  "snd (drive_session mk hkdf sid key so est as) =
     fst (drive b est (attempt_results mk hkdf sid key so as))"
proof (induction as arbitrary: so est b)
  case (Cons a as)
  obtain so' res where c: "connect_once mk hkdf sid key so a = (so', res)" by force
  show ?case
  proof (cases res)
    case (Some r)
    show ?thesis
    proof (cases r)
      case (Inl e)
      with c Some Cons.IH [of so' est "fst (next_delay b)"] show ?thesis
        by (auto split: prod.splits)
    next
      case (Inr o1)
      with c Some Cons.IH [of so' True "fst (next_delay (reset b))"] show ?thesis
        by (cases o1) (auto split: prod.splits)
    qed
  qed (simp add: c)
qed simp

section \<open>The terminal around the session\<close>

text \<open>Whether the terminal is in raw mode, and what was written to standard error.\<close>

record console =
  raw_mode :: bool
  error_text :: bytes

text \<open>What the loop says when it returns.\<close>

definition final_notice :: "string \<Rightarrow> drive_result \<Rightarrow> string" where
  "final_notice sid res =
     (case res of
        Finished SessionEnded \<Rightarrow> [CHR 0x0D, CHR 0x0A] @ ''[thther] session ended'' @ [CHR 0x0D, CHR 0x0A]
      | Finished Detached \<Rightarrow>
          [CHR 0x0D, CHR 0x0A] @ ''[thther] detached (session '' @ sid @ '' still running)'' @
          [CHR 0x0D, CHR 0x0A]
      | _ \<Rightarrow> [])"

text \<open>
  The calls the client makes around the loop: switching to raw mode, installing the handler
  of window changes, and leaving raw mode.
\<close>

record terminal_calls =
  raw_failure :: "error option"
  winch_failure :: "error option"
  restores :: bool

definition run_interactive ::
  "(bytes \<Rightarrow> cipher) \<Rightarrow> kdf \<Rightarrow> string \<Rightarrow> bytes \<Rightarrow> terminal_calls \<Rightarrow> attempt list \<Rightarrow> console \<Rightarrow> sink \<Rightarrow>
     (console \<times> sink \<times> (error + unit)) option" where
  "run_interactive mk hkdf sid key calls as c out =
     (case raw_failure calls of
        Some e \<Rightarrow> Some (c, out, Inl e)
      | None \<Rightarrow>
          (case (case winch_failure calls of
                   Some e \<Rightarrow> (new_output out, Some (Failed e))
                 | None \<Rightarrow> drive_session mk hkdf sid key (new_output out) False as) of
             (so, None) \<Rightarrow> None
           | (so, Some res) \<Rightarrow>
               Some (\<lparr>raw_mode = \<not> restores calls,
                      error_text = error_text c @ as_bytes (final_notice sid res)\<rparr>,
                     fst (write_all (writer so) [0x0A]),
                     case res of Finished o1 \<Rightarrow> Inr () | Failed e \<Rightarrow> Inl e)))"

section \<open>Properties\<close>

text \<open>C34. The client returns and gives the terminal back: if one attempt has a final
  result, or the very first one fails, the interactive session ends with the result of the first attempt
  that is not retried, the terminal out of raw mode if it can be, whether or not standard output still
  works. That attempt has a final result (the session has ended, the user has detached, a fatal error,
  a rejection) or is the very first one and fails; all before it are disconnected or fail
  with an error that is not final, and the first of those was connected.\<close>

theorem interactive_session_returns:
  assumes "r \<in> set (attempt_results mk hkdf sid key (new_output out) as)"
    and "\<not> goes_on r \<or> (\<exists>e es. attempt_results mk hkdf sid key (new_output out) as = Inl e # es)"
    and "raw_failure calls = None" and "winch_failure calls = None"
  shows "\<exists>c' out' res pre q post. run_interactive mk hkdf sid key calls as c out = Some (c', out', res) \<and>
           raw_mode c' = (\<not> restores calls) \<and>
           attempt_results mk hkdf sid key (new_output out) as = pre @ q # post \<and>
           list_all goes_on pre \<and> (pre = [] \<or> hd pre = Inr Disconnected) \<and>
           (\<not> goes_on q \<or> pre = [] \<and> isl q) \<and>
           res = (case q of Inl e \<Rightarrow> Inl e | Inr o1 \<Rightarrow> Inr ())"
proof -
  let ?rs = "attempt_results mk hkdf sid key (new_output out) as"
  obtain so fin where d: "drive_session mk hkdf sid key (new_output out) False as = (so, fin)" by force
  obtain dres ds where run: "drive new_backoff False ?rs = (Some dres, ds)"
    using assms(2) drive_ends [OF assms(1), of new_backoff False] by auto
  with drive_session_drive [of mk hkdf sid key "new_output out" False as new_backoff] d
  have fin: "fin = Some dres" by simp
  from drive_stops [OF run backoff_ok_steps(1)] obtain pre q post where
      "?rs = pre @ q # post" "list_all goes_on pre" "dres = result_of q"
      "pre = [] \<or> hd pre = Inr Disconnected" "\<not> goes_on q \<or> pre = [] \<and> isl q" by blast
  moreover have "run_interactive mk hkdf sid key calls as c out =
      Some (\<lparr>raw_mode = \<not> restores calls, error_text = error_text c @ as_bytes (final_notice sid dres)\<rparr>,
        fst (write_all (writer so) [0x0A]), case dres of Finished o1 \<Rightarrow> Inr () | Failed e \<Rightarrow> Inl e)"
    by (simp add: run_interactive_def assms(3,4) d fin)
  ultimately show ?thesis
    by (intro exI conjI) (assumption | rule refl | cases q; simp)+
qed

definition refused :: attempt where
  "refused = \<lparr>dial_ok = False, incoming = [], outgoing = open_sink, our_nonce = [], term_size = None,
     reader_turns = [], writer_events = [], writer_first = False\<rparr>"

theorem interactive_session_returns_witness:
  "\<exists>c' out'. run_interactive (\<lambda>_. tag_cipher) (\<lambda>_ _ _ _. []) ''a'' []
      \<lparr>raw_failure = None, winch_failure = None, restores = True\<rparr> [refused]
      \<lparr>raw_mode = False, error_text = []\<rparr> open_sink = Some (c', out', Inl ConnectFailed) \<and> \<not> raw_mode c'"
proof -
  let ?rs = "attempt_results (\<lambda>_. tag_cipher) (\<lambda>_ _ _ _. []) ''a'' [] (new_output open_sink) [refused]"
  let ?calls = "\<lparr>raw_failure = None, winch_failure = None, restores = True\<rparr>"
  have rs: "?rs = [Inl ConnectFailed]" by (simp add: connect_once_def refused_def)
  then have "Inl ConnectFailed \<in> set ?rs" "\<not> goes_on (Inl ConnectFailed) \<or> (\<exists>e es. ?rs = Inl e # es)" by auto
  from interactive_session_returns [OF this, of ?calls "\<lparr>raw_mode = False, error_text = []\<rparr>"] rs
  show ?thesis by (auto simp: Cons_eq_append_conv simp del: attempt_results.simps)
qed

end
