(* ===== verification/Startup.thy ===== *)
theory Startup
  imports Daemon
begin

text \<open>
  The start of the daemon (\<open>run\<close> of server/daemon.rs up to its accept loops) when any
  number of processes start at once. The startup lock, the control socket's file and the
  stage each process has reached are the state; each process advances in atomic steps, in
  any interleaving, and may die at any point.
\<close>

section \<open>State\<close>

text \<open>
  \<open>Starting\<close>: before the lock. \<open>Locked\<close>: the lock is held. \<open>Checked\<close>: no live daemon
  answered. \<open>Bound\<close>: the TCP port is bound. \<open>Cleared\<close>: the stale socket file is gone.
  \<open>Published\<close>: the control socket is bound, the lock still held. \<open>Serving\<close>: the accept
  loops run.
\<close>

datatype stage =
    Starting | Locked | Checked | Bound u16 | Cleared u16 | Published u16 | Serving u16 | Exited

text \<open>
  \<open>lock_holder\<close>: who holds the exclusive \<open>flock\<close>. \<open>socket\<close>: the process whose listener
  the socket file names, if there is a file.
\<close>

record host =
  lock_holder :: "nat option"
  socket :: "nat option"
  stages :: "nat \<Rightarrow> stage"

fun listening :: "stage \<Rightarrow> bool" where
  "listening (Published q) = True"
| "listening (Serving q) = True"
| "listening _ = False"

fun holds_lock :: "stage \<Rightarrow> bool" where
  "holds_lock Starting = False"
| "holds_lock (Serving q) = False"
| "holds_lock Exited = False"
| "holds_lock _ = True"

definition fresh_host :: "nat option \<Rightarrow> host" where
  "fresh_host stale = \<lparr>lock_holder = None, socket = stale, stages = (\<lambda>_. Starting)\<rparr>"

section \<open>Steps\<close>

text \<open>\<open>UnixStream::connect(&sock_path).await.is_ok()\<close>: the file's listener is alive.\<close>

definition answers :: "host \<Rightarrow> bool" where
  "answers w \<longleftrightarrow> (case socket w of None \<Rightarrow> False | Some p \<Rightarrow> listening (stages w p))"

definition enter :: "nat \<Rightarrow> stage \<Rightarrow> host \<Rightarrow> host" where
  "enter p st w = w\<lparr>stages := (stages w)(p := st)\<rparr>"

text \<open>Returning from \<open>run\<close>, or dying: the lock's file is closed with the process.\<close>

definition leave_host :: "nat \<Rightarrow> host \<Rightarrow> host" where
  "leave_host p w =
     (enter p Exited w)\<lparr>lock_holder := (if lock_holder w = Some p then None else lock_holder w)\<rparr>"

text \<open>
  The next atomic step of process \<open>p\<close>: which ports can be bound now, its configuration
  (\<open>cfg.port\<close> already overridden), whether the old socket file can be removed (an error is
  ignored) and whether the control socket can be bound if there is no file. Waiting for the lock is a step that changes nothing.
\<close>

definition advance :: "(u16 \<Rightarrow> bool) \<Rightarrow> config \<Rightarrow> bool \<Rightarrow> bool \<Rightarrow> nat \<Rightarrow> host \<Rightarrow> host" where
  "advance can_bind cfg rm_ok uds_ok p w =
     (case stages w p of
        Starting \<Rightarrow>
          if lock_holder w = None then (enter p Locked w)\<lparr>lock_holder := Some p\<rparr> else w
      | Locked \<Rightarrow> if answers w then leave_host p w else enter p Checked w
      | Checked \<Rightarrow>
          (case bind_tcp can_bind cfg of
             Inl e \<Rightarrow> leave_host p w
           | Inr q \<Rightarrow> enter p (Bound q) w)
      | Bound q \<Rightarrow> (enter p (Cleared q) w)\<lparr>socket := (if rm_ok then None else socket w)\<rparr>
      | Cleared q \<Rightarrow>
          if uds_ok \<and> socket w = None then (enter p (Published q) w)\<lparr>socket := Some p\<rparr>
          else leave_host p w
      | Published q \<Rightarrow>
          (enter p (Serving q) w)\<lparr>lock_holder := (if lock_holder w = Some p then None else lock_holder w)\<rparr>
      | Serving q \<Rightarrow> w
      | Exited \<Rightarrow> w)"

inductive host_step :: "host \<Rightarrow> host \<Rightarrow> bool" where
  advances: "host_step w (advance can_bind cfg rm_ok uds_ok p w)"
| dies: "host_step w (leave_host p w)"

inductive host_reachable :: "host \<Rightarrow> bool" where
  fresh: "host_reachable (fresh_host stale)"
| steps: "host_reachable w \<Longrightarrow> host_step w w' \<Longrightarrow> host_reachable w'"

inductive_cases host_stepE: "host_step w w'"

section \<open>The invariant\<close>

text \<open>
  The stages under the lock are one process's; a listener is the one the socket file
  names; past the check and before publication, nobody listens.
\<close>

fun unpublished :: "stage \<Rightarrow> bool" where
  "unpublished Checked = True"
| "unpublished (Bound q) = True"
| "unpublished (Cleared q) = True"
| "unpublished _ = False"

definition host_ok :: "host \<Rightarrow> bool" where
  "host_ok w \<longleftrightarrow>
     (\<forall>p. holds_lock (stages w p) \<longleftrightarrow> lock_holder w = Some p) \<and>
     (\<forall>p. listening (stages w p) \<longrightarrow> socket w = Some p) \<and>
     (\<forall>p q. unpublished (stages w p) \<longrightarrow> \<not> listening (stages w q))"

lemma host_okD:
  assumes "host_ok w"
  shows "holds_lock (stages w p) \<longleftrightarrow> lock_holder w = Some p"
    and "listening (stages w p) \<Longrightarrow> socket w = Some p"
    and "unpublished (stages w p) \<Longrightarrow> \<not> listening (stages w q)"
  using assms by (auto simp: host_ok_def)

lemma unpublished_holds: "unpublished st \<Longrightarrow> holds_lock st"
  by (cases st) simp_all

lemma enter_sel [simp]:
  "stages (enter p st w) = (stages w)(p := st)" "socket (enter p st w) = socket w"
  "lock_holder (enter p st w) = lock_holder w"
  by (simp_all add: enter_def)

lemma host_ok_leave: "host_ok w \<Longrightarrow> host_ok (leave_host p w)"
  by (auto simp: host_ok_def leave_host_def)

lemma host_ok_advance:
  assumes "host_ok w"
  shows "host_ok (advance can_bind cfg rm_ok uds_ok p w)"
proof (cases "stages w p")
  case Starting
  show ?thesis
  proof (cases "lock_holder w = None")
    case True
    then have "\<not> holds_lock (stages w q)" for q using host_okD(1) [OF assms, of q] by simp
    then have "\<not> unpublished (stages w q)" for q using unpublished_holds by blast
    with assms Starting True show ?thesis by (auto simp: host_ok_def advance_def)
  next
    case False
    with assms Starting show ?thesis by (auto simp: advance_def)
  qed
next
  case Locked
  then have lock: "lock_holder w = Some p" using host_okD(1) [OF assms, of p] by simp
  show ?thesis
  proof (cases "answers w")
    case True
    with assms Locked show ?thesis by (simp add: advance_def host_ok_leave)
  next
    case False
    then have "\<not> listening (stages w q)" for q
      using host_okD(2) [OF assms, of q] by (auto simp: answers_def)
    with assms Locked False lock show ?thesis by (auto simp: host_ok_def advance_def)
  qed
next
  case Checked
  then have "\<not> listening (stages w q)" for q using host_okD(3) [OF assms, of p q] by simp
  with assms Checked show ?thesis
    by (auto simp: host_ok_def advance_def leave_host_def split: sum.splits)
next
  case (Bound b)
  then have "\<not> listening (stages w q)" for q using host_okD(3) [OF assms, of p q] by simp
  with assms Bound show ?thesis by (auto simp: host_ok_def advance_def)
next
  case (Cleared b)
  then have no: "\<not> listening (stages w q)" for q using host_okD(3) [OF assms, of p q] by simp
  have lock: "lock_holder w = Some p" using Cleared host_okD(1) [OF assms, of p] by simp
  have "\<not> unpublished (stages w q)" if "q \<noteq> p" for q
    using that host_okD(1) [OF assms, of q] lock unpublished_holds by auto
  with assms Cleared no lock show ?thesis
    by (auto simp: host_ok_def advance_def leave_host_def)
next
  case (Published b)
  then have lock: "lock_holder w = Some p" using host_okD(1) [OF assms, of p] by simp
  have "\<not> unpublished (stages w q)" for q
    using host_okD(3) [OF assms, of q p] Published by auto
  with assms Published lock show ?thesis by (auto simp: host_ok_def advance_def)
qed (use assms in \<open>simp_all add: advance_def\<close>)

interpretation host_steps: step_invariant host_step host_ok
  by unfold_locales (auto elim!: host_stepE simp: host_ok_advance host_ok_leave)

lemma host_reachable_runs: "host_reachable w \<Longrightarrow> \<exists>stale. host_step\<^sup>*\<^sup>* (fresh_host stale) w"
  by (induction rule: host_reachable.induct) (auto intro: rtranclp.rtrancl_into_rtrancl)

lemma host_reachable_ok: "host_reachable w \<Longrightarrow> host_ok w"
  using host_steps.keeps_runs [of "fresh_host _" w] host_reachable_runs [of w]
  by (fastforce simp: host_ok_def fresh_host_def)

section \<open>Properties\<close>

text \<open>C27. However many daemons start at once, at most one listens on the control socket, and
  while it does the socket's file names it: no other start ever unlinks or replaces it.\<close>

theorem one_daemon_owns_socket:
  assumes "host_reachable w" and "listening (stages w p)"
  shows "socket w = Some p \<and> answers w \<and>
    (listening (stages w q) \<longrightarrow> q = p) \<and> (host_step w w' \<longrightarrow> listening (stages w' p) \<longrightarrow> socket w' = Some p)"
proof -
  note ok = host_reachable_ok [OF assms(1)]
  have sock: "socket w = Some p" using host_okD(2) [OF ok assms(2)] .
  moreover have "q = p" if "listening (stages w q)" using host_okD(2) [OF ok that] sock by simp
  moreover have "socket w' = Some p" if "host_step w w'" "listening (stages w' p)"
    using host_okD(2) [OF host_reachable_ok [OF host_reachable.steps [OF assms(1) that(1)]] that(2)] .
  ultimately show ?thesis using assms(2) by (simp add: answers_def)
qed

text \<open>A start on a host with a stale socket file, and a second one that steps aside.\<close>

definition solo :: "nat \<Rightarrow> host \<Rightarrow> host" where
  "solo p = advance (\<lambda>_. True) default_config True True p"

lemma reachable_solo: "host_reachable w \<Longrightarrow> host_reachable (solo p w)"
  unfolding solo_def by (blast intro: host_reachable.steps host_step.advances)

lemma reachable_solos: "host_reachable w \<Longrightarrow> host_reachable ((solo p ^^ n) w)"
  by (induction n) (simp_all add: reachable_solo)

lemma default_bind: "bind_tcp (\<lambda>_. True) default_config = Inr 60000"
  by (simp add: bind_tcp_def bind_tcp_in_range_def default_config_def default_port_range_def
      try_ports.simps [of "\<lambda>_. True" 60000])

lemma solo_start:
  "(solo 3 ^^ 6) (fresh_host (Some 8)) =
     \<lparr>lock_holder = None, socket = Some 3, stages = (\<lambda>_. Starting)(3 := Serving 60000)\<rparr>"
  by (simp add: eval_nat_numeral solo_def advance_def fresh_host_def enter_def answers_def default_bind)

theorem one_daemon_owns_socket_witness:
  "socket ((solo 3 ^^ 6) (fresh_host (Some 8))) = Some 3"
proof -
  have "listening (stages ((solo 3 ^^ 6) (fresh_host (Some 8))) 3)" by (simp add: solo_start)
  from one_daemon_owns_socket [OF reachable_solos [OF host_reachable.fresh] this] show ?thesis by blast
qed

text \<open>The steps a holder of the lock still has before it gives the lock back.\<close>

fun steps_left :: "stage \<Rightarrow> nat" where
  "steps_left Locked = 5"
| "steps_left Checked = 4"
| "steps_left (Bound q) = 3"
| "steps_left (Cleared q) = 2"
| "steps_left (Published q) = 1"
| "steps_left _ = 0"

definition lock_returned :: "nat \<Rightarrow> host \<Rightarrow> bool" where
  "lock_returned p w \<longleftrightarrow> lock_holder w = None \<and> (\<exists>q. stages w p \<in> {Serving q, Exited})"

lemma advance_progress:
  assumes "lock_holder w = Some p" and "holds_lock (stages w p)"
  shows "lock_returned p (advance can_bind cfg rm_ok uds_ok p w) \<or>
    lock_holder (advance can_bind cfg rm_ok uds_ok p w) = Some p \<and>
    holds_lock (stages (advance can_bind cfg rm_ok uds_ok p w) p) \<and>
    steps_left (stages (advance can_bind cfg rm_ok uds_ok p w) p) < steps_left (stages w p)"
  using assms
  by (cases "stages w p") (auto simp: advance_def leave_host_def lock_returned_def split: sum.splits)

lemma lock_returned_stays: "lock_returned p w \<Longrightarrow> advance can_bind cfg rm_ok uds_ok p w = w"
  by (auto simp: lock_returned_def advance_def)

lemma lock_returned_within:
  "lock_returned p w \<or> lock_holder w = Some p \<and> holds_lock (stages w p) \<and> steps_left (stages w p) \<le> n \<Longrightarrow>
     lock_returned p ((advance can_bind cfg rm_ok uds_ok p ^^ n) w)"
proof (induction n arbitrary: w)
  case 0
  then show ?case by (cases "stages w p") auto
next
  case (Suc n)
  have "lock_returned p ((advance can_bind cfg rm_ok uds_ok p ^^ n) (advance can_bind cfg rm_ok uds_ok p w))"
  proof (rule Suc.IH)
    show "lock_returned p (advance can_bind cfg rm_ok uds_ok p w) \<or>
      lock_holder (advance can_bind cfg rm_ok uds_ok p w) = Some p \<and>
      holds_lock (stages (advance can_bind cfg rm_ok uds_ok p w) p) \<and>
      steps_left (stages (advance can_bind cfg rm_ok uds_ok p w) p) \<le> n"
      using Suc.prems advance_progress [of w p can_bind cfg rm_ok uds_ok] lock_returned_stays [of p w]
      by fastforce
  qed
  then show ?case by (simp only: funpow_Suc_right o_apply)
qed

text \<open>The startup lock is always given back: whoever holds it has, after at most five steps of
  its own, either started serving or exited, and the lock is free for the next one.\<close>

theorem startup_lock_released:
  assumes "host_reachable w" and "lock_holder w = Some p"
  shows "lock_holder ((advance can_bind cfg rm_ok uds_ok p ^^ 5) w) = None \<and>
    (\<exists>q. stages ((advance can_bind cfg rm_ok uds_ok p ^^ 5) w) p \<in> {Serving q, Exited})"
proof -
  from assms host_okD(1) [OF host_reachable_ok, of w p] have "holds_lock (stages w p)" by simp
  moreover have "steps_left st \<le> 5" for st by (cases st) simp_all
  ultimately show ?thesis
    using lock_returned_within [of p w 5] assms(2) unfolding lock_returned_def by blast
qed

theorem startup_lock_released_witness:
  "lock_holder ((solo 3 ^^ 5) ((solo 3 ^^ 1) (fresh_host None))) = None"
proof -
  have "lock_holder ((solo 3 ^^ 1) (fresh_host None)) = Some 3"
    by (simp add: solo_def advance_def fresh_host_def enter_def)
  from startup_lock_released [OF reachable_solos [OF host_reachable.fresh] this] show ?thesis
    unfolding solo_def by blast
qed

end
