(* ===== verification/Takeover.thy ===== *)
theory Takeover
  imports Session
begin

text \<open>
  The atomic accesses of \<open>become_active\<close> and \<open>leave\<close> (server/session.rs), interleaved
  over any number of connections to one session: a takeover is an increment of the epoch
  and then a store of the busy flag, a leave is a load of the epoch and then perhaps a
  store.
\<close>

section \<open>Connections and steps\<close>

text \<open>
  \<open>Incoming\<close>: authenticated, before \<open>become_active\<close>. \<open>Bumped\<close>: the epoch is taken, the
  flag not yet stored. \<open>Running\<close>: reader and writer run. \<open>Leaving\<close>: the epoch check of
  \<open>leave\<close> has succeeded, the flag is not yet cleared. \<open>Left\<close>: the task is over.
\<close>

datatype phase = Incoming | Bumped u64 | Running u64 | Leaving u64 | Left

record race =
  shared :: session
  phases :: "nat \<Rightarrow> phase"

definition race_start :: "session \<Rightarrow> race" where
  "race_start s = \<lparr>shared = s, phases = (\<lambda>_. Incoming)\<rparr>"

definition set_phase :: "nat \<Rightarrow> phase \<Rightarrow> race \<Rightarrow> race" where
  "set_phase c ph w = w\<lparr>phases := (phases w)(c := ph)\<rparr>"

text \<open>The next atomic access of connection \<open>c\<close>.\<close>

definition access :: "nat \<Rightarrow> race \<Rightarrow> race" where
  "access c w =
     (case phases w c of
        Incoming \<Rightarrow>
          (case bump_epoch (shared w) of (s', e) \<Rightarrow> (set_phase c (Bumped e) w)\<lparr>shared := s'\<rparr>)
      | Bumped e \<Rightarrow> (set_phase c (Running e) w)\<lparr>shared := set_connected True (shared w)\<rparr>
      | Running e \<Rightarrow> set_phase c (if is_current (shared w) e then Leaving e else Left) w
      | Leaving e \<Rightarrow> (set_phase c Left w)\<lparr>shared := set_connected False (shared w)\<rparr>
      | Left \<Rightarrow> w)"

text \<open>The epoch counter does not wrap in the runs considered.\<close>

inductive race_reachable :: "session \<Rightarrow> race \<Rightarrow> bool" for s where
  begin_race: "race_reachable s (race_start s)"
| accessed: "race_reachable s w \<Longrightarrow> unat (active_epoch (shared w)) + 1 < 2 ^ 64 \<Longrightarrow>
     race_reachable s (access c w)"

text \<open>Without interleaving the accesses make up the operations.\<close>

lemma access_twice_takes_over:
  assumes "phases w c = Incoming"
  shows "shared (access c (access c w)) = fst (become_active (shared w)) \<and>
         phases (access c (access c w)) c = Running (snd (become_active (shared w)))"
  using assms
  by (simp add: access_def set_phase_def become_active_def bump_epoch_def set_connected_def Let_def)

lemma access_twice_leaves:
  assumes "phases w c = Running e"
  shows "shared (access c (access c w)) = leave (shared w) e \<and> phases (access c (access c w)) c = Left"
  using assms by (simp add: access_def set_phase_def leave_def set_connected_def)

section \<open>Epochs\<close>

fun epoch_of :: "phase \<Rightarrow> u64 option" where
  "epoch_of (Bumped e) = Some e"
| "epoch_of (Running e) = Some e"
| "epoch_of (Leaving e) = Some e"
| "epoch_of _ = None"

definition epochs_ok :: "race \<Rightarrow> bool" where
  "epochs_ok w \<longleftrightarrow>
     (\<forall>c e. epoch_of (phases w c) = Some e \<longrightarrow> unat e \<le> unat (active_epoch (shared w))) \<and>
     (\<forall>c c' e. epoch_of (phases w c) = Some e \<longrightarrow> epoch_of (phases w c') = Some e \<longrightarrow> c = c')"

lemma epochs_ok_keep:
  assumes "epochs_ok w" and "active_epoch (shared w') = active_epoch (shared w)"
    and "\<And>d e. epoch_of (phases w' d) = Some e \<Longrightarrow> epoch_of (phases w d) = Some e"
  shows "epochs_ok w'"
  using assms unfolding epochs_ok_def by simp blast

lemma epochs_ok_access:
  assumes "epochs_ok w" and "unat (active_epoch (shared w)) + 1 < 2 ^ 64"
  shows "epochs_ok (access c w)"
proof (cases "phases w c")
  case Incoming
  let ?e = "active_epoch (shared w) + 1"
  have e: "unat ?e = Suc (unat (active_epoch (shared w)))"
    using assms(2) by (subst unat_add_exact) simp_all
  have old: "e' \<noteq> ?e" if "epoch_of (phases w c') = Some e'" for c' e'
    using that assms(1) e unfolding epochs_ok_def by fastforce
  have w': "access c w = w\<lparr>shared := (shared w)\<lparr>active_epoch := ?e\<rparr>, phases := (phases w)(c := Bumped ?e)\<rparr>"
    using Incoming by (simp add: access_def set_phase_def bump_epoch_def)
  show ?thesis
    unfolding epochs_ok_def w'
  proof (intro conjI allI impI)
    fix c' e'
    assume "epoch_of (phases (w\<lparr>shared := (shared w)\<lparr>active_epoch := ?e\<rparr>, phases := (phases w)(c := Bumped ?e)\<rparr>) c') = Some e'"
    then show "unat e' \<le> unat (active_epoch (shared (w\<lparr>shared := (shared w)\<lparr>active_epoch := ?e\<rparr>, phases := (phases w)(c := Bumped ?e)\<rparr>)))"
      using assms(1) e unfolding epochs_ok_def by (fastforce split: if_splits)
  next
    fix c1 c2 e'
    assume "epoch_of (phases (w\<lparr>shared := (shared w)\<lparr>active_epoch := ?e\<rparr>, phases := (phases w)(c := Bumped ?e)\<rparr>) c1) = Some e'"
      and "epoch_of (phases (w\<lparr>shared := (shared w)\<lparr>active_epoch := ?e\<rparr>, phases := (phases w)(c := Bumped ?e)\<rparr>) c2) = Some e'"
    then show "c1 = c2"
      using old assms(1) unfolding epochs_ok_def by (auto split: if_splits)
  qed
qed (auto simp: access_def set_phase_def set_connected_def split: if_splits
    intro!: epochs_ok_keep [OF assms(1)])

lemma race_epochs_ok: "race_reachable s w \<Longrightarrow> epochs_ok w"
proof (induction rule: race_reachable.induct)
  case begin_race
  then show ?case by (simp add: epochs_ok_def race_start_def)
next
  case (accessed w c)
  then show ?case by (simp add: epochs_ok_access)
qed

section \<open>Properties\<close>

text \<open>In any interleaving of takeovers and departures, at most one connection passes the epoch
  check, so two connections never both take themselves for the current one.\<close>

theorem one_current_connection:
  assumes "race_reachable s w"
    and "epoch_of (phases w c) = Some e" and "is_current (shared w) e"
    and "epoch_of (phases w c') = Some e'" and "is_current (shared w) e'"
  shows "c' = c"
  using race_epochs_ok [OF assms(1)] assms(2-5) by (auto simp: epochs_ok_def is_current_def)

definition race_session :: session where
  "race_session = new_session [] [] 80 24 0 0 []"

text \<open>The first connection runs, its leave passes the check, and the second one takes over.\<close>

definition overtaken :: race where
  "overtaken = fold access [0, 0, 0, 1, 1] (race_start race_session)"

lemma overtaken_eq:
  "overtaken = \<lparr>shared = race_session\<lparr>active_epoch := 2, connected := True\<rparr>,
     phases = (\<lambda>_. Incoming)(0 := Leaving 1, 1 := Running 2)\<rparr>"
  by (simp add: overtaken_def race_start_def access_def set_phase_def race_session_def new_session_def
      bump_epoch_def set_connected_def is_current_def fun_upd_twist)

lemma access_epoch: "unat (active_epoch (shared (access c w))) \<le> unat (active_epoch (shared w)) + 1"
proof -
  have "unat (e + 1) \<le> unat e + 1" for e :: u64 by (simp add: unat_word_ariths)
  then show ?thesis
    by (auto simp: access_def set_phase_def bump_epoch_def set_connected_def split: phase.splits)
qed

lemma run_reachable:
  "unat (active_epoch s) + length cs < 2 ^ 64 \<Longrightarrow>
     race_reachable s (fold access cs (race_start s)) \<and>
     unat (active_epoch (shared (fold access cs (race_start s)))) \<le> unat (active_epoch s) + length cs"
proof (induction cs rule: rev_induct)
  case Nil
  then show ?case by (simp add: race_reachable.begin_race) (simp add: race_start_def)
next
  case (snoc c cs)
  let ?w = "fold access cs (race_start s)"
  from snoc have r: "race_reachable s ?w" and le: "unat (active_epoch (shared ?w)) \<le> unat (active_epoch s) + length cs"
    by simp_all
  with snoc.prems have "race_reachable s (access c ?w)"
    by (intro race_reachable.accessed) simp_all
  with le access_epoch [of c ?w] show ?case by simp
qed

lemma overtaken_reachable: "race_reachable race_session overtaken"
  using run_reachable [of race_session "[0, 0, 0, 1, 1]"]
  by (simp add: overtaken_def race_session_def new_session_def)

theorem one_current_connection_witness:
  "is_current (shared overtaken) 2 \<and> epoch_of (phases overtaken 0) = Some 1 \<and>
     \<not> is_current (shared overtaken) 1"
proof -
  have run: "epoch_of (phases overtaken 1) = Some 2" "is_current (shared overtaken) 2"
    "epoch_of (phases overtaken 0) = Some 1"
    by (simp_all add: overtaken_eq is_current_def)
  have "\<not> is_current (shared overtaken) 1"
    using one_current_connection [OF overtaken_reachable run(1,2,3)] by auto
  with run show ?thesis by blast
qed

text \<open>C35. The check and the store of a departure are not one step: an old connection that passed
  the check before a takeover clears the flag after it. The new connection is then current and
  running, and the session does not count as busy, so an attach request would rotate its key.\<close>

theorem departure_can_free_successor:
  "\<exists>w c e. race_reachable race_session w \<and> phases w c = Running e \<and> is_current (shared w) e \<and>
           \<not> is_ended (shared w) \<and> \<not> is_busy (shared w)"
proof (intro exI conjI)
  show "race_reachable race_session (access 0 overtaken)"
    by (rule race_reachable.accessed [OF overtaken_reachable])
      (simp add: overtaken_eq race_session_def new_session_def)
  show "phases (access 0 overtaken) 1 = Running 2"
    by (simp add: overtaken_eq access_def set_phase_def)
  show "is_current (shared (access 0 overtaken)) 2"
    by (simp add: overtaken_eq access_def set_phase_def set_connected_def is_current_def)
  show "\<not> is_ended (shared (access 0 overtaken))"
    by (simp add: overtaken_eq access_def set_phase_def set_connected_def is_ended_def race_session_def
        new_session_def)
  show "\<not> is_busy (shared (access 0 overtaken))"
    by (simp add: overtaken_eq access_def set_phase_def set_connected_def is_busy_def)
qed

end
