(* ===== verification/Service.thy ===== *)
theory Service
  imports Daemon_Run
begin

text \<open>
  server/daemon.rs while it serves: the accept loops of \<open>run\<close>, and a whole TCP connection,
  from its handshake over its reader and writer to its leaving. \<open>Daemon_Run\<close> has the
  steps of many connections in any order; here is one of them by itself.
\<close>

section \<open>The accept loops\<close>

text \<open>
  What arrives at the two listeners, in the order in which the loops see it; a connection is
  a number. A task is started for each connection. An error of the TCP listener is logged and
  waited out; an error of the control listener is returned from \<open>run\<close>.
\<close>

datatype arrival =
    TcpAccepted nat
  | TcpAcceptError error
  | ControlAccepted nat
  | ControlAcceptError error

datatype task = TcpTask nat | ControlTask nat

fun accept_loops :: "arrival list \<Rightarrow> task list \<times> error option" where
  "accept_loops [] = ([], None)"
| "accept_loops (TcpAccepted c # arrivals) =
     (case accept_loops arrivals of (tasks, res) \<Rightarrow> (TcpTask c # tasks, res))"
| "accept_loops (TcpAcceptError e # arrivals) = accept_loops arrivals"
| "accept_loops (ControlAccepted c # arrivals) =
     (case accept_loops arrivals of (tasks, res) \<Rightarrow> (ControlTask c # tasks, res))"
| "accept_loops (ControlAcceptError e # arrivals) = ([], Some e)"

text \<open>Until the control listener fails, every connection gets its task, whatever the TCP listener does.\<close>

fun task_of :: "arrival \<Rightarrow> task list" where
  "task_of (TcpAccepted c) = [TcpTask c]"
| "task_of (ControlAccepted c) = [ControlTask c]"
| "task_of _ = []"

fun control_error :: "arrival \<Rightarrow> bool" where
  "control_error (ControlAcceptError e) = True"
| "control_error _ = False"

lemma accept_loops_all:
  "accept_loops arrivals =
     (concat (map task_of (takeWhile (\<lambda>a. \<not> control_error a) arrivals)),
      case dropWhile (\<lambda>a. \<not> control_error a) arrivals of ControlAcceptError e # later \<Rightarrow> Some e | _ \<Rightarrow> None)"
  by (induction arrivals rule: accept_loops.induct) auto

section \<open>One connection\<close>

text \<open>
  \<open>handle_tcp\<close> when nothing else touches the session: the bytes that arrive, what is taken of
  those sent, our nonce, the turns of the reader and the observations of the writer. The
  first half to return ends the \<open>select!\<close> and drops the other; the writer only sends.
\<close>

record tcp_visit =
  arriving :: bytes
  reply_to :: sink
  server_nonce :: bytes
  reads :: "serve_turn list"
  writes :: "writer_obs list"

definition handle_tcp ::
  "(bytes \<Rightarrow> cipher) \<Rightarrow> kdf \<Rightarrow> tcp_visit \<Rightarrow> server \<Rightarrow> server \<times> (error + link)" where
  "handle_tcp mk hkdf v sv =
     (case tcp_connect mk hkdf sv (arriving v) (reply_to v) (server_nonce v) of
        (sv1, Inl e) \<Rightarrow> (sv1, Inl e)
      | (sv1, Inr (c, epoch)) \<Rightarrow>
          let sv2 = on_session (at_addr c) (\<lambda>s. fst (server_reader (at_rest c) (at_opener c) s (reads v))) sv1;
              l = fst (server_writer put_frame (at_link c) (at_offset c) epoch (writes v))
          in (tcp_leave (at_addr c) epoch sv2, Inr l))"

section \<open>What it does to its session\<close>

text \<open>The reader only queues messages for the PTY.\<close>

definition only_pty :: "session \<Rightarrow> session \<Rightarrow> bool" where
  "only_pty s s' \<longleftrightarrow> (\<exists>q. s' = s\<lparr>to_pty := to_pty s @ q\<rparr>)"

lemma only_pty_refl: "only_pty s s"
  by (auto simp: only_pty_def intro: exI [of _ "[]"])

lemma only_pty_on_frame: "only_pty s (on_frame f s)"
  by (cases f) (auto simp: only_pty_def session_defs intro: exI [of _ "[]"])

lemma only_pty_trans: "only_pty s t \<Longrightarrow> only_pty t u \<Longrightarrow> only_pty s u"
  by (auto simp: only_pty_def)

lemma server_reader_only_pty: "only_pty s (fst (server_reader r op s ts))"
proof (induction ts arbitrary: r op s)
  case Nil
  then show ?case by (simp add: only_pty_refl)
next
  case (Cons t ts)
  have next_turn: "only_pty s (fst (server_reader r' op' (on_frame f s) ts))" for r' op' f
    by (rule only_pty_trans [OF only_pty_on_frame Cons.IH])
  show ?case
    using next_turn [where f = "Data _"] next_turn [where f = "Resize _ _"] next_turn [where f = Ping]
    by (auto simp: only_pty_refl split: prod.splits sum.splits frame.splits)
qed

lemma server_reader_run_steps:
  "run_step\<^sup>*\<^sup>* sv (on_session a (\<lambda>s. fst (server_reader r op s ts)) sv)"
proof -
  have same: "on_session a (\<lambda>s. s) sv = sv" for sv by (simp add: on_session_def option.map_ident)
  show ?thesis
  proof (induction ts arbitrary: r op sv)
    case Nil
    then show ?case by (simp add: same)
  next
    case (Cons t ts)
    have next_turn: "run_step\<^sup>*\<^sup>* sv (on_session a (\<lambda>s. fst (server_reader r' op' (on_frame f s) ts)) sv)"
      for r' op' f
    proof -
      have "on_session a (\<lambda>s. fst (server_reader r' op' (on_frame f s) ts)) sv =
          on_session a (\<lambda>s. fst (server_reader r' op' s ts)) (on_session a (on_frame f) sv)"
        by (simp add: on_session_def option.map_comp comp_def)
      with Cons.IH [of "on_session a (on_frame f) sv" r' op'] run_step.inputs [of sv a f] show ?thesis
        by (metis converse_rtranclp_into_rtranclp)
    qed
    obtain r' op' res where rf: "read_frame r op = ((r', op'), res)" by (metis prod.exhaust)
    show ?case
    proof (cases "idle t \<or> isl res")
      case True
      with rf show ?thesis by (cases "idle t"; cases res) (simp_all add: same)
    next
      case False
      then obtain f where f: "res = Inr f" "\<not> idle t" by (cases res) auto
      from next_turn [of r' op' f] f rf show ?thesis
        by (cases f; cases "pong_taken t") (simp_all add: same)
    qed
  qed
qed

lemma handle_tcp_steps:
  assumes "handle_tcp mk hkdf v sv = (sv', res)"
  shows "run_step\<^sup>*\<^sup>* sv sv'"
proof -
  obtain sv1 r1 where c: "tcp_connect mk hkdf sv (arriving v) (reply_to v) (server_nonce v) = (sv1, r1)" by force
  have first: "run_step\<^sup>*\<^sup>* sv sv1" by (rule r_into_rtranclp) (rule run_step.connects [OF c])
  show ?thesis
  proof (cases r1)
    case (Inl e)
    with c first assms show ?thesis by (simp add: handle_tcp_def)
  next
    case (Inr ce)
    obtain k epoch where ce: "ce = (k, epoch)" by force
    let ?sv2 = "on_session (at_addr k) (\<lambda>s. fst (server_reader (at_rest k) (at_opener k) s (reads v))) sv1"
    have "run_step ?sv2 (tcp_leave (at_addr k) epoch ?sv2)" by (rule run_step.departs)
    moreover have "sv' = tcp_leave (at_addr k) epoch ?sv2"
      using assms c Inr ce by (simp add: handle_tcp_def Let_def)
    ultimately show ?thesis
      using first server_reader_run_steps [of sv1 "at_addr k"] by (metis rtranclp.simps rtranclp_trans)
  qed
qed

section \<open>The answer to a request for a session\<close>

text \<open>A daemon that answers with a session answers with a live, idle one and its current key.\<close>

lemma unwrap_request_error: "unwrap_request p checked req = Inl r \<Longrightarrow> \<exists>m. r = ErrResponse m"
  using unwrap_request_ok [of p req checked] unwrap_request_bad [of p req checked]
  by (cases "wrappers_ok p req") auto

lemma execute_bootstrap:
  assumes "server_ok sv" and "execute_control hx n p denv sv req = Some (sv', Bootstrap q sid hexkey)"
  shows "\<exists>a s. live_session sv' sid = Some (a, s) \<and> \<not> is_busy s \<and> current_psk s = fresh_key denv \<and>
           hexkey = hx (fresh_key denv) \<and> q = p"
proof -
  from assms(2) consider
      (create) cols rows where "do_create hx n p denv sv cols rows = Some (sv', Bootstrap q sid hexkey)"
    | (attach) wanted where "do_attach hx p denv sv wanted = (sv', Bootstrap q sid hexkey)"
    by (auto simp: execute_control_def do_kill_def version_mismatch_def dest!: unwrap_request_error
        split: sum.splits prod.splits if_splits control_request.splits option.splits)
  then show ?thesis
  proof cases
    case create
    then obtain new where new: "new_session_id sv (rng denv) 0 = Some new"
      by (auto simp: do_create_def split: option.splits)
    show ?thesis
    proof (cases "spawn_error denv")
      case None
      from create do_create_eq [OF new None, of hx n p cols rows] show ?thesis
        by (auto simp: Let_def live_session_def reg_get_def is_ended_def is_busy_def current_psk_def
            new_session_def)
    next
      case (Some e)
      with create new show ?thesis by (simp add: do_create_def spawn_session_eq Let_def)
    qed
  next
    case attach
    from attach obtain a s where s: "reg_get sv wanted = Some a" "store sv a = Some s" "\<not> is_ended s" "\<not> is_busy s"
      and res: "sv' = on_session a (\<lambda>_. s\<lparr>psk := fresh_key denv\<rparr>) sv" "q = p" "sid = ident s"
        "hexkey = hx (fresh_key denv)"
      by (auto simp: do_attach_def rotate_psk_def split: option.splits if_splits bind_splits)
    from server_okD(2) [OF assms(1)] s(1,2) have "wanted = ident s" by (fastforce simp: reg_get_def)
    with s res show ?thesis
      by (auto simp: live_session_def reg_get_def is_ended_def is_busy_def current_psk_def)
  qed
qed

text \<open>Every identifier is eight hexadecimal digits.\<close>

definition idents_ok :: "server \<Rightarrow> bool" where
  "idents_ok sv \<longleftrightarrow> (\<forall>a s. store sv a = Some s \<longrightarrow> (\<exists>d. ident s = hex8 d))"

lemma new_session_id_hex:
  assumes "new_session_id sv draws i = Some sid"
  shows "\<exists>d. sid = hex8 d"
proof (rule new_session_id.raw_induct [where P = "\<lambda>sv draws i sid. \<exists>d. sid = hex8 d", OF _ assms])
  fix f sv draws i sid
  assume IH: "\<And>sv draws i sid. f sv draws i = Some sid \<Longrightarrow> \<exists>d. sid = hex8 d"
    and eq: "(let sid = hex8 (draws i) in
        if \<not> reg_contains sv sid then Some sid else f sv draws (Suc i)) = Some sid"
  show "\<exists>d. sid = hex8 d"
    using eq IH [of sv draws "Suc i" sid] by (auto simp: Let_def split: if_splits)
qed

lemma idents_ok_on_session:
  "idents_ok sv \<Longrightarrow> (\<And>s. ident (f s) = ident s) \<Longrightarrow> idents_ok (on_session a f sv)"
  by (auto simp: idents_ok_def)

lemma idents_ok_create:
  assumes "idents_ok sv" and "do_create hx n p env sv cols rows = Some (sv', resp)"
  shows "idents_ok sv'"
proof -
  from assms(2) obtain sid where sid: "new_session_id sv (rng env) 0 = Some sid"
    by (auto simp: do_create_def split: option.splits)
  show ?thesis
  proof (cases "spawn_error env")
    case None
    from do_create_eq [OF sid None, of hx n p cols rows] assms new_session_id_hex [OF sid] show ?thesis
      by (auto simp: idents_ok_def Let_def new_session_def)
  next
    case (Some e)
    with assms sid show ?thesis by (simp add: do_create_def spawn_session_eq Let_def)
  qed
qed

lemma idents_ok_execute:
  assumes "idents_ok sv" and "execute_control hx n p env sv req = Some (sv', resp)"
  shows "idents_ok sv'"
  using execute_control_cases [OF assms(2)]
proof (elim disjE exE)
  fix sid
  assume "do_attach hx p env sv sid = (sv', resp)"
  with assms(1) show ?thesis
    by (auto simp: do_attach_def rotate_psk_def idents_ok_def split: option.splits if_splits bind_splits)
next
  fix sid
  assume "do_kill sv sid = (sv', resp)"
  with assms(1) show ?thesis
    by (auto simp: do_kill_def kept_by_ops intro!: idents_ok_on_session split: option.splits)
qed (use assms(1) idents_ok_create [OF assms(1)] in auto)

lemma idents_ok_mark: "idents_ok sv \<Longrightarrow> idents_ok (mark_session_ended a sv)"
proof (cases "store sv a")
  case None
  then show "idents_ok sv \<Longrightarrow> ?thesis" by (simp add: mark_session_ended_def)
next
  case (Some s)
  then show "idents_ok sv \<Longrightarrow> ?thesis"
    by (cases "ended s") (auto simp: idents_ok_def mark_session_ended_live mark_session_ended_twice)
qed

lemma idents_ok_step:
  assumes "run_step sv sv'" and "idents_ok sv"
  shows "idents_ok sv'"
  using assms(1)
proof cases
  case (requests hx n p env req resp)
  with assms(2) show ?thesis by (blast intro: idents_ok_execute)
next
  case (connects mk hkdf r w sn res)
  from tcp_connect_cases [OF this] assms(2) show ?thesis
    by (auto simp: kept_by_ops intro!: idents_ok_on_session)
next
  case (departs a e)
  with assms(2) show ?thesis by (auto simp: tcp_leave_def kept_by_ops intro!: idents_ok_on_session)
next
  case (ends a)
  with assms(2) show ?thesis by (simp add: idents_ok_mark)
qed (use assms(2) in \<open>auto simp: kept_by_ops intro!: idents_ok_on_session\<close>)

interpretation ident_steps: step_invariant run_step idents_ok
  by unfold_locales (rule idents_ok_step)

lemma run_reachable_idents: "run_reachable sv \<Longrightarrow> idents_ok sv"
  using ident_steps.keeps_runs [OF run_reachable_runs] by (simp add: idents_ok_def empty_server_def)

text \<open>The identifier of a live session fits the hello on the wire.\<close>

lemma live_ident_fits:
  assumes "run_step\<^sup>*\<^sup>* empty_server sv" and "live_session sv sid = Some (a, s)"
  shows "length sid = SESSION_ID_LEN" and "valid_utf8 (as_bytes sid)"
proof -
  have "idents_ok sv" and "server_ok sv"
    using ident_steps.keeps_runs [OF assms(1)] daemon_steps.keeps_runs [OF assms(1)] server_ok_empty
    by (simp_all add: idents_ok_def empty_server_def)
  with live_session_SomeD [OF assms(2)] server_okD(2) [of sv sid a] obtain d where "sid = hex8 d"
    by (auto simp: idents_ok_def)
  then show "length sid = SESSION_ID_LEN" and "valid_utf8 (as_bytes sid)"
    by (simp_all add: SESSION_ID_LEN_def hex8_utf8)
qed

text \<open>A whole connection: nothing, or one session taken over and left again.\<close>

lemma handle_tcp_outcome:
  "case handle_tcp mk hkdf v sv of
     (sv', Inl e) \<Rightarrow> sv' = sv
   | (sv', Inr l) \<Rightarrow>
       \<exists>a s q. store sv a = Some s \<and> \<not> is_ended s \<and>
         sv' = sv\<lparr>store := (store sv)(a \<mapsto>
           s\<lparr>active_epoch := active_epoch s + 1, connected := False, to_pty := to_pty s @ q\<rparr>)\<rparr>"
proof -
  obtain sv1 r1 where c: "tcp_connect mk hkdf sv (arriving v) (reply_to v) (server_nonce v) = (sv1, r1)" by force
  note outcome = tcp_connect_outcome [where mk = mk and hkdf = hkdf and sv = sv and r = "arriving v" and
      w = "reply_to v" and sn = "server_nonce v", unfolded c]
  show ?thesis
  proof (cases r1)
    case (Inl e)
    with outcome c show ?thesis by (simp add: handle_tcp_def)
  next
    case (Inr ce)
    obtain k epoch where ce: "ce = (k, epoch)" by force
    from outcome Inr ce obtain s s1 where s: "store sv (at_addr k) = Some s" "\<not> ended s"
        "become_active s = (s1, epoch)" "sv1 = sv\<lparr>store := (store sv)(at_addr k \<mapsto> s1)\<rparr>" by auto
    from server_reader_only_pty [of s1 "at_rest k" "at_opener k" "reads v"] obtain q where
        q: "fst (server_reader (at_rest k) (at_opener k) s1 (reads v)) = s1\<lparr>to_pty := to_pty s1 @ q\<rparr>"
      by (auto simp: only_pty_def)
    have s1: "s1 = s\<lparr>active_epoch := active_epoch s + 1, connected := True\<rparr>" "epoch = active_epoch s + 1"
      using s(3) by (auto simp: session_defs)
    have "leave (s1\<lparr>to_pty := to_pty s1 @ q\<rparr>) epoch =
        s\<lparr>active_epoch := active_epoch s + 1, connected := False, to_pty := to_pty s @ q\<rparr>"
      unfolding s1 by (simp add: session_defs)
    with c Inr ce s q show ?thesis
      by (auto simp: handle_tcp_def Let_def tcp_leave_def on_session_def is_ended_def fun_upd_def
          intro!: exI [of _ "at_addr k"] exI [of _ q] cong: if_cong)
  qed
qed

section \<open>Properties\<close>

text \<open>C18. A TCP connection from its beginning to its end, when nothing else touches its session: either
  it is refused and the server is as it was, or one live session has been taken over and left
  again. That session is then free, its epoch one further, its PTY queue longer by what the
  client sent, and everything else of it, and every other session, is unchanged.\<close>

theorem connection_from_start_to_end:
  "case handle_tcp mk hkdf v sv of
     (sv', Inl e) \<Rightarrow> sv' = sv
   | (sv', Inr l) \<Rightarrow>
       \<exists>a s q. store sv a = Some s \<and> \<not> is_ended s \<and>
         sv' = sv\<lparr>store := (store sv)(a \<mapsto>
           s\<lparr>active_epoch := active_epoch s + 1, connected := False, to_pty := to_pty s @ q\<rparr>)\<rparr>"
  by (rule handle_tcp_outcome)

text \<open>A key that was handed out opens the session. In every reachable state, when the daemon
  answers a request with a session, a client that sends the identifier and the offset 0 is
  accepted for a live, idle session, and the key of the answer leaves both ends with the same
  connection key, in step in both directions.\<close>

theorem answered_key_opens_session:
  assumes "run_reachable sv"
    and "execute_control hx n p denv sv req = Some (sv', Bootstrap q sid hexkey)"
    and "decode_hex (hx (fresh_key denv)) = Inr (fresh_key denv)"
    and "reliable cw" and "written cw = []" and "reliable w" and "written w = []"
    and "length cn = NONCE_LEN" and "length sn = NONCE_LEN" and "\<And>k. cipher_ok (mk k)"
  shows "\<exists>key cw' w' c. decode_hex hexkey = Inr key \<and> q = p \<and>
    client_send cw sid cn 0 = (cw', Inr ()) \<and> tcp_open mk hkdf sv' (written cw') w sn = (w', Inr c) \<and>
    (\<exists>s. store sv' (at_addr c) = Some s \<and> \<not> is_ended s \<and> \<not> is_busy s \<and>
         client_recv (written w') = ([], Inr (sn, current_total s))) \<and>
    in_sync (new_sealer mk (derive_key hkdf key cn sn) DIR_CLIENT_TO_SERVER) (at_opener c) \<and>
    in_sync (snd (at_link c)) (new_opener mk (derive_key hkdf key cn sn) DIR_SERVER_TO_CLIENT)"
proof -
  from execute_bootstrap [OF run_reachable_ok [OF assms(1)] assms(2)] obtain a s where
      s: "live_session sv' sid = Some (a, s)" "\<not> is_busy s" "current_psk s = fresh_key denv"
        "hexkey = hx (fresh_key denv)" "q = p" by blast
  note live = live_session_SomeD [OF s(1)]
  from idents_ok_execute [OF run_reachable_idents [OF assms(1)] assms(2)]
    server_okD(2) [OF execute_keeps [OF run_reachable_ok [OF assms(1)] assms(2)], of sid a] live
  obtain d where "sid = hex8 d" by (auto simp: idents_ok_def)
  then have sid: "length sid = SESSION_ID_LEN" "valid_utf8 (as_bytes sid)"
    by (simp_all add: SESSION_ID_LEN_def hex8_utf8)
  from handshake_outcome [where mk = mk and hkdf = hkdf and rest = "[]",
      OF assms(4-7) sid assms(8,9) s(1), of 0] assms(10)
  obtain cw' w' c where
      "client_send cw sid cn 0 = (cw', Inr ())" "tcp_open mk hkdf sv' (written cw') w sn = (w', Inr c)"
      "\<forall>later. client_recv (written w' @ later) = (later, Inr (sn, current_total s))" "at_addr c = a"
      "in_sync (new_sealer mk (derive_key hkdf (current_psk s) cn sn) DIR_CLIENT_TO_SERVER) (at_opener c)"
      "in_sync (snd (at_link c)) (new_opener mk (derive_key hkdf (current_psk s) cn sn) DIR_SERVER_TO_CLIENT)"
    by auto
  moreover from this(3) have "client_recv (written w') = ([], Inr (sn, current_total s))"
    by (metis append_Nil2)
  ultimately show ?thesis using s live assms(3)
    by (intro exI [of _ "fresh_key denv"] exI [of _ cw'] exI [of _ w'] exI [of _ c]) (simp add: is_ended_def)
qed

theorem answered_key_opens_session_witness:
  "\<exists>c. snd (tcp_open (\<lambda>_. tag_cipher) (\<lambda>_ _ _ _. []) demo_server
       (written (fst (client_send open_sink (hex8 7) (replicate 32 1) 0))) open_sink (replicate 32 2)) = Inr c \<and>
     in_sync (snd (at_link c)) (new_opener (\<lambda>_. tag_cipher) [] DIR_SERVER_TO_CLIENT)"
proof -
  have hx: "(\<lambda>_. Inr (fresh_key demo_env) :: error + bytes) [] = Inr (fresh_key demo_env)" by simp
  have n: "length (replicate 32 1 :: bytes) = NONCE_LEN" "length (replicate 32 2 :: bytes) = NONCE_LEN"
    by (simp_all add: NONCE_LEN_def)
  have kd: "derive_key (\<lambda>_ _ _ _. []) k cn sn = []" for k cn sn by (simp add: derive_key_def)
  from answered_key_opens_session [OF run_reachable.started demo_created hx reliable_open_sink(1,2)
      reliable_open_sink(1,2) n, of "\<lambda>_. tag_cipher" "\<lambda>_ _ _ _. []"]
  show ?thesis by (auto simp: tag_cipher_ok kd)
qed

end
