(* ===== verification/Interleaving.thy ===== *)
theory Interleaving
  imports Service
begin

text \<open>
  Control requests at the grain of their accesses to shared data. Each control connection is a
  task of its own on the daemon's threads, and \<open>execute_control\<close> (server/daemon.rs) holds no
  lock over a whole request: looking an identifier up and registering it, or testing whether
  a session is busy and changing its key, are separate accesses between which other tasks run.
  Run alone, the accesses of a request are the operation of theory \<open>Daemon\<close>. Interleaved, the
  registry and the sessions stay in step but for two races, and a key can be handed out that
  no longer opens its session.
\<close>

section \<open>Tasks and their accesses\<close>

text \<open>
  A create request: drawing an identifier that is not registered (\<open>Drawing\<close>, with the number of
  the draw), starting the shell under it (\<open>Naming\<close>), registering the session that has been
  allocated (\<open>Spawned\<close>), and reading its key for the answer (\<open>Listed\<close>). An attach request:
  looking the session up (\<open>Looking\<close>), \<open>is_ended\<close> (\<open>Found\<close>), the two loads of \<open>is_busy\<close>
  (\<open>Unended\<close>, \<open>SeenConnected\<close>) and \<open>rotate_psk\<close> (\<open>Idle\<close>).
\<close>

datatype task =
    Drawing daemon_env u16 u16 nat
  | Naming daemon_env u16 u16 string
  | Spawned nat
  | Listed nat
  | Looking daemon_env string
  | Found daemon_env nat
  | Unended daemon_env nat
  | SeenConnected daemon_env nat
  | Idle daemon_env nat
  | Replied control_response

text \<open>The next access of a task. The session behind an \<open>Arc\<close> is at its address for good.\<close>

definition with_session :: "nat \<Rightarrow> server \<Rightarrow> (session \<Rightarrow> server \<times> task) \<Rightarrow> server \<times> task" where
  "with_session a sv f =
     (case store sv a of None \<Rightarrow> (sv, Replied (ErrResponse [])) | Some s \<Rightarrow> f s)"

fun task_access :: "(bytes \<Rightarrow> string) \<Rightarrow> nat \<Rightarrow> u16 \<Rightarrow> task \<Rightarrow> server \<Rightarrow> server \<times> task" where
  "task_access hx n p (Drawing env cols rows i) sv =
     (let sid = hex8 (rng env i) in
      (sv, if \<not> reg_contains sv sid then Naming env cols rows sid else Drawing env cols rows (Suc i)))"
| "task_access hx n p (Naming env cols rows sid) sv =
     (let shell = (case shell_var env of Some s \<Rightarrow> s | None \<Rightarrow> ''/bin/sh'') in
      case start_session env sid shell (max cols 1) (max rows 1) n sv of
        (sv', Inl (e, left)) \<Rightarrow> (sv', Replied (ErrResponse (''spawn failed: '' @ e)))
      | (sv', Inr (a, started_command)) \<Rightarrow> (sv', Spawned a))"
| "task_access hx n p (Spawned a) sv = (reg_insert a sv, Listed a)"
| "task_access hx n p (Listed a) sv =
     with_session a sv (\<lambda>s. (sv, Replied (Bootstrap p (ident s) (hx (current_psk s)))))"
| "task_access hx n p (Looking env sid) sv =
     (sv, case reg_get sv sid of
            None \<Rightarrow> Replied (ErrResponse ''no such session'')
          | Some a \<Rightarrow> Found env a)"
| "task_access hx n p (Found env a) sv =
     with_session a sv (\<lambda>s.
       (sv, if is_ended s then Replied (ErrResponse ''session ended'') else Unended env a))"
| "task_access hx n p (Unended env a) sv =
     with_session a sv (\<lambda>s. (sv, if connected s then SeenConnected env a else Idle env a))"
| "task_access hx n p (SeenConnected env a) sv =
     with_session a sv (\<lambda>s.
       (sv, if \<not> is_ended s then Replied (ErrResponse ''session busy (already attached)'') else Idle env a))"
| "task_access hx n p (Idle env a) sv =
     with_session a sv (\<lambda>s.
       case rotate_psk (fresh_key env) s of
         (s', k) \<Rightarrow> (on_session a (\<lambda>_. s') sv, Replied (Bootstrap p (ident s) (hx k))))"
| "task_access hx n p (Replied resp) sv = (sv, Replied resp)"

section \<open>A request alone\<close>

definition alone :: "(bytes \<Rightarrow> string) \<Rightarrow> nat \<Rightarrow> u16 \<Rightarrow> nat \<Rightarrow> server \<times> task \<Rightarrow> server \<times> task" where
  "alone hx n p k st = ((\<lambda>(sv, t). task_access hx n p t sv) ^^ k) st"

lemma alone_0 [simp]: "alone hx n p 0 st = st"
  by (simp add: alone_def)

lemma alone_Suc [simp]: "alone hx n p (Suc k) (sv, t) = alone hx n p k (task_access hx n p t sv)"
  by (cases "task_access hx n p t sv") (simp add: alone_def funpow_swap1 [symmetric] funpow_Suc_right del: funpow.simps)

lemma alone_draws:
  "(\<forall>k. i \<le> k \<longrightarrow> k < i + m \<longrightarrow> reg_contains sv (hex8 (rng env k))) \<Longrightarrow>
     alone hx n p (m + l) (sv, Drawing env cols rows i) = alone hx n p l (sv, Drawing env cols rows (i + m))"
proof (induction m arbitrary: i)
  case (Suc m)
  have "reg_contains sv (hex8 (rng env i))" using Suc.prems by simp
  moreover from Suc.prems
  have "alone hx n p (m + l) (sv, Drawing env cols rows (Suc i)) = alone hx n p l (sv, Drawing env cols rows (Suc i + m))"
    by (intro Suc.IH) auto
  ultimately show ?case by (simp add: Let_def)
qed simp

lemma create_alone:
  assumes "do_create hx n p env sv cols rows = Some (sv', resp)"
  shows "\<exists>k. alone hx n p k (sv, Drawing env cols rows 0) = (sv', Replied resp)"
proof -
  from assms obtain sid where sid: "new_session_id sv (rng env) 0 = Some sid"
    by (auto simp: do_create_def split: option.splits)
  then obtain j where j: "sid = hex8 (rng env j)" "\<not> reg_contains sv sid"
      "\<forall>k. 0 \<le> k \<longrightarrow> k < j \<longrightarrow> reg_contains sv (hex8 (rng env k))"
    unfolding new_session_id_iff by blast
  have draws: "alone hx n p (j + l) (sv, Drawing env cols rows 0) = alone hx n p l (sv, Drawing env cols rows j)" for l
    using alone_draws [of 0 j sv env] j(3) by simp
  show ?thesis
  proof (cases "spawn_error env")
    case None
    with assms sid j(1,2) draws [of 4] show ?thesis
      by (intro exI [of _ "j + 4"])
        (auto simp: do_create_def spawn_session_eq start_session_def Let_def numeral_eq_Suc with_session_def
          split: prod.splits option.splits)
  next
    case (Some e)
    with assms sid j(1,2) draws [of 2] show ?thesis
      by (intro exI [of _ "j + 2"])
        (auto simp: do_create_def spawn_session_eq start_session_def Let_def numeral_eq_Suc)
  qed
qed

lemma attach_alone:
  assumes "server_ok sv"
  shows "\<exists>k. alone hx n p k (sv, Looking env sid) =
           (fst (do_attach hx p env sv sid), Replied (snd (do_attach hx p env sv sid)))"
proof (cases "reg_get sv sid")
  case None
  then show ?thesis by (intro exI [of _ 1]) (simp add: do_attach_def)
next
  case (Some a)
  with server_okD(2) [OF assms, of sid a] obtain s where s: "store sv a = Some s" "\<not> ended s"
    by (auto simp: reg_get_def)
  show ?thesis
  proof (cases "connected s")
    case True
    with Some s show ?thesis
      by (intro exI [of _ 4])
        (simp add: do_attach_def with_session_def is_ended_def is_busy_def numeral_eq_Suc)
  next
    case False
    with Some s show ?thesis
      by (intro exI [of _ 4])
        (simp add: do_attach_def with_session_def is_ended_def is_busy_def rotate_psk_def numeral_eq_Suc)
  qed
qed

section \<open>Many tasks at once\<close>

record world =
  daemon :: server
  tasks :: "nat \<Rightarrow> task"

definition run_task :: "(bytes \<Rightarrow> string) \<Rightarrow> nat \<Rightarrow> u16 \<Rightarrow> nat \<Rightarrow> world \<Rightarrow> world" where
  "run_task hx n p i w =
     (case task_access hx n p (tasks w i) (daemon w) of
        (sv, t) \<Rightarrow> w\<lparr>daemon := sv, tasks := (tasks w)(i := t)\<rparr>)"

fun starting :: "task \<Rightarrow> bool" where
  "starting (Drawing env cols rows i) \<longleftrightarrow> i = 0"
| "starting (Looking env sid) \<longleftrightarrow> True"
| "starting _ \<longleftrightarrow> False"

text \<open>The identifier that a create request has found free and not registered yet.\<close>

fun claim :: "server \<Rightarrow> task \<Rightarrow> string option" where
  "claim sv (Naming env cols rows sid) = Some sid"
| "claim sv (Spawned a) = map_option ident (store sv a)"
| "claim sv _ = None"

text \<open>No two create requests on their way have drawn the same identifier.\<close>

definition no_collision :: "world \<Rightarrow> bool" where
  "no_collision w \<longleftrightarrow>
     (\<forall>i j sid. claim (daemon w) (tasks w i) = Some sid \<longrightarrow> claim (daemon w) (tasks w j) = Some sid \<longrightarrow> i = j)"

text \<open>
  Runs of any number of requests, with everything else the daemon does to a session between
  their accesses: connections that join or part, input, output (\<open>acts\<close>), the ends of shells
  (\<open>ends\<close>). Two things are left out, the races: a draw that collides with a request on its
  way, and the end of a shell before its session is registered.
\<close>

inductive calm :: "(bytes \<Rightarrow> string) \<Rightarrow> nat \<Rightarrow> u16 \<Rightarrow> world \<Rightarrow> bool" for hx n p where
  begins: "run_reachable (daemon w) \<Longrightarrow> \<forall>i. starting (tasks w i) \<Longrightarrow> calm hx n p w"
| moves: "calm hx n p w \<Longrightarrow> no_collision (run_task hx n p i w) \<Longrightarrow> calm hx n p (run_task hx n p i w)"
| acts: "calm hx n p w \<Longrightarrow> (\<And>s. ident (f s) = ident s \<and> ended (f s) = ended s) \<Longrightarrow>
    calm hx n p (w\<lparr>daemon := on_session a f (daemon w)\<rparr>)"
| ends: "calm hx n p w \<Longrightarrow> \<forall>i. tasks w i \<noteq> Spawned a \<Longrightarrow>
    calm hx n p (w\<lparr>daemon := mark_session_ended a (daemon w)\<rparr>)"

text \<open>What holds in them: as \<open>server_ok\<close>, but a live session may still be about to be registered.\<close>

definition calm_ok :: "world \<Rightarrow> bool" where
  "calm_ok w \<longleftrightarrow>
     (\<forall>a. next_addr (daemon w) \<le> a \<longrightarrow> store (daemon w) a = None) \<and>
     (\<forall>sid a. registry (daemon w) sid = Some a \<longrightarrow>
        (\<exists>s. store (daemon w) a = Some s \<and> ident s = sid \<and> \<not> ended s)) \<and>
     (\<forall>a s. store (daemon w) a = Some s \<longrightarrow> \<not> ended s \<longrightarrow>
        registry (daemon w) (ident s) = Some a \<or> (\<exists>i. tasks w i = Spawned a)) \<and>
     (\<forall>i sid. claim (daemon w) (tasks w i) = Some sid \<longrightarrow> registry (daemon w) sid = None) \<and>
     (\<forall>i a. tasks w i = Spawned a \<longrightarrow> (\<exists>s. store (daemon w) a = Some s \<and> \<not> ended s)) \<and>
     no_collision w"

lemma calm_okD:
  assumes "calm_ok w"
  shows "next_addr (daemon w) \<le> a \<Longrightarrow> store (daemon w) a = None"
    and "registry (daemon w) sid = Some a \<Longrightarrow> \<exists>s. store (daemon w) a = Some s \<and> ident s = sid \<and> \<not> ended s"
    and "store (daemon w) a = Some s \<Longrightarrow> \<not> ended s \<Longrightarrow>
           registry (daemon w) (ident s) = Some a \<or> (\<exists>i. tasks w i = Spawned a)"
    and "claim (daemon w) (tasks w i) = Some sid \<Longrightarrow> registry (daemon w) sid = None"
    and "tasks w i = Spawned a \<Longrightarrow> \<exists>s. store (daemon w) a = Some s \<and> \<not> ended s"
    and "no_collision w"
  using assms unfolding calm_ok_def by blast+

lemma calm_okI:
  assumes "\<And>a. next_addr (daemon w) \<le> a \<Longrightarrow> store (daemon w) a = None"
    and "\<And>sid a. registry (daemon w) sid = Some a \<Longrightarrow>
           \<exists>s. store (daemon w) a = Some s \<and> ident s = sid \<and> \<not> ended s"
    and "\<And>a s. store (daemon w) a = Some s \<Longrightarrow> \<not> ended s \<Longrightarrow>
           registry (daemon w) (ident s) = Some a \<or> (\<exists>i. tasks w i = Spawned a)"
    and "\<And>i sid. claim (daemon w) (tasks w i) = Some sid \<Longrightarrow> registry (daemon w) sid = None"
    and "\<And>i a. tasks w i = Spawned a \<Longrightarrow> \<exists>s. store (daemon w) a = Some s \<and> \<not> ended s"
    and "no_collision w"
  shows "calm_ok w"
  unfolding calm_ok_def using assms by blast

lemma calm_ok_starts:
  assumes "server_ok (daemon w)" and "\<forall>i. starting (tasks w i)"
  shows "calm_ok w"
proof -
  have no: "claim sv (tasks w i) = None" "tasks w i \<noteq> Spawned a" for sv i a
    using assms(2) [rule_format, of i] by (cases "tasks w i"; simp)+
  show ?thesis
    by (rule calm_okI) (use server_okD [OF assms(1)] no in \<open>auto simp: no_collision_def\<close>)
qed

lemma claim_on_session:
  "(\<And>s. ident (f s) = ident s) \<Longrightarrow> claim (on_session a f sv) t = claim sv t"
  by (cases t) (auto simp: option.map_comp comp_def)

lemma calm_ok_acts:
  assumes "calm_ok w" and "\<And>s. ident (f s) = ident s \<and> ended (f s) = ended s"
  shows "calm_ok (w\<lparr>daemon := on_session a f (daemon w)\<rparr>)" (is "calm_ok ?w")
proof (rule calm_okI)
  note c = claim_on_session [of f a "daemon w"]
  have st: "\<exists>s'. store (daemon ?w) b = Some s' \<and> ident s' = ident s \<and> ended s' = ended s"
    if "store (daemon w) b = Some s" for b s
    using that assms(2) by auto
  show "store (daemon ?w) b = None" if "next_addr (daemon ?w) \<le> b" for b
    using calm_okD(1) [OF assms(1), of b] that by auto
  show "\<exists>s. store (daemon ?w) b = Some s \<and> ident s = sid \<and> \<not> ended s"
    if "registry (daemon ?w) sid = Some b" for sid b
    using calm_okD(2) [OF assms(1), of sid b] that st [of b] by fastforce
  show "registry (daemon ?w) (ident s) = Some b \<or> (\<exists>i. tasks ?w i = Spawned b)"
    if "store (daemon ?w) b = Some s" "\<not> ended s" for b s
    using calm_okD(3) [OF assms(1), of b] that assms(2) by (cases "b = a") auto
  show "registry (daemon ?w) sid = None" if "claim (daemon ?w) (tasks ?w i) = Some sid" for i sid
    using calm_okD(4) [OF assms(1), of i sid] that assms(2) c by simp
  show "\<exists>s. store (daemon ?w) b = Some s \<and> \<not> ended s" if "tasks ?w i = Spawned b" for i b
    using calm_okD(5) [OF assms(1), of i b] that st [of b] by fastforce
  show "no_collision ?w"
    using calm_okD(6) [OF assms(1)] assms(2) c unfolding no_collision_def by simp
qed

lemma claim_unspawned:
  assumes "\<And>a. t = Spawned a \<Longrightarrow> store sv' a = store sv a"
  shows "claim sv' t = claim sv t"
  using assms by (cases t) auto

lemma calm_ok_ends:
  assumes "calm_ok w" and "\<forall>i. tasks w i \<noteq> Spawned a"
  shows "calm_ok (w\<lparr>daemon := mark_session_ended a (daemon w)\<rparr>)" (is "calm_ok ?w")
proof (cases "\<exists>s. store (daemon w) a = Some s \<and> \<not> ended s")
  case False
  then have "mark_session_ended a (daemon w) = daemon w"
    by (cases "store (daemon w) a") (simp_all add: mark_session_ended_twice, simp add: mark_session_ended_def)
  with assms(1) show ?thesis by simp
next
  case True
  then obtain s where s: "store (daemon w) a = Some s" "\<not> ended s" by blast
  note eq = mark_session_ended_live [OF s]
  have reg: "registry (daemon w) (ident s) = Some a" using calm_okD(3) [OF assms(1) s] assms(2) by blast
  have c: "claim (mark_session_ended a (daemon w)) (tasks w i) = claim (daemon w) (tasks w i)" for i
    using assms(2) by (intro claim_unspawned) (auto simp: eq)
  show ?thesis
  proof (rule calm_okI)
    show "store (daemon ?w) b = None" if "next_addr (daemon ?w) \<le> b" for b
      using calm_okD(1) [OF assms(1), of b] that s by (auto simp: eq)
    show "\<exists>s. store (daemon ?w) b = Some s \<and> ident s = sid \<and> \<not> ended s"
      if "registry (daemon ?w) sid = Some b" for sid b
      using calm_okD(2) [OF assms(1), of sid b] that s by (auto simp: eq split: if_splits)
    show "registry (daemon ?w) (ident t) = Some b \<or> (\<exists>i. tasks ?w i = Spawned b)"
      if "store (daemon ?w) b = Some t" "\<not> ended t" for b t
      using calm_okD(3) [OF assms(1), of b t] that reg by (auto simp: eq split: if_splits)
    show "registry (daemon ?w) sid = None" if "claim (daemon ?w) (tasks ?w i) = Some sid" for i sid
      using calm_okD(4) [OF assms(1), of i sid] that c by (simp add: eq)
    show "\<exists>s. store (daemon ?w) b = Some s \<and> \<not> ended s" if "tasks ?w i = Spawned b" for i b
      using calm_okD(5) [OF assms(1), of i b] that assms(2) by (auto simp: eq)
    show "no_collision ?w"
      using calm_okD(6) [OF assms(1)] c unfolding no_collision_def by simp
  qed
qed

text \<open>A task moves on without a change of the server, and is not about to register a session.\<close>

lemma calm_ok_retask:
  assumes "calm_ok w" and "\<And>a. tasks w i \<noteq> Spawned a" and "\<And>a. t \<noteq> Spawned a"
    and "\<And>sid. claim (daemon w) t = Some sid \<Longrightarrow> registry (daemon w) sid = None"
    and "no_collision (w\<lparr>tasks := (tasks w)(i := t)\<rparr>)"
  shows "calm_ok (w\<lparr>tasks := (tasks w)(i := t)\<rparr>)" (is "calm_ok ?w")
proof (rule calm_okI)
  show "registry (daemon ?w) (ident s) = Some b \<or> (\<exists>j. tasks ?w j = Spawned b)"
    if "store (daemon ?w) b = Some s" "\<not> ended s" for b s
    using calm_okD(3) [OF assms(1), of b s] that assms(2) by (auto simp: fun_upd_def) metis
  show "registry (daemon ?w) sid = None" if "claim (daemon ?w) (tasks ?w j) = Some sid" for j sid
    using calm_okD(4) [OF assms(1), of j sid] assms(4) that by (auto split: if_splits)
  show "\<exists>s. store (daemon ?w) b = Some s \<and> \<not> ended s" if "tasks ?w j = Spawned b" for j b
    using calm_okD(5) [OF assms(1), of j b] assms(3) that by (auto split: if_splits)
qed (use assms(5) calm_okD(1,2) [OF assms(1)] in auto)

lemma calm_ok_spawns:
  assumes "calm_ok w" and "claim (daemon w) (tasks w i) = Some (ident s)" and "\<And>a. tasks w i \<noteq> Spawned a"
    and "\<not> ended s" and "alloc s (daemon w) = (sv, a)"
    and "no_collision (w\<lparr>daemon := sv, tasks := (tasks w)(i := Spawned a)\<rparr>)"
  shows "calm_ok (w\<lparr>daemon := sv, tasks := (tasks w)(i := Spawned a)\<rparr>)" (is "calm_ok ?w")
proof -
  have st: "store sv = (store (daemon w))(a \<mapsto> s)" "registry sv = registry (daemon w)"
    and a: "a = next_addr (daemon w)" "next_addr sv = Suc a"
    using assms(5) by (auto simp: alloc_def)
  have none: "store (daemon w) a = None" using calm_okD(1) [OF assms(1), of a] a by simp
  have claims: "claim sv (tasks w j) = claim (daemon w) (tasks w j)" for j
    using calm_okD(5) [OF assms(1), of j] none by (intro claim_unspawned) (auto simp: st)
  show ?thesis
  proof (rule calm_okI)
    show "store (daemon ?w) b = None" if "next_addr (daemon ?w) \<le> b" for b
      using calm_okD(1) [OF assms(1), of b] that a by (auto simp: st)
    show "\<exists>s. store (daemon ?w) b = Some s \<and> ident s = sid \<and> \<not> ended s"
      if "registry (daemon ?w) sid = Some b" for sid b
      using calm_okD(2) [OF assms(1), of sid b] that none by (auto simp: st)
    show "registry (daemon ?w) (ident t) = Some b \<or> (\<exists>j. tasks ?w j = Spawned b)"
      if t: "store (daemon ?w) b = Some t" "\<not> ended t" for b t
    proof (cases "b = a")
      case True
      then show ?thesis by auto
    next
      case False
      with t calm_okD(3) [OF assms(1), of b t] assms(3) show ?thesis by (auto simp: st) metis
    qed
    show "registry (daemon ?w) sid = None" if "claim (daemon ?w) (tasks ?w j) = Some sid" for j sid
      using calm_okD(4) [OF assms(1), of j sid] calm_okD(4) [OF assms(1,2)] claims [of j] that
      by (auto simp: st split: if_splits)
    show "\<exists>s. store (daemon ?w) b = Some s \<and> \<not> ended s" if "tasks ?w j = Spawned b" for j b
      using calm_okD(5) [OF assms(1), of j b] assms(4) that by (auto simp: st split: if_splits)
  qed (use assms(6) in simp)
qed

lemma calm_ok_registers:
  assumes "calm_ok w" and "tasks w i = Spawned a"
    and "no_collision (w\<lparr>daemon := reg_insert a (daemon w), tasks := (tasks w)(i := Listed a)\<rparr>)"
  shows "calm_ok (w\<lparr>daemon := reg_insert a (daemon w), tasks := (tasks w)(i := Listed a)\<rparr>)" (is "calm_ok ?w")
proof -
  from calm_okD(5) [OF assms(1,2)] obtain s where s: "store (daemon w) a = Some s" "\<not> ended s" by blast
  have ins: "reg_insert a (daemon w) = (daemon w)\<lparr>registry := (registry (daemon w))(ident s \<mapsto> a)\<rparr>"
    using s(1) by (simp add: reg_insert_def)
  have mine: "claim (daemon w) (tasks w i) = Some (ident s)" by (simp add: assms(2) s(1))
  have claims: "claim (reg_insert a (daemon w)) t = claim (daemon w) t" for t
    by (intro claim_unspawned) (simp add: ins)
  have other: "claim (daemon w) (tasks w j) \<noteq> Some (ident s)" if "j \<noteq> i" for j
    using calm_okD(6) [OF assms(1)] mine that unfolding no_collision_def by blast
  show ?thesis
  proof (rule calm_okI)
    show "store (daemon ?w) b = None" if "next_addr (daemon ?w) \<le> b" for b
      using calm_okD(1) [OF assms(1), of b] that by (simp add: ins)
    show "\<exists>s. store (daemon ?w) b = Some s \<and> ident s = sid \<and> \<not> ended s"
      if "registry (daemon ?w) sid = Some b" for sid b
      using calm_okD(2) [OF assms(1), of sid b] that s by (auto simp: ins split: if_splits)
    show "registry (daemon ?w) (ident t) = Some b \<or> (\<exists>j. tasks ?w j = Spawned b)"
      if t: "store (daemon ?w) b = Some t" "\<not> ended t" for b t
    proof (cases "b = a")
      case True
      with t s show ?thesis by (simp add: ins)
    next
      case False
      from t have "store (daemon w) b = Some t" by (simp add: ins)
      from calm_okD(3) [OF assms(1) this t(2)] show ?thesis
      proof
        assume "registry (daemon w) (ident t) = Some b"
        moreover from calm_okD(4) [OF assms(1) mine] this have "ident t \<noteq> ident s" by auto
        ultimately show ?thesis by (simp add: ins)
      next
        assume "\<exists>j. tasks w j = Spawned b"
        then obtain j where "tasks w j = Spawned b" by blast
        with False assms(2) have "tasks ?w j = Spawned b" by auto
        then show ?thesis by blast
      qed
    qed
    show "registry (daemon ?w) sid = None" if "claim (daemon ?w) (tasks ?w j) = Some sid" for j sid
      using calm_okD(4) [OF assms(1), of j sid] other [of j] claims [of "tasks w j"] that
      by (auto simp: ins split: if_splits)
    show "\<exists>s. store (daemon ?w) b = Some s \<and> \<not> ended s" if "tasks ?w j = Spawned b" for j b
      using calm_okD(5) [OF assms(1), of j b] that by (auto simp: ins split: if_splits)
  qed (use assms(3) in simp)
qed

text \<open>Every access keeps the invariant, as long as no two requests collide.\<close>

lemma same_daemon: "w\<lparr>daemon := daemon w, tasks := ts\<rparr> = w\<lparr>tasks := ts\<rparr>"
  by simp

fun is_spawned :: "task \<Rightarrow> bool" where
  "is_spawned (Spawned a) \<longleftrightarrow> True"
| "is_spawned _ \<longleftrightarrow> False"

fun quiet :: "task \<Rightarrow> bool" where
  "quiet (Drawing env cols rows i) \<longleftrightarrow> False"
| "quiet (Naming env cols rows sid) \<longleftrightarrow> False"
| "quiet (Spawned a) \<longleftrightarrow> False"
| "quiet (Idle env a) \<longleftrightarrow> False"
| "quiet _ \<longleftrightarrow> True"

lemma quiet_access:
  "quiet t \<Longrightarrow> \<exists>t'. task_access hx n p t sv = (sv, t') \<and> \<not> is_spawned t \<and> \<not> is_spawned t' \<and> claim sv t' = None"
  by (cases t) (auto simp: with_session_def split: option.splits)

text \<open>What an access does, in the four ways that matter.\<close>

lemma task_access_cases:
  obtains (stays) t' where "task_access hx n p t sv = (sv, t')" and "\<not> is_spawned t" and "\<not> is_spawned t'"
      and "\<forall>sid. claim sv t' = Some sid \<longrightarrow> registry sv sid = None"
  | (rekeys) a k resp where "task_access hx n p t sv = (on_session a (\<lambda>s. s\<lparr>psk := k\<rparr>) sv, Replied resp)"
      and "\<not> is_spawned t" and "\<exists>env. t = Idle env a"
  | (spawns) s sv' a where "task_access hx n p t sv = (sv', Spawned a)" and "alloc s sv = (sv', a)"
      and "claim sv t = Some (ident s)" and "\<not> ended s" and "\<not> is_spawned t"
  | (registers) a where "task_access hx n p t sv = (reg_insert a sv, Listed a)" and "t = Spawned a"
proof (cases t)
  case (Drawing env cols rows i)
  then show ?thesis by (intro stays) (auto simp: Let_def reg_contains_def split: if_splits)
next
  case (Naming env cols rows sid)
  show ?thesis
  proof (cases "spawn_error env")
    case None
    let ?s = "new_session sid (case shell_var env of Some s \<Rightarrow> s | None \<Rightarrow> ''/bin/sh'')
      (max cols 1) (max rows 1) n (clock env) (fresh_key env)"
    obtain sv' a where "alloc ?s sv = (sv', a)" by force
    with Naming None show ?thesis by (intro spawns [of sv' a ?s]) (simp_all add: Let_def start_session_def new_session_def)
  next
    case (Some e)
    with Naming show ?thesis by (intro stays) (auto simp: start_session_def)
  qed
next
  case (Spawned a)
  then show ?thesis by (intro registers) auto
next
  case (Idle env a)
  show ?thesis
  proof (cases "store sv a")
    case None
    with Idle show ?thesis by (intro stays) (auto simp: with_session_def)
  next
    case (Some s)
    then have "on_session a (\<lambda>_. s\<lparr>psk := fresh_key env\<rparr>) sv = on_session a (\<lambda>s. s\<lparr>psk := fresh_key env\<rparr>) sv"
      by (simp add: on_session_def)
    with Some Idle show ?thesis by (intro rekeys) (auto simp: with_session_def rotate_psk_def)
  qed
qed (use quiet_access [of t hx n p sv] stays in auto)

lemma calm_ok_moves:
  assumes "calm_ok w" and "no_collision (run_task hx n p i w)"
  shows "calm_ok (run_task hx n p i w)"
proof (rule task_access_cases [of hx n p "tasks w i" "daemon w"])
  fix t'
  assume acc: "task_access hx n p (tasks w i) (daemon w) = (daemon w, t')" "\<not> is_spawned (tasks w i)"
    "\<not> is_spawned t'" "\<forall>sid. claim (daemon w) t' = Some sid \<longrightarrow> registry (daemon w) sid = None"
  then have eq: "run_task hx n p i w = w\<lparr>tasks := (tasks w)(i := t')\<rparr>" by (simp add: run_task_def)
  show ?thesis
    unfolding eq by (rule calm_ok_retask [OF assms(1)]) (use acc assms(2) eq in auto)
next
  fix a k resp
  assume acc: "task_access hx n p (tasks w i) (daemon w) =
      (on_session a (\<lambda>s. s\<lparr>psk := k\<rparr>) (daemon w), Replied resp)" "\<not> is_spawned (tasks w i)"
  let ?w = "w\<lparr>daemon := on_session a (\<lambda>s. s\<lparr>psk := k\<rparr>) (daemon w)\<rparr>"
  from acc have eq: "run_task hx n p i w = ?w\<lparr>tasks := (tasks ?w)(i := Replied resp)\<rparr>"
    by (simp add: run_task_def)
  have ok: "calm_ok ?w" by (rule calm_ok_acts [OF assms(1)]) simp
  show ?thesis
    unfolding eq by (rule calm_ok_retask [OF ok]) (use acc(2) assms(2) eq in auto)
next
  fix s sv a
  assume acc: "task_access hx n p (tasks w i) (daemon w) = (sv, Spawned a)" "alloc s (daemon w) = (sv, a)"
    "claim (daemon w) (tasks w i) = Some (ident s)" "\<not> ended s" "\<not> is_spawned (tasks w i)"
  then have eq: "run_task hx n p i w = w\<lparr>daemon := sv, tasks := (tasks w)(i := Spawned a)\<rparr>"
    by (simp add: run_task_def)
  have "\<And>b. tasks w i \<noteq> Spawned b" using acc(5) by auto
  from calm_ok_spawns [OF assms(1) acc(3) this acc(4,2)] assms(2) show ?thesis unfolding eq by blast
next
  fix a
  assume acc: "task_access hx n p (tasks w i) (daemon w) = (reg_insert a (daemon w), Listed a)"
    "tasks w i = Spawned a"
  then have eq: "run_task hx n p i w =
      w\<lparr>daemon := reg_insert a (daemon w), tasks := (tasks w)(i := Listed a)\<rparr>"
    by (simp add: run_task_def)
  from calm_ok_registers [OF assms(1) acc(2)] assms(2) show ?thesis unfolding eq by blast
qed

lemma calm_is_ok: "calm hx n p w \<Longrightarrow> calm_ok w"
proof (induction rule: calm.induct)
  case (begins w)
  then show ?case by (blast intro: calm_ok_starts run_reachable_ok)
qed (blast intro: calm_ok_moves calm_ok_acts calm_ok_ends)+

section \<open>Properties\<close>

text \<open>The accesses of a request, with nothing in between, are the request: a create request draws,
  starts, registers and answers as \<open>execute_control\<close> says, an attach request looks up, tests and
  rotates, in at most four accesses beyond the draws.\<close>

theorem request_alone_is_atomic:
  assumes "server_ok sv" and "admitted p req" and "execute_control hx n p env sv req = Some (sv', resp)"
    and "inner_request req = Create cols rows \<and> t = Drawing env cols rows 0 \<or>
         inner_request req = Attach sid \<and> t = Looking env sid"
  shows "\<exists>k. alone hx n p k (sv, t) = (sv', Replied resp)"
  using assms(4)
proof (elim disjE conjE)
  assume "inner_request req = Create cols rows" "t = Drawing env cols rows 0"
  with assms(3) create_alone [of hx n p env sv cols rows sv' resp] show ?thesis
    by (simp add: execute_admitted [OF assms(2)])
next
  assume "inner_request req = Attach sid" "t = Looking env sid"
  with assms(3) attach_alone [OF assms(1), of hx n p env sid] show ?thesis
    by (simp add: execute_admitted [OF assms(2)])
qed


theorem request_alone_is_atomic_witness:
  "\<exists>k. alone (\<lambda>_. []) 16 1 k (empty_server, Drawing demo_env 80 24 0) = (demo_server, Replied (Bootstrap 1 (hex8 7) []))"
  by (rule request_alone_is_atomic [OF server_ok_empty _ demo_created, where cols = 80 and rows = 24])
    (simp_all add: admitted_def)

text \<open>Two clients create sessions at once, under different draws; neither is registered yet.\<close>

definition two_clients :: world where
  "two_clients = \<lparr>daemon = empty_server,
     tasks = (\<lambda>i. if i = 0 then Drawing demo_env 80 24 0 else Drawing (demo_env\<lparr>rng := (\<lambda>_. 8)\<rparr>) 80 24 0)\<rparr>"

lemma hex8_7_8: "hex8 7 \<noteq> hex8 8"
proof
  assume "hex8 7 = hex8 8"
  then have "last (hex8 7) = last (hex8 8)" by simp
  then show False by (simp add: hex8_def hex_digit_def)
qed

lemma two_clients_calm:
  "calm (\<lambda>_. []) 16 1 (fold (run_task (\<lambda>_. []) 16 1) [0, 1, 0, 1] two_clients)"
proof -
  let ?run = "run_task (\<lambda>_. []) 16 1"
  note sim = run_task_def two_clients_def no_collision_def Let_def empty_server_def demo_env_def reg_contains_def
    start_session_def alloc_def new_session_def
  have 0: "calm (\<lambda>_. []) 16 1 two_clients"
    by (rule calm.begins) (simp_all add: two_clients_def run_reachable.started)
  have 1: "calm (\<lambda>_. []) 16 1 (?run 0 two_clients)"
    by (rule calm.moves [OF 0]) (auto simp: sim split: if_splits)
  have 2: "calm (\<lambda>_. []) 16 1 (?run 1 (?run 0 two_clients))"
    by (rule calm.moves [OF 1]) (use hex8_7_8 in \<open>auto simp: sim split: if_splits\<close>)
  have 3: "calm (\<lambda>_. []) 16 1 (?run 0 (?run 1 (?run 0 two_clients)))"
    by (rule calm.moves [OF 2]) (use hex8_7_8 in \<open>auto simp: sim split: if_splits\<close>)
  have "calm (\<lambda>_. []) 16 1 (?run 1 (?run 0 (?run 1 (?run 0 two_clients))))"
    by (rule calm.moves [OF 3]) (use hex8_7_8 in \<open>auto simp: sim split: if_splits\<close>)
  then show ?thesis by simp
qed


text \<open>C36. Two create requests that draw the same identifier while neither is registered both get a session
  and an answer under it. The first session then is not in the registry although its shell runs:
  no request and no connection can reach it. When it ends, the second one goes from the registry
  too and cannot be reached either.\<close>

theorem same_draw_displaces_session:
  assumes "server_ok (daemon w)" and "tasks w i = Drawing env c r 0" and "tasks w j = Drawing env' c' r' 0"
    and "i \<noteq> j" and "rng env 0 = d" and "rng env' 0 = d" and "\<not> reg_contains (daemon w) (hex8 d)"
    and "spawn_error env = None" and "spawn_error env' = None"
  shows "\<exists>w' a b s s'. w' = fold (run_task hx n p) [i, j, i, j, i, j, i, j] w \<and>
    tasks w' i = Replied (Bootstrap p (hex8 d) (hx (psk s))) \<and>
    tasks w' j = Replied (Bootstrap p (hex8 d) (hx (psk s'))) \<and>
    store (daemon w') a = Some s \<and> store (daemon w') b = Some s' \<and> \<not> is_ended s \<and> \<not> is_ended s' \<and>
    (\<forall>sid. reg_get (daemon w') sid \<noteq> Some a) \<and>
    store (mark_session_ended a (daemon w')) b = Some s' \<and>
    (\<forall>sid. reg_get (mark_session_ended a (daemon w')) sid \<noteq> Some b)"
proof -
  let ?sv = "daemon w" and ?a = "next_addr (daemon w)"
  let ?new = "\<lambda>e c r. new_session (hex8 d) (case shell_var e of Some s \<Rightarrow> s | None \<Rightarrow> ''/bin/sh'')
      (max c 1) (max r 1) n (clock e) (fresh_key e)"
  let ?s = "?new env c r" and ?s' = "?new env' c' r'"
  let ?sv' = "?sv\<lparr>store := (store ?sv)(?a \<mapsto> ?s, Suc ?a \<mapsto> ?s'), next_addr := Suc (Suc ?a),
    registry := (registry ?sv)(hex8 d \<mapsto> Suc ?a)\<rparr>"
  let ?w = "fold (run_task hx n p) [i, j, i, j, i, j, i, j] w"
  have w': "daemon ?w = ?sv'" "tasks ?w i = Replied (Bootstrap p (hex8 d) (hx (psk ?s)))"
    "tasks ?w j = Replied (Bootstrap p (hex8 d) (hx (psk ?s')))"
    using assms(2-9)
    by (simp_all add: run_task_def Let_def start_session_def alloc_def reg_insert_def with_session_def new_session_def
        current_psk_def fun_upd_twist)
  have old: "registry ?sv sid \<noteq> Some ?a \<and> registry ?sv sid \<noteq> Some (Suc ?a)" for sid
    using server_okD(1) [OF assms(1), of ?a] server_okD(1) [OF assms(1), of "Suc ?a"]
      server_okD(2) [OF assms(1), of sid] by auto
  have live: "\<not> ended ?s" "ident ?s = hex8 d" "\<not> ended ?s'" by (simp_all add: new_session_def)
  have st: "store ?sv' ?a = Some ?s" by simp
  note ends = mark_session_ended_live [OF st live(1)]
  show ?thesis
    using w' old live
    by (intro exI [of _ ?w] exI [of _ ?a] exI [of _ "Suc ?a"] exI [of _ ?s] exI [of _ ?s'] conjI)
      (simp_all add: ends [unfolded live(2)] reg_get_def is_ended_def del: fold.simps)
qed

text \<open>C37. The test whether a session is busy and the change of its key are not one step. Two attach
  requests for an idle session that run at the same time are both answered with a key, and the
  key of the first one is not the session's. And if a client that has the session's key connects
  between test and change, the key of its running connection is changed all the same.\<close>

theorem busy_test_races_rotation:
  assumes "store (daemon w) a = Some s" and "reg_get (daemon w) sid = Some a" and "\<not> is_ended s" and "\<not> connected s"
    and "tasks w i = Looking env sid" and "tasks w j = Looking env' sid" and "i \<noteq> j"
  shows "(\<exists>w'. w' = fold (run_task hx n p) [i, j, i, j, i, j, i, j] w \<and>
            tasks w' i = Replied (Bootstrap p (ident s) (hx (fresh_key env))) \<and>
            tasks w' j = Replied (Bootstrap p (ident s) (hx (fresh_key env'))) \<and>
            map_option current_psk (store (daemon w') a) = Some (fresh_key env')) \<and>
         (\<exists>w1 w2 t. w1 = fold (run_task hx n p) [i, i, i] w \<and>
            w2 = run_task hx n p i (w1\<lparr>daemon := fst (tcp_activate a (daemon w1))\<rparr>) \<and>
            store (daemon w2) a = Some t \<and> is_busy t \<and> is_current t (snd (tcp_activate a (daemon w1))) \<and>
            current_psk t = fresh_key env)"
proof
  note sim = run_task_def with_session_def rotate_psk_def current_psk_def on_session_def
  from assms show "\<exists>w'. w' = fold (run_task hx n p) [i, j, i, j, i, j, i, j] w \<and>
      tasks w' i = Replied (Bootstrap p (ident s) (hx (fresh_key env))) \<and>
      tasks w' j = Replied (Bootstrap p (ident s) (hx (fresh_key env'))) \<and>
      map_option current_psk (store (daemon w') a) = Some (fresh_key env')"
    by (simp add: sim is_ended_def)
  have w1: "fold (run_task hx n p) [i, i, i] w = w\<lparr>tasks := (tasks w)(i := Idle env a)\<rparr>"
    using assms by (simp add: sim is_ended_def)
  from assms show "\<exists>w1 w2 t. w1 = fold (run_task hx n p) [i, i, i] w \<and>
      w2 = run_task hx n p i (w1\<lparr>daemon := fst (tcp_activate a (daemon w1))\<rparr>) \<and>
      store (daemon w2) a = Some t \<and> is_busy t \<and> is_current t (snd (tcp_activate a (daemon w1))) \<and>
      current_psk t = fresh_key env"
    unfolding w1
    by (simp add: sim tcp_activate_def become_active_def bump_epoch_def set_connected_def is_busy_def
        is_current_def is_ended_def Let_def)
qed

theorem same_draw_displaces_session_witness:
  "\<exists>w' a b s s'. w' = fold (run_task (\<lambda>_. []) 16 1) [0, 1, 0, 1, 0, 1, 0, 1]
        \<lparr>daemon = empty_server, tasks = (\<lambda>i. Drawing demo_env 80 24 0)\<rparr> \<and>
     store (daemon w') a = Some s \<and> store (daemon w') b = Some s' \<and> \<not> is_ended s \<and>
     reg_get (daemon w') (hex8 7) \<noteq> Some a \<and> reg_get (mark_session_ended a (daemon w')) (hex8 7) \<noteq> Some b"
proof -
  let ?w = "\<lparr>daemon = empty_server, tasks = (\<lambda>i. Drawing demo_env 80 24 0)\<rparr>"
  have w: "server_ok (daemon ?w)" "tasks ?w 0 = Drawing demo_env 80 24 0" "tasks ?w 1 = Drawing demo_env 80 24 0"
    "(0::nat) \<noteq> 1" "rng demo_env 0 = 7" "\<not> reg_contains (daemon ?w) (hex8 7)" "spawn_error demo_env = None"
    using server_ok_empty by (simp_all add: demo_env_def reg_contains_def) (simp_all add: empty_server_def)
  from same_draw_displaces_session [OF w(1-5,5-7,7), of "\<lambda>_. []" 16 1] show ?thesis by blast
qed

theorem busy_test_races_rotation_witness:
  "\<exists>w'. w' = fold (run_task string_of_bytes 16 1) [0, 1, 0, 1, 0, 1, 0, 1]
        \<lparr>daemon = demo_server,
         tasks = (\<lambda>i. if i = 0 then Looking (demo_env\<lparr>fresh_key := [2]\<rparr>) (hex8 7)
                     else Looking (demo_env\<lparr>fresh_key := [3]\<rparr>) (hex8 7))\<rparr> \<and>
     tasks w' 0 = Replied (Bootstrap 1 (hex8 7) (string_of_bytes [2])) \<and>
     map_option current_psk (store (daemon w') 0) = Some [3]"
proof -
  let ?w = "\<lparr>daemon = demo_server,
    tasks = (\<lambda>i::nat. if i = 0 then Looking (demo_env\<lparr>fresh_key := [2]\<rparr>) (hex8 7)
                else Looking (demo_env\<lparr>fresh_key := [3]\<rparr>) (hex8 7))\<rparr>"
  let ?s = "new_session (hex8 7) ''/bin/sh'' 80 24 16 5 [1]"
  have w: "store (daemon ?w) 0 = Some ?s" "reg_get (daemon ?w) (hex8 7) = Some 0" "\<not> is_ended ?s"
    "\<not> connected ?s" "tasks ?w 0 = Looking (demo_env\<lparr>fresh_key := [2]\<rparr>) (hex8 7)"
    "tasks ?w 1 = Looking (demo_env\<lparr>fresh_key := [3]\<rparr>) (hex8 7)" "(0::nat) \<noteq> 1" "ident ?s = hex8 7"
    by (simp_all add: demo_server_def Let_def reg_get_def is_ended_def new_session_def)
  from busy_test_races_rotation [OF w(1-7), of string_of_bytes 16 1] w(8) show ?thesis by simp
qed

end
