(* ===== verification/Bootstrap.thy ===== *)
theory Bootstrap
  imports Config
begin

text \<open>
  client/bootstrap.rs: the remote commands, the ssh command line that runs them, and the
  search of its output for the agent's line. What ssh does with a command line and the
  script it is fed is an argument; so are the script itself (remote_bootstrap.sh, which is
  not Rust), the JSON parser and the \<open>Debug\<close> form of a string in an error message.
\<close>

section \<open>Remote commands\<close>

definition create_args :: "u16 \<Rightarrow> u16 \<Rightarrow> string list" where
  "create_args cols rows =
     [''__serve'', ''create'', ''--cols'', dec_string (unat cols), ''--rows'', dec_string (unat rows)]"

definition attach_args :: "string \<Rightarrow> string list" where
  "attach_args sid = [''__serve'', ''attach'', sid]"

definition ls_args :: "string list" where
  "ls_args = [''__serve'', ''ls'']"

definition kill_args :: "string \<Rightarrow> string list" where
  "kill_args sid = [''__serve'', ''kill'', sid]"

section \<open>Running ssh\<close>

text \<open>\<open>CARGO_PKG_VERSION\<close>, from Cargo.toml.\<close>

definition pkg_version :: string where "pkg_version = ''0.1.6''"

definition ssh_args :: "config \<Rightarrow> string \<Rightarrow> string list \<Rightarrow> string list" where
  "ssh_args cfg target remote_args =
     [''-T'', ''-o'', ''BatchMode=yes''] @
     (case ssh_port cfg of None \<Rightarrow> [] | Some p \<Rightarrow> [''-p'', dec_string (unat p)]) @
     [target] @ [''sh'', ''-s'', ''--'', pkg_version] @
     (case port cfg of None \<Rightarrow> [] | Some p \<Rightarrow> [''--port'', dec_string (unat p)]) @
     remote_args"

text \<open>
  How one ssh process fares: it cannot be spawned, the script cannot be written to it, it
  cannot be waited for, or it exits, with a status to report when it is not success, and
  what it wrote to standard output and standard error.
\<close>

datatype ssh_run =
    NotSpawned error
  | ScriptRefused error
  | WaitFailed error
  | Exited "string option" bytes bytes

text \<open>The last line that is not blank.\<close>

definition last_line :: "string \<Rightarrow> string option" where
  "last_line out = List.find (\<lambda>l. str_trim l \<noteq> []) (rev (str_lines out))"

definition ssh_response ::
  "(string \<Rightarrow> error + control_response) \<Rightarrow> (string \<Rightarrow> string) \<Rightarrow> string \<Rightarrow> ssh_run \<Rightarrow>
     error_chain + control_response" where
  "ssh_response parse_json debug target run =
     (case run of
        NotSpawned e \<Rightarrow> Inl (Context ''spawning ssh'' (Root e))
      | ScriptRefused e \<Rightarrow> Inl (Context ''sending bootstrap script to ssh'' (Root e))
      | WaitFailed e \<Rightarrow> Inl (Context ''waiting for ssh'' (Root e))
      | Exited (Some status) out err \<Rightarrow>
          Inl (Root (Failure
            (''ssh to '' @ [CHR 0x27] @ target @ [CHR 0x27] @ '' failed ('' @ status @ ''): '' @
             str_trim (string_of_bytes (lossy err)))))
      | Exited None out err \<Rightarrow>
          (case last_line (string_of_bytes (lossy out)) of
             None \<Rightarrow> Inl (Root (Failure ''empty response from server agent''))
           | Some line \<Rightarrow>
               (case parse_json (str_trim line) of
                  Inl e \<Rightarrow> Inl (Context (''parsing agent response: '' @ debug line) (Root e))
                | Inr r \<Rightarrow> Inr r)))"

text \<open>The client's side of ssh: the process given its arguments and its input, and the readers of its output.\<close>

record ssh_client =
  ssh :: "string list \<Rightarrow> bytes \<Rightarrow> ssh_run"
  script :: string
  parse_response :: "string \<Rightarrow> error + control_response"
  debug_str :: "string \<Rightarrow> string"

definition run_ssh ::
  "ssh_client \<Rightarrow> string option \<Rightarrow> config \<Rightarrow> string list \<Rightarrow> error_chain + control_response" where
  "run_ssh cl home cfg remote_args =
     (case require_ssh_target home cfg of
        Inl e \<Rightarrow> Inl e
      | Inr target \<Rightarrow>
          ssh_response (parse_response cl) (debug_str cl) target
            (ssh cl (ssh_args cfg target remote_args) (as_bytes (script cl))))"

definition bootstrap_create ::
  "ssh_client \<Rightarrow> string option \<Rightarrow> config \<Rightarrow> u16 \<Rightarrow> u16 \<Rightarrow> error_chain + control_response" where
  "bootstrap_create cl home cfg cols rows = run_ssh cl home cfg (create_args cols rows)"

definition bootstrap_attach ::
  "ssh_client \<Rightarrow> string option \<Rightarrow> config \<Rightarrow> string \<Rightarrow> error_chain + control_response" where
  "bootstrap_attach cl home cfg sid = run_ssh cl home cfg (attach_args sid)"

definition bootstrap_ls :: "ssh_client \<Rightarrow> string option \<Rightarrow> config \<Rightarrow> error_chain + control_response" where
  "bootstrap_ls cl home cfg = run_ssh cl home cfg ls_args"

definition bootstrap_kill ::
  "ssh_client \<Rightarrow> string option \<Rightarrow> config \<Rightarrow> string \<Rightarrow> error_chain + control_response" where
  "bootstrap_kill cl home cfg sid = run_ssh cl home cfg (kill_args sid)"

lemmas bootstrap_defs =
  bootstrap_create_def bootstrap_attach_def bootstrap_ls_def bootstrap_kill_def

section \<open>The line among the noise\<close>

text \<open>What a login shell may print before the agent's line: nothing, or whole lines.\<close>

definition whole_lines :: "bytes \<Rightarrow> bool" where
  "whole_lines noise \<longleftrightarrow> noise = [] \<or> last noise = 0x0A"

text \<open>A line: well-formed UTF-8, without line breaks, not blank.\<close>

definition one_line :: "string \<Rightarrow> bool" where
  "one_line l \<longleftrightarrow> valid_utf8 (as_bytes l) \<and> CHR 0x0A \<notin> set l \<and> CHR 0x0D \<notin> set l \<and> str_trim l \<noteq> []"

definition blank_lines :: "bytes \<Rightarrow> bool" where
  "blank_lines bs \<longleftrightarrow> (\<forall>l \<in> set (str_lines (string_of_bytes (lossy bs))). str_trim l = [])"

lemma string_of_bytes_append: "string_of_bytes (xs @ ys) = string_of_bytes xs @ string_of_bytes ys"
  by (simp add: string_of_bytes_def)

lemma string_of_newline: "string_of_bytes (0x0A # bs) = CHR 0x0A # string_of_bytes bs"
  using string_of_as_bytes [of "[CHR 0x0A]"] by (simp add: string_of_bytes_def as_bytes_def)

lemma find_append_None: "List.find P xs = None \<Longrightarrow> List.find P (xs @ ys) = List.find P ys"
  by (induction xs) (auto split: if_splits)

lemma str_lines_line:
  assumes "CHR 0x0A \<notin> set l" and "CHR 0x0D \<notin> set l"
  shows "str_lines (l @ CHR 0x0A # rest) = l # str_lines rest"
proof -
  have "l \<noteq> [] \<Longrightarrow> last l \<noteq> CHR 0x0D" using assms(2) last_in_set by metis
  then show ?thesis
    unfolding str_lines_def by (auto simp: split_lines_plain [OF assms(1)])
qed

lemma lossy_lines:
  assumes "whole_lines noise" and "one_line l"
  shows "\<exists>ls. str_lines (string_of_bytes (lossy (noise @ as_bytes l @ 0x0A # rest))) =
           ls @ l # str_lines (string_of_bytes (lossy rest))"
proof -
  from assms(2) have l: "lossy (as_bytes l) = as_bytes l" "CHR 0x0A \<notin> set l" "CHR 0x0D \<notin> set l"
    by (auto simp: one_line_def lossy_valid)
  let ?tail = "l @ CHR 0x0A # string_of_bytes (lossy rest)"
  have tail: "string_of_bytes (lossy (as_bytes l @ 0x0A # rest)) = ?tail"
    by (simp add: lossy_newline l(1) string_of_bytes_append string_of_newline)
  show ?thesis
  proof (cases "noise = []")
    case True
    then show ?thesis by (simp add: tail str_lines_line [OF l(2,3)])
  next
    case False
    with assms(1) obtain n where n: "noise = n @ [0x0A]"
      by (metis append_butlast_last_id whole_lines_def)
    have "string_of_bytes (lossy (noise @ as_bytes l @ 0x0A # rest)) =
        string_of_bytes (lossy n) @ CHR 0x0A # ?tail"
      using lossy_newline [of n "as_bytes l @ 0x0A # rest"] tail
      by (simp add: n string_of_bytes_append string_of_newline)
    moreover obtain ls where "str_lines (string_of_bytes (lossy n) @ CHR 0x0A # ?tail) = ls @ str_lines ?tail"
      using split_lines_newline [of "[]" "string_of_bytes (lossy n)" ?tail] unfolding str_lines_def by blast
    ultimately show ?thesis by (simp add: str_lines_line [OF l(2,3)])
  qed
qed

lemma last_line_found:
  assumes "whole_lines noise" and "one_line l" and "blank_lines rest"
  shows "last_line (string_of_bytes (lossy (noise @ as_bytes l @ 0x0A # rest))) = Some l"
proof -
  from lossy_lines [OF assms(1,2)] obtain ls where
      ls: "str_lines (string_of_bytes (lossy (noise @ as_bytes l @ 0x0A # rest))) =
        ls @ l # str_lines (string_of_bytes (lossy rest))" by blast
  have "List.find (\<lambda>l. str_trim l \<noteq> []) (rev (str_lines (string_of_bytes (lossy rest)))) = None"
    using assms(3) by (auto simp: find_None_iff blank_lines_def)
  from find_append_None [OF this, of "l # rev ls"] assms(2) show ?thesis
    by (simp add: last_line_def ls one_line_def)
qed

text \<open>
  Whatever bytes the login shell prints before it, as long as they end a line, be they text,
  broken UTF-8 or further JSON, and whatever blank lines follow, the client parses exactly the
  line the agent printed, and says so if it cannot.
\<close>

lemma run_ssh_line:
  assumes "require_ssh_target home cfg = Inr target"
    and "ssh cl (ssh_args cfg target args) (as_bytes (script cl)) = Exited None (noise @ as_bytes l @ 0x0A # rest) err"
    and "whole_lines noise" and "one_line l" and "blank_lines rest"
  shows "run_ssh cl home cfg args =
    (case parse_response cl (str_trim l) of
       Inl e \<Rightarrow> Inl (Context (''parsing agent response: '' @ debug_str cl l) (Root e))
     | Inr r \<Rightarrow> Inr r)"
  by (simp add: run_ssh_def assms(1,2) ssh_response_def last_line_found [OF assms(3-5)])

lemma blank_lines_Nil: "blank_lines []"
  by (simp add: blank_lines_def string_of_bytes_def str_lines_def)

end
