(* ===== verification/Agent.thy ===== *)
theory Agent
  imports Daemon
begin

text \<open>
  server/agent.rs: the process that ssh runs on the server. It asks the daemon over the
  control socket, starts a daemon when there is none, and prints one line. What the
  socket, the daemon process and the clock do are arguments; the requests it hands to a
  daemon and the daemons it starts are recorded as events.
\<close>

section \<open>Environment and errors\<close>

text \<open>
  The connection to the daemon: how much it takes of what is written, the line it answers
  (\<open>None\<close> at end of file), and whether the five seconds run out first.
\<close>

record control_link =
  to_daemon :: sink
  reply_line :: "error + string option"
  timed_out :: bool

datatype dial = NoListener | DialError error | Dialed control_link

datatype child_status = StillRunning | ExitedWell | ExitedBadly string | WaitError error

datatype agent_event = Sent control_request | DaemonStarted "u16 option"

type_synonym 'a agent_result = "agent_event list \<times> (error_chain + 'a)"

section \<open>One exchange\<close>

definition exchange ::
  "(control_request \<Rightarrow> string) \<Rightarrow> (string \<Rightarrow> error + control_response) \<Rightarrow> control_link \<Rightarrow>
     control_request \<Rightarrow> sink \<times> (error_chain + control_response)" where
  "exchange print_json parse_json l req =
     (case send_flushed (to_daemon l) (as_bytes (print_json req) @ [0x0A]) of
        (w, Inl e) \<Rightarrow> (w, Inl (Root e))
      | (w, Inr u) \<Rightarrow>
          (case reply_line l of
             Inl e \<Rightarrow> (w, Inl (Root e))
           | Inr None \<Rightarrow>
               (w, Inl (Root (Failure ''daemon closed the connection without a response'')))
           | Inr (Some line) \<Rightarrow>
               (case parse_json (str_trim line) of
                  Inl e \<Rightarrow> (w, Inl (Context ''invalid daemon response'' (Root e)))
                | Inr r \<Rightarrow> (w, Inr r))))"

definition request_context :: "control_request \<Rightarrow> string" where
  "request_context req =
     (case req of
        OnPort p r \<Rightarrow>
          ''daemon could not process the request for TCP port '' @ dec_string (unat p) @
          ''; if it is an older version, upgrade and manually restart it (restarting ends its sessions)''
      | _ \<Rightarrow>
          ''daemon control request failed; if it is an older version, upgrade and manually restart it after finishing its sessions (restarting ends its sessions)'')"

definition try_request_at ::
  "(control_request \<Rightarrow> string) \<Rightarrow> (string \<Rightarrow> error + control_response) \<Rightarrow> string \<Rightarrow> dial \<Rightarrow>
     control_request \<Rightarrow> control_response option agent_result" where
  "try_request_at print_json parse_json sock d req =
     (case d of
        NoListener \<Rightarrow> ([], Inr None)
      | DialError e \<Rightarrow> ([], Inl (Context (''connect to '' @ sock) (Root e)))
      | Dialed l \<Rightarrow>
          ([Sent req],
           case with_context (request_context req)
             (if timed_out l then Inl (Context ''daemon control request timed out'' (Root (Failure ''deadline has elapsed'')))
              else snd (exchange print_json parse_json l req)) of
             Inl e \<Rightarrow> Inl e
           | Inr r \<Rightarrow> Inr (Some r)))"

section \<open>Starting the daemon\<close>

definition daemon_args :: "u16 option \<Rightarrow> string list" where
  "daemon_args p = ''__daemon'' # (case p of None \<Rightarrow> [] | Some q \<Rightarrow> [''--port'', dec_string (unat q)])"

text \<open>
  The calls \<open>spawn_daemon\<close> makes in order: creating the directory, finding the executable,
  opening the log and duplicating its handle, starting the process. The first that fails ends it.
\<close>

record spawn_calls =
  make_base :: "error option"
  own_exe :: "error option"
  open_log :: "error option"
  clone_log :: "error option"
  start_child :: "error option"

definition all_spawn :: spawn_calls where
  "all_spawn = \<lparr>make_base = None, own_exe = None, open_log = None, clone_log = None, start_child = None\<rparr>"

definition spawn_daemon :: "spawn_calls \<Rightarrow> u16 option \<Rightarrow> error + string list" where
  "spawn_daemon calls p =
     (case make_base calls of Some e \<Rightarrow> Inl e | None \<Rightarrow>
     (case own_exe calls of Some e \<Rightarrow> Inl e | None \<Rightarrow>
     (case open_log calls of Some e \<Rightarrow> Inl e | None \<Rightarrow>
     (case clone_log calls of Some e \<Rightarrow> Inl e | None \<Rightarrow>
     (case start_child calls of Some e \<Rightarrow> Inl e | None \<Rightarrow> Inr (daemon_args p))))))"

text \<open>The polling loop: each turn is a connection attempt and the state of the child after it.\<close>

fun poll_daemon ::
  "(control_request \<Rightarrow> string) \<Rightarrow> (string \<Rightarrow> error + control_response) \<Rightarrow> string \<Rightarrow> control_request \<Rightarrow>
     (nat \<Rightarrow> dial \<times> child_status) \<Rightarrow> nat \<Rightarrow> nat \<Rightarrow> control_response agent_result" where
  "poll_daemon print_json parse_json sock req turns i 0 =
     ([], Inl (Root (Failure ''daemon did not come up'')))"
| "poll_daemon print_json parse_json sock req turns i (Suc n) =
     (case try_request_at print_json parse_json sock (fst (turns i)) req of
        (evs, Inl e) \<Rightarrow> (evs, Inl e)
      | (evs, Inr (Some r)) \<Rightarrow> (evs, Inr r)
      | (evs, Inr None) \<Rightarrow>
          (case snd (turns i) of
             WaitError e \<Rightarrow> (evs, Inl (Root e))
           | ExitedBadly status \<Rightarrow> (evs, Inl (Root (Failure (''daemon exited with '' @ status))))
           | _ \<Rightarrow>
               (case poll_daemon print_json parse_json sock req turns (Suc i) n of
                  (evs', res) \<Rightarrow> (evs @ evs', res))))"

definition start_and_request ::
  "(control_request \<Rightarrow> string) \<Rightarrow> (string \<Rightarrow> error + control_response) \<Rightarrow> string \<Rightarrow> control_request \<Rightarrow>
     u16 option \<Rightarrow> spawn_calls \<Rightarrow> (nat \<Rightarrow> dial \<times> child_status) \<Rightarrow> control_response agent_result" where
  "start_and_request print_json parse_json sock req p calls turns =
     (case spawn_daemon calls p of
        Inl e \<Rightarrow> ([], Inl (Context ''spawn daemon'' (Root e)))
      | Inr args \<Rightarrow>
          (case poll_daemon print_json parse_json sock req turns 0 40 of
             (evs, res) \<Rightarrow> (DaemonStarted p # evs, res)))"

section \<open>The whole operation\<close>

definition wrap_request :: "u16 option \<Rightarrow> control_request \<Rightarrow> control_request" where
  "wrap_request p req =
     (let req1 = (if needs_protocol req then OnProtocol VERSION req else req)
      in case p of Some q \<Rightarrow> OnPort q req1 | None \<Rightarrow> req1)"

text \<open>What the agent finds: the first attempt on the socket, its configuration, the daemon it may start.\<close>

record agent_env =
  sock_path :: string
  log_path :: string
  first_dial :: dial
  loaded :: "error_chain + config"
  spawn_with :: spawn_calls
  turns :: "nat \<Rightarrow> dial \<times> child_status"

definition start_context :: "agent_env \<Rightarrow> config \<Rightarrow> u16 option \<Rightarrow> string" where
  "start_context env cfg p =
     ''starting daemon on '' @
     (case p of
        Some q \<Rightarrow> ''TCP port '' @ dec_string (unat q)
      | None \<Rightarrow> ''TCP port range '' @ dec_string (unat (fst (port_range cfg))) @ ''-'' @
          dec_string (unat (snd (port_range cfg)))) @
     ''; see server log '' @ log_path env"

definition obtain_response ::
  "(control_request \<Rightarrow> string) \<Rightarrow> (string \<Rightarrow> error + control_response) \<Rightarrow> agent_env \<Rightarrow>
     control_request \<Rightarrow> u16 option \<Rightarrow> control_response agent_result" where
  "obtain_response print_json parse_json env req p =
     (let wrapped = wrap_request p req in
      case try_request_at print_json parse_json (sock_path env) (first_dial env) wrapped of
        (evs, Inl e) \<Rightarrow> (evs, Inl e)
      | (evs, Inr (Some r)) \<Rightarrow> (evs, Inr r)
      | (evs, Inr None) \<Rightarrow>
          (case req of
             Create cols rows \<Rightarrow>
               (case loaded env of
                  Inl e \<Rightarrow> (evs, Inl e)
                | Inr cfg \<Rightarrow>
                    let q = option_or p (port cfg) in
                    (case start_and_request print_json parse_json (sock_path env) wrapped q
                            (spawn_with env) (turns env) of
                       (evs', res) \<Rightarrow> (evs @ evs', with_context (start_context env cfg q) res)))
           | Ls \<Rightarrow> (evs, Inr (LsResponse []))
           | _ \<Rightarrow> (evs, Inl (Root (Failure ''no daemon running'')))))"

text \<open>\<open>run\<close>: the response, and its JSON as the one line on standard output.\<close>

definition agent_response :: "(error \<Rightarrow> string) \<Rightarrow> error_chain + control_response \<Rightarrow> control_response" where
  "agent_response display res =
     (case res of Inl e \<Rightarrow> ErrResponse (show_chain display e) | Inr r \<Rightarrow> r)"

definition run_agent ::
  "(error \<Rightarrow> string) \<Rightarrow> (control_request \<Rightarrow> string) \<Rightarrow> (control_response \<Rightarrow> string) \<Rightarrow>
     (string \<Rightarrow> error + control_response) \<Rightarrow> agent_env \<Rightarrow> control_request \<Rightarrow> u16 option \<Rightarrow>
     agent_event list \<times> bytes" where
  "run_agent display print_req print_resp parse_resp env req p =
     (case obtain_response print_req parse_resp env req p of
        (evs, res) \<Rightarrow> (evs, as_bytes (print_resp (agent_response display res)) @ [0x0A]))"

section \<open>Properties\<close>

lemma try_request_events:
  "try_request_at pj rj sock d req = (evs, res) \<Longrightarrow>
     (evs = [] \<and> (\<forall>r. res \<noteq> Inr (Some r)) \<and> (res = Inr None \<longleftrightarrow> d = NoListener)) \<or>
     (evs = [Sent req] \<and> res \<noteq> Inr None)"
  by (auto simp: try_request_at_def split: dial.splits sum.splits)

lemma poll_events:
  "poll_daemon pj rj sock req ts i n = (evs, res) \<Longrightarrow>
     (evs = [] \<and> (\<forall>r. res \<noteq> Inr r)) \<or> evs = [Sent req]"
proof (induction n arbitrary: i evs res)
  case 0
  then show ?case by auto
next
  case (Suc n)
  obtain evs1 res1 where t: "try_request_at pj rj sock (fst (ts i)) req = (evs1, res1)" by force
  obtain evs2 res2 where p: "poll_daemon pj rj sock req ts (Suc i) n = (evs2, res2)" by force
  from Suc.prems t p try_request_events [OF t] Suc.IH [OF p] show ?case
    by (auto split: sum.splits option.splits child_status.splits)
qed

text \<open>C32. The agent never repeats an operation: whatever the socket and the daemon do, it hands the
  request to a daemon at most once, it starts a daemon at most once and only to create a session
  when nothing listens, and it reports success only for an answer it was given, save the empty
  list of a host without a daemon.\<close>

theorem agent_sends_at_most_once:
  assumes "obtain_response pj rj env req p = (evs, res)"
  shows "(evs = [] \<or> evs = [Sent (wrap_request p req)] \<or>
          (\<exists>cols rows cfg. req = Create cols rows \<and> first_dial env = NoListener \<and> loaded env = Inr cfg \<and>
             (evs = [DaemonStarted (option_or p (port cfg))] \<or>
              evs = [DaemonStarted (option_or p (port cfg)), Sent (wrap_request p req)]))) \<and>
         (\<forall>r. res = Inr r \<longrightarrow> Sent (wrap_request p req) \<in> set evs \<or> req = Ls \<and> r = LsResponse [])"
proof -
  let ?w = "wrap_request p req"
  obtain evs1 res1 where t: "try_request_at pj rj (sock_path env) (first_dial env) ?w = (evs1, res1)" by force
  show ?thesis
  proof (cases "res1 = Inr None")
    case False
    with assms t try_request_events [OF t] show ?thesis
      by (auto simp: obtain_response_def Let_def split: sum.splits option.splits)
  next
    case True
    with try_request_events [OF t] have none: "evs1 = []" "first_dial env = NoListener" by auto
    show ?thesis
    proof (cases req)
      case (Create cols rows)
      show ?thesis
      proof (cases "loaded env")
        case (Inl e)
        with assms t True none Create show ?thesis by (auto simp: obtain_response_def)
      next
        case (Inr cfg)
        let ?q = "option_or p (port cfg)"
        obtain evs2 res2 where st:
            "start_and_request pj rj (sock_path env) ?w ?q (spawn_with env) (turns env) = (evs2, res2)" by force
        obtain evs3 res3 where po: "poll_daemon pj rj (sock_path env) ?w (turns env) 0 40 = (evs3, res3)" by force
        from assms t True none Create Inr st have "evs = evs2" "res = with_context (start_context env cfg ?q) res2"
          by (auto simp: obtain_response_def Let_def)
        with st po poll_events [OF po] none Create Inr show ?thesis
          by (cases "spawn_daemon (spawn_with env) ?q") (auto simp: start_and_request_def simp del: poll_daemon.simps)
      qed
    qed (use assms t True none in \<open>auto simp: obtain_response_def\<close>)
  qed
qed

definition plain_link :: "string \<Rightarrow> control_link" where
  "plain_link l = \<lparr>to_daemon = open_sink, reply_line = Inr (Some l), timed_out = False\<rparr>"

theorem agent_sends_at_most_once_witness:
  "\<exists>evs res. obtain_response (\<lambda>_. []) (\<lambda>_. Inl ConnectFailed)
      \<lparr>sock_path = [], log_path = [], first_dial = Dialed (plain_link []), loaded = Inr default_config,
        spawn_with = all_spawn, turns = (\<lambda>_. (NoListener, StillRunning))\<rparr> Ls None = (evs, res) \<and>
     (evs = [] \<or> evs = [Sent Ls])"
proof -
  let ?env = "\<lparr>sock_path = [], log_path = [], first_dial = Dialed (plain_link []), loaded = Inr default_config,
        spawn_with = all_spawn, turns = (\<lambda>_. (NoListener, StillRunning))\<rparr>"
  obtain evs res where run: "obtain_response (\<lambda>_. []) (\<lambda>_. Inl ConnectFailed) ?env Ls None = (evs, res)" by force
  from agent_sends_at_most_once [OF run] run show ?thesis by (auto simp: wrap_request_def)
qed

text \<open>What the agent sends is admitted by a daemon of its own protocol version exactly when no
  port was asked for or the daemon listens on that port, and it is the operation asked for.\<close>

theorem agent_request_admitted:
  assumes "inner_request req = req"
  shows "(admitted q (wrap_request p req) \<longleftrightarrow> p = None \<or> p = Some q) \<and>
         inner_request (wrap_request p req) = req"
  using assms
  by (cases req; cases p) (auto simp: wrap_request_def admitted_def Let_def inner_request_plain)

theorem agent_request_admitted_witness:
  "\<not> admitted 62000 (wrap_request (Some 62001) (Create 80 24)) \<and> admitted 62000 (wrap_request None Ls)"
  using agent_request_admitted [of "Create 80 24" 62000 "Some 62001"]
    agent_request_admitted [of Ls 62000 None] by simp

text \<open>A request and its response survive the control socket: if the JSON library reads back
  what it wrote, the daemon executes the very request the agent sent and the agent gets the very
  response the daemon made.\<close>

theorem control_round_trip:
  assumes json: "parse_req (str_trim (print_req req @ [CHR 0x0A])) = Some req"
      "parse_resp (str_trim (print_resp resp @ [CHR 0x0A])) = Inr resp"
    and sinks: "reliable (to_daemon l)" "written (to_daemon l) = []" "reliable w" "written w = []"
    and exec: "execute_control hx n q denv sv req = Some (sv', resp)"
  shows "\<exists>w1 w2. handle_control parse_req print_resp hx n q denv sv w
              (Inr (Some (string_of_bytes (written w1)))) = Some (sv', w2, Inr ()) \<and>
            exchange print_req parse_resp (l\<lparr>reply_line := Inr (Some (string_of_bytes (written w2)))\<rparr>) req
              = (w1, Inr resp)"
proof -
  let ?line = "\<lambda>s. as_bytes s @ [0x0A]"
  have line: "?line s = as_bytes (s @ [CHR 0x0A])" for s by (simp add: as_bytes_def)
  have "string_of_bytes (?line s) = s @ [CHR 0x0A]" for s unfolding line by simp
  with assms show ?thesis
    by (intro exI [of _ "(to_daemon l)\<lparr>written := ?line (print_req req)\<rparr>"]
        exI [of _ "w\<lparr>written := ?line (print_resp resp)\<rparr>"])
      (simp add: handle_control_def exchange_def)
qed

lemma trim_line: "str_trim (''ls'' @ [CHR 0x0A]) = ''ls''" "str_trim (''[]'' @ [CHR 0x0A]) = ''[]''"
  by code_simp+

theorem control_round_trip_witness:
  "\<exists>w1 w2. handle_control (\<lambda>s. if s = ''ls'' then Some Ls else None) (\<lambda>_. ''[]'') (\<lambda>_. []) 0 1
        plain_env
        empty_server open_sink (Inr (Some (string_of_bytes (written w1)))) = Some (empty_server, w2, Inr ()) \<and>
     exchange (\<lambda>_. ''ls'') (\<lambda>s. if s = ''[]'' then Inr (LsResponse []) else Inl ConnectFailed)
        ((plain_link [])\<lparr>reply_line := Inr (Some (string_of_bytes (written w2)))\<rparr>) Ls = (w1, Inr (LsResponse []))"
proof (rule control_round_trip)
  show "reliable (to_daemon (plain_link []))" "written (to_daemon (plain_link [])) = []"
    by (simp_all add: plain_link_def)
  show "execute_control (\<lambda>_. []) 0 1
      plain_env
      empty_server Ls = Some (empty_server, LsResponse [])"
    by (simp add: execute_control_def reg_list_def List.map_filter_def)
qed (simp_all only: trim_line reliable_open_sink if_True simp_thms)

end
