(* ===== verification/Command_Line.thy ===== *)
theory Command_Line
  imports Bootstrap Agent Service
begin

text \<open>
  main.rs: the command line as the argument parser delivers it, its dispatch to the modes of
  the program, and the client's commands up to the interactive session. The parser (clap),
  the TOML and hex libraries and ssh are arguments. At the end, the way of a new session from
  the command line over ssh, agent and daemon back to the client.
\<close>

section \<open>The command line\<close>

datatype serve_op = ServeCreate u16 u16 | ServeAttach string | ServeLs | ServeKill string

datatype cmd =
    CmdAttach string
  | CmdLs
  | CmdKill string
  | CmdServe serve_op
  | CmdDaemon
  | CmdConnect string string string  \<comment> \<open>host, identifier, key\<close>

record cli =
  cli_target :: "string option"
  cli_ssh_port :: "u16 option"
  cli_port :: "u16 option"
  cli_cmd :: "cmd option"

text \<open>
  What a mode ends in: the daemon, the agent or the interactive session, which other theories
  model, or nothing more. A client command also prints: to standard output and standard error.
\<close>

datatype action =
    RunDaemon "u16 option"
  | RunAgent control_request "u16 option"
  | Interact string u16 string bytes
  | Finish

type_synonym command_result = "string \<times> string \<times> (error_chain + action)"

record client_env =
  ssh_side :: ssh_client
  home_dir :: "string option"
  config_file :: file_result
  parse_toml :: "string \<Rightarrow> error + config"
  hex_decode :: "string \<Rightarrow> error + bytes"
  window :: "(u16 \<times> u16) option"

section \<open>Client commands\<close>

abbreviation newline :: string where "newline \<equiv> [CHR 0x0A]"

definition fails :: "error_chain \<Rightarrow> command_result" where
  "fails e = ([], [], Inl e)"

definition parse_psk :: "(string \<Rightarrow> error + bytes) \<Rightarrow> string \<Rightarrow> error_chain + bytes" where
  "parse_psk decode_hex psk_hex =
     (case decode_hex psk_hex of
        Inl e \<Rightarrow> Inl (Root e)
      | Inr bs \<Rightarrow>
          if length bs = 32 then Inr bs else Inl (Root (Failure ''psk must be 32 bytes'')))"

definition client_create :: "client_env \<Rightarrow> config \<Rightarrow> command_result" where
  "client_create env cfg =
     (case resolve_tcp_host (home_dir env) cfg of
        Inl e \<Rightarrow> fails e
      | Inr host \<Rightarrow>
          (case (case window env of Some dims \<Rightarrow> dims | None \<Rightarrow> (80, 24)) of
             (cols, rows) \<Rightarrow>
               (case bootstrap_create (ssh_side env) (home_dir env) cfg cols rows of
                  Inl e \<Rightarrow> fails e
                | Inr (Bootstrap p sid psk_hex) \<Rightarrow>
                    (case parse_psk (hex_decode env) psk_hex of
                       Inl e \<Rightarrow> fails e
                     | Inr k \<Rightarrow>
                         ([], ''[thther] session '' @ sid @ '' on '' @ host @ '':'' @ dec_string (unat p) @ newline,
                          Inr (Interact host p sid k)))
                | Inr (ErrResponse message) \<Rightarrow> fails (Root (Failure message))
                | Inr other \<Rightarrow> fails (Root (Failure ''unexpected response'')))))"

definition client_attach :: "client_env \<Rightarrow> config \<Rightarrow> string \<Rightarrow> command_result" where
  "client_attach env cfg wanted =
     (case resolve_tcp_host (home_dir env) cfg of
        Inl e \<Rightarrow> fails e
      | Inr host \<Rightarrow>
          (case bootstrap_attach (ssh_side env) (home_dir env) cfg wanted of
             Inl e \<Rightarrow> fails e
           | Inr (Bootstrap p sid psk_hex) \<Rightarrow>
               (case parse_psk (hex_decode env) psk_hex of
                  Inl e \<Rightarrow> fails e
                | Inr k \<Rightarrow>
                    ([], ''[thther] reattaching to '' @ sid @ '' on '' @ host @ '':'' @ dec_string (unat p) @ newline,
                     Inr (Interact host p sid k)))
           | Inr (ErrResponse message) \<Rightarrow> fails (Root (Failure message))
           | Inr other \<Rightarrow> fails (Root (Failure ''unexpected response''))))"

text \<open>The table of sessions; \<open>{:<n}\<close> pads to \<open>n\<close> characters, counted by their first bytes.\<close>

definition fmt_time :: "u64 \<Rightarrow> string" where
  "fmt_time secs = ''@'' @ dec_string (unat secs)"

definition char_count :: "string \<Rightarrow> nat" where
  "char_count s = length (filter (\<lambda>b. \<not> cont_byte b) (as_bytes s))"

definition pad_right :: "nat \<Rightarrow> string \<Rightarrow> string" where
  "pad_right n s = s @ replicate (n - char_count s) CHR '' ''"

definition ls_row :: "string \<Rightarrow> string \<Rightarrow> string \<Rightarrow> string \<Rightarrow> string" where
  "ls_row sid status when_started shell_cmd =
     pad_right 10 sid @ '' '' @ pad_right 10 status @ '' '' @ pad_right 20 when_started @ '' '' @ shell_cmd @ newline"

definition ls_text :: "session_info list \<Rightarrow> string" where
  "ls_text sessions =
     (if sessions = [] then ''no sessions'' @ newline
      else ls_row ''ID'' ''STATUS'' ''STARTED'' ''CMD'' @
        concat (map (\<lambda>s. ls_row (info_id s) (info_status s) (fmt_time (info_started s)) (info_cmd s)) sessions))"

definition client_ls :: "client_env \<Rightarrow> config \<Rightarrow> command_result" where
  "client_ls env cfg =
     (case bootstrap_ls (ssh_side env) (home_dir env) cfg of
        Inl e \<Rightarrow> fails e
      | Inr (LsResponse sessions) \<Rightarrow> (ls_text sessions, [], Inr Finish)
      | Inr (ErrResponse message) \<Rightarrow> fails (Root (Failure message))
      | Inr other \<Rightarrow> fails (Root (Failure ''unexpected response'')))"

definition client_kill :: "client_env \<Rightarrow> config \<Rightarrow> string \<Rightarrow> command_result" where
  "client_kill env cfg wanted =
     (case bootstrap_kill (ssh_side env) (home_dir env) cfg wanted of
        Inl e \<Rightarrow> fails e
      | Inr OkResponse \<Rightarrow> (''killed '' @ wanted @ newline, [], Inr Finish)
      | Inr (ErrResponse message) \<Rightarrow> fails (Root (Failure message))
      | Inr other \<Rightarrow> fails (Root (Failure ''unexpected response'')))"

section \<open>Dispatch\<close>

fun serve_request :: "serve_op \<Rightarrow> control_request" where
  "serve_request (ServeCreate cols rows) = Create cols rows"
| "serve_request (ServeAttach sid) = Attach sid"
| "serve_request ServeLs = Ls"
| "serve_request (ServeKill sid) = Kill sid"

definition with_config :: "client_env \<Rightarrow> cli \<Rightarrow> (config \<Rightarrow> command_result) \<Rightarrow> command_result" where
  "with_config env c operation =
     (case load_client_config (parse_toml env) (home_dir env) (config_file env)
             (cli_target c) (cli_port c) (cli_ssh_port c) of
        Inl e \<Rightarrow> fails e
      | Inr cfg \<Rightarrow> operation cfg)"

definition dispatch :: "client_env \<Rightarrow> cli \<Rightarrow> command_result" where
  "dispatch env c =
     (case cli_cmd c of
        Some CmdDaemon \<Rightarrow> ([], [], Inr (RunDaemon (cli_port c)))
      | Some (CmdServe operation) \<Rightarrow> ([], [], Inr (RunAgent (serve_request operation) (cli_port c)))
      | Some (CmdAttach sid) \<Rightarrow> with_config env c (\<lambda>cfg. client_attach env cfg sid)
      | Some CmdLs \<Rightarrow> with_config env c (client_ls env)
      | Some (CmdKill sid) \<Rightarrow> with_config env c (\<lambda>cfg. client_kill env cfg sid)
      | Some (CmdConnect host sid psk_hex) \<Rightarrow>
          (case cli_port c of
             None \<Rightarrow> fails (Root (Failure ''--port is required for __connect''))
           | Some p \<Rightarrow>
               (case parse_psk (hex_decode env) psk_hex of
                  Inl e \<Rightarrow> fails e
                | Inr k \<Rightarrow> ([], [], Inr (Interact host p sid k))))
      | None \<Rightarrow> with_config env c (client_create env))"

text \<open>\<open>main\<close>: the last words of a failed run, and the exit code.\<close>

definition main_exit :: "(error \<Rightarrow> string) \<Rightarrow> error_chain + unit \<Rightarrow> string \<times> nat" where
  "main_exit display res =
     (case res of
        Inl e \<Rightarrow> (''thther: '' @ show_chain display e @ newline, 1)
      | Inr u \<Rightarrow> ([], 0))"

section \<open>From the command line to a session and back\<close>

text \<open>What the program prints on the server when ssh runs it with a command line.\<close>

definition remote_output ::
  "(error \<Rightarrow> string) \<Rightarrow> (control_request \<Rightarrow> string) \<Rightarrow> (control_response \<Rightarrow> string) \<Rightarrow>
     (string \<Rightarrow> error + control_response) \<Rightarrow> agent_env \<Rightarrow> client_env \<Rightarrow> cli \<Rightarrow> bytes" where
  "remote_output display print_req print_resp parse_resp aenv renv c =
     (case dispatch renv c of
        (out, err, Inr (RunAgent req p)) \<Rightarrow>
          as_bytes out @ snd (run_agent display print_req print_resp parse_resp aenv req p)
      | (out, err, res) \<Rightarrow> as_bytes out)"

lemma remote_output_serve:
  assumes "cli_cmd c = Some (CmdServe op)" and "cli_port c = p"
    and "obtain_response print_req parse_resp aenv (serve_request op) p = (evs, Inr resp)"
  shows "remote_output display print_req print_resp parse_resp aenv renv c =
           as_bytes (print_resp resp) @ [0x0A]"
  using assms by (simp add: remote_output_def dispatch_def run_agent_def agent_response_def as_bytes_def)

text \<open>The agent's answer reaches the client through ssh, whatever the login shell prints first.\<close>

lemma remote_answer:
  assumes "require_ssh_target home cfg = Inr tgt"
    and "ssh cl (ssh_args cfg tgt args) (as_bytes (script cl)) =
           Exited None (noise @ remote_output display print_req print_resp parse_resp aenv renv c) err"
    and "cli_cmd c = Some (CmdServe op)" and "cli_port c = p"
    and "obtain_response print_req parse_resp aenv (serve_request op) p = (evs, Inr resp)"
    and "whole_lines noise" and "one_line (print_resp resp)"
    and "parse_response cl (str_trim (print_resp resp)) = Inr resp"
  shows "run_ssh cl home cfg args = Inr resp"
proof -
  from remote_output_serve [OF assms(3-5)] assms(2) have
    "ssh cl (ssh_args cfg tgt args) (as_bytes (script cl)) =
       Exited None (noise @ as_bytes (print_resp resp) @ 0x0A # []) err" by simp
  from run_ssh_line [OF assms(1) this assms(6,7) blank_lines_Nil] assms(8) show ?thesis by simp
qed

lemma answered_session:
  assumes "server_ok sv"
    and "execute_control hx n q denv sv wrapped = Some (sv', resp)" and "resp = Bootstrap q' sid hexkey"
    and "hex_decode env (hx (fresh_key denv)) = Inr (fresh_key denv)" and "length (fresh_key denv) = 32"
  shows "\<exists>a s. live_session sv' sid = Some (a, s) \<and> \<not> is_busy s \<and> q' = q \<and>
           parse_psk (hex_decode env) hexkey = Inr (current_psk s)"
  using execute_bootstrap [OF assms(1) assms(2) [unfolded assms(3)]] assms(4,5)
  by (auto simp: parse_psk_def)

section \<open>Properties\<close>

text \<open>C10. A new session is the one the client dials. If the daemon executes the create request the
  agent makes of the remote command line and answers with a session, the agent gets that answer, and
  JSON and hex read back what they wrote, then whatever whole lines the login shell prints first, the
  client goes on to dial the resolved host at the daemon's own port, with the identifier and the
  current key of a live, idle session of the daemon.\<close>

theorem created_session_is_dialled:
  assumes "run_reachable sv"
    and "execute_control hx n q denv sv (wrap_request (port cfg) (Create cols rows)) = Some (sv', resp)"
    and "resp = Bootstrap q' sid hexkey"
    and "obtain_response print_req parse_resp aenv (Create cols rows) (port cfg) = (evs, Inr resp)"
    and "require_ssh_target (home_dir env) cfg = Inr tgt" and "resolve_tcp_host (home_dir env) cfg = Inr host"
    and "window env = Some (cols, rows)"
    and "cli_cmd c = Some (CmdServe (ServeCreate cols rows))" and "cli_port c = port cfg"
    and "ssh (ssh_side env) (ssh_args cfg tgt (create_args cols rows)) (as_bytes (script (ssh_side env))) =
           Exited None (noise @ remote_output display print_req print_resp parse_resp aenv renv c) err"
    and "whole_lines noise" and "one_line (print_resp resp)"
    and "parse_response (ssh_side env) (str_trim (print_resp resp)) = Inr resp"
    and "hex_decode env (hx (fresh_key denv)) = Inr (fresh_key denv)" and "length (fresh_key denv) = 32"
  shows "\<exists>a s msg. live_session sv' sid = Some (a, s) \<and> \<not> is_busy s \<and> q' = q \<and>
           client_create env cfg = ([], msg, Inr (Interact host q sid (current_psk s)))"
proof -
  have "obtain_response print_req parse_resp aenv (serve_request (ServeCreate cols rows)) (port cfg) =
      (evs, Inr resp)" using assms(4) by simp
  note run = remote_answer [OF assms(5,10,8,9) this assms(11-13)]
  from answered_session [OF run_reachable_ok [OF assms(1)] assms(2,3,14,15)] obtain a s where
      s: "live_session sv' sid = Some (a, s)" "\<not> is_busy s" "q' = q"
        "parse_psk (hex_decode env) hexkey = Inr (current_psk s)" by blast
  with run assms(3,6,7) show ?thesis
    by (simp add: client_create_def bootstrap_create_def)
qed

text \<open>A run: the shell greets, the daemon creates a session with a key of 32 bytes.\<close>

definition run_env :: daemon_env where
  "run_env = (plain_env\<lparr>rng := (\<lambda>_. 7), fresh_key := replicate 32 1\<rparr>)"

definition run_answer :: control_response where
  "run_answer = Bootstrap 60000 (hex8 7) (string_of_bytes (replicate 32 1))"

definition run_parse :: "control_response \<Rightarrow> string \<Rightarrow> error + control_response" where
  "run_parse answer s = (if s = ''ok'' then Inr answer else Inl ConnectFailed)"

definition run_agent_env :: agent_env where
  "run_agent_env =
     \<lparr>sock_path = [], log_path = [], first_dial = Dialed (plain_link ''ok''), loaded = Inr default_config,
      spawn_with = all_spawn, turns = (\<lambda>_. (NoListener, StillRunning))\<rparr>"

definition run_client :: "control_response \<Rightarrow> client_env" where
  "run_client answer =
     \<lparr>ssh_side = \<lparr>ssh = (\<lambda>args input. Exited None (as_bytes ''hi'' @ 0x0A # as_bytes ''ok'' @ [0x0A]) []),
        script = [], parse_response = run_parse answer, debug_str = (\<lambda>s. s)\<rparr>,
      home_dir = None, config_file = FileMissing, parse_toml = (\<lambda>_. Inl ConnectFailed),
      hex_decode = (\<lambda>s. Inr (as_bytes s)), window = Some (80, 24)\<rparr>"

definition run_config :: config where
  "run_config = default_config\<lparr>ssh_target := Some ''me@box''\<rparr>"

definition run_cli :: "serve_op \<Rightarrow> cli" where
  "run_cli op = \<lparr>cli_target = None, cli_ssh_port = None, cli_port = None, cli_cmd = Some (CmdServe op)\<rparr>"

lemma trim_ok: "str_trim ''ok'' = ''ok''" "str_trim (''ok'' @ [CHR 0x0A]) = ''ok''"
  by code_simp+

lemma run_line: "one_line ''ok''" "whole_lines (as_bytes ''hi'' @ [0x0A])"
proof -
  have "valid_utf8 (as_bytes ''ok'')" by code_simp
  then show "one_line ''ok''" by (simp add: one_line_def trim_ok)
  show "whole_lines (as_bytes ''hi'' @ [0x0A])" by (simp add: whole_lines_def)
qed

lemma run_port [simp]: "port run_config = None"
  by (simp add: run_config_def default_config_def)

lemma run_obtained:
  "\<exists>evs. obtain_response (\<lambda>_. []) (run_parse answer) run_agent_env req (port run_config) = (evs, Inr answer)"
  by (simp add: obtain_response_def Let_def run_agent_env_def try_request_at_def exchange_def plain_link_def
      trim_ok run_parse_def reliable_open_sink)

lemma run_facts:
  "resolve_tcp_host (home_dir (run_client answer)) run_config = Inr ''box''"
  "require_ssh_target (home_dir (run_client answer)) run_config = Inr ''me@box''"
  "window (run_client answer) = Some (80, 24)" "cli_cmd (run_cli op) = Some (CmdServe op)"
  "cli_port (run_cli op) = port run_config"
  "parse_response (ssh_side (run_client answer)) (str_trim ''ok'') = Inr answer"
  "hex_decode (run_client answer) (string_of_bytes (fresh_key run_env)) = Inr (fresh_key run_env)"
  "length (fresh_key run_env) = 32"
  by (simp_all add: resolve_tcp_host_def require_ssh_target_def run_config_def after_last_at_def
      run_client_def run_cli_def default_config_def run_parse_def trim_ok run_env_def)

lemma run_ssh_output:
  "ssh (ssh_side (run_client answer)) (ssh_args run_config ''me@box'' args)
      (as_bytes (script (ssh_side (run_client answer)))) =
    Exited None ((as_bytes ''hi'' @ [0x0A]) @
      remote_output (\<lambda>_. []) (\<lambda>_. []) (\<lambda>_. ''ok'') (run_parse answer) run_agent_env (run_client answer)
        (run_cli op)) []"
proof -
  obtain evs where "obtain_response (\<lambda>_. []) (run_parse answer) run_agent_env (serve_request op)
      (port run_config) = (evs, Inr answer)"
    using run_obtained by blast
  from remote_output_serve [OF run_facts(4,5) this] show ?thesis
    by (simp add: run_client_def)
qed

lemma run_new_id: "new_session_id empty_server (\<lambda>_. 7) 0 = Some (hex8 7)"
  using new_session_id_found [of empty_server "\<lambda>_. 7" 0 0] by (simp add: reg_contains_def empty_server_def)

theorem created_session_is_dialled_witness:
  "\<exists>sv' a s msg. live_session sv' (hex8 7) = Some (a, s) \<and>
     client_create (run_client run_answer) run_config =
       ([], msg, Inr (Interact ''box'' 60000 (hex8 7) (current_psk s)))"
proof -
  have new: "new_session_id empty_server (rng run_env) 0 = Some (hex8 7)"
    by (simp add: run_env_def run_new_id)
  obtain sv' where exec:
      "execute_control string_of_bytes 16 60000 run_env empty_server
         (wrap_request (port run_config) (Create 80 24)) = Some (sv', run_answer)"
    using do_create_eq [OF new, of string_of_bytes 16 60000 80 24]
    by (auto simp: execute_control_def wrap_request_def run_env_def run_answer_def Let_def)
  obtain evs where obt:
      "obtain_response (\<lambda>_. []) (run_parse run_answer) run_agent_env (Create 80 24) (port run_config) =
         (evs, Inr run_answer)"
    using run_obtained by blast
  from created_session_is_dialled [OF run_reachable.started exec run_answer_def obt run_facts(2,1,3,4,5)
      run_ssh_output run_line(2,1) run_facts(6-8)]
  show ?thesis by blast
qed

text \<open>C14. A session that cannot be started leaves no trace and is reported: when opening the PTY or
  starting the shell fails, the server is as it was and the client fails with the reason, having
  dialled nothing, if the answer travels as above.\<close>

theorem failed_create_reported:
  assumes "spawn_error denv = Some e" and "port cfg = None \<or> port cfg = Some q"
    and "execute_control hx n q denv sv (wrap_request (port cfg) (Create cols rows)) = Some (sv', resp)"
    and "obtain_response print_req parse_resp aenv (Create cols rows) (port cfg) = (evs, Inr resp)"
    and "require_ssh_target (home_dir env) cfg = Inr tgt" and "resolve_tcp_host (home_dir env) cfg = Inr host"
    and "window env = Some (cols, rows)"
    and "cli_cmd c = Some (CmdServe (ServeCreate cols rows))" and "cli_port c = port cfg"
    and "ssh (ssh_side env) (ssh_args cfg tgt (create_args cols rows)) (as_bytes (script (ssh_side env))) =
           Exited None (noise @ remote_output display print_req print_resp parse_resp aenv renv c) err"
    and "whole_lines noise" and "one_line (print_resp resp)"
    and "parse_response (ssh_side env) (str_trim (print_resp resp)) = Inr resp"
  shows "sv' = sv \<and> client_create env cfg = ([], [], Inl (Root (Failure (''spawn failed: '' @ e))))"
proof -
  have "obtain_response print_req parse_resp aenv (serve_request (ServeCreate cols rows)) (port cfg) =
      (evs, Inr resp)" using assms(4) by simp
  note run = remote_answer [OF assms(5,10,8,9) this assms(11-13)]
  from assms(1-3) have "sv' = sv" "resp = ErrResponse (''spawn failed: '' @ e)"
    by (auto simp: execute_control_def wrap_request_def do_create_def spawn_session_eq Let_def
        split: option.splits)
  with run assms(6,7) show ?thesis
    by (simp add: client_create_def bootstrap_create_def fails_def)
qed

theorem failed_create_reported_witness:
  "client_create (run_client (ErrResponse ''spawn failed: no pty'')) run_config =
     ([], [], Inl (Root (Failure ''spawn failed: no pty'')))"
proof -
  let ?denv = "run_env\<lparr>pty_calls := pty_works\<lparr>openpty := Some ''no pty''\<rparr>\<rparr>"
  let ?answer = "ErrResponse ''spawn failed: no pty''"
  have fail: "spawn_error ?denv = Some ''no pty''" by (simp add: spawn_error_def)
  have p: "port run_config = None \<or> port run_config = Some 60000" by simp
  have exec: "execute_control string_of_bytes 16 60000 ?denv empty_server
      (wrap_request (port run_config) (Create 80 24)) = Some (empty_server, ?answer)"
    using run_new_id fail
    by (simp add: execute_control_def wrap_request_def do_create_def spawn_session_eq Let_def run_env_def)
  obtain evs where obt:
      "obtain_response (\<lambda>_. []) (run_parse ?answer) run_agent_env (Create 80 24) (port run_config) =
         (evs, Inr ?answer)"
    using run_obtained by blast
  from failed_create_reported [OF fail p exec obt run_facts(2,1,3,4,5) run_ssh_output run_line(2,1) run_facts(6)]
  show ?thesis by simp
qed

end
