(* ===== verification/Resume.thy ===== *)
theory Resume
  imports Connection Client_Session
begin

text \<open>
  The path of the shell's output across reconnects: one session of the server, the
  client's standard output, and the connections that come and go between them. The steps
  are the modelled functions: \<open>pty_output\<close> of the PTY reader, one iteration of
  \<open>server_writer\<close>, \<open>accept\<close> of the client's reader, and the offset checks of a new
  connection. The history, all the output the shell has produced, is a ghost.
\<close>

section \<open>The world and its steps\<close>

record conn =
  conn_cursor :: u64
  conn_epoch :: u64
  in_flight :: "(u64 \<times> bytes) list"

record world =
  sess :: session
  hist :: bytes
  screen :: session_output
  alive :: bool
  conn :: "conn option"

definition start_world :: "session \<Rightarrow> world" where
  "start_world s =
     \<lparr>sess = s, hist = [], screen = new_output open_sink, alive = True, conn = None\<rparr>"

definition observe :: "session \<Rightarrow> wake \<Rightarrow> writer_obs" where
  "observe s k = \<lparr>seen_epoch = s, seen_ring = s, seen_ended = s, woken = k\<rparr>"

text \<open>
  \<open>shell\<close>: the PTY reader appends output. \<open>upkeep\<close>: anything else the daemon does with
  the session; none of it touches the ring buffer. \<open>client\<close>: a new client process.
  \<open>connect\<close>: a connection whose offset passes the checks of both ends begins to be served, with
  the epoch \<open>become_active\<close> has given it (which is upkeep), current or no longer. \<open>serve\<close>: one
  iteration of the connection's writer. \<open>deliver\<close> and \<open>deliver_error\<close>: the client takes
  the next frame. \<open>lose\<close>: the connection breaks, with whatever was in flight.
\<close>

inductive step :: "world \<Rightarrow> world \<Rightarrow> bool" where
  shell: "length (hist w) + length bs < 2 ^ 64 \<Longrightarrow>
     step w (w\<lparr>sess := pty_output (sess w) bs, hist := hist w @ bs\<rparr>)"
| upkeep: "ring s' = ring (sess w) \<Longrightarrow> step w (w\<lparr>sess := s'\<rparr>)"
| client: "written out = [] \<Longrightarrow> step w (w\<lparr>screen := new_output out, alive := True, conn := None\<rparr>)"
| connect: "alive w \<Longrightarrow> received (screen w) \<le> current_total (sess w) \<Longrightarrow>
     step w (w\<lparr>conn := Some \<lparr>conn_cursor = received (screen w), conn_epoch = e, in_flight = []\<rparr>\<rparr>)"
| serve: "conn w = Some c \<Longrightarrow>
     server_writer log_frame [] (conn_cursor c) (conn_epoch c) [observe (sess w) k] = (fs, cur', stop) \<Longrightarrow>
     step w (w\<lparr>conn := Some (c\<lparr>conn_cursor := cur', in_flight := in_flight c @ outputs fs\<rparr>)\<rparr>)"
| deliver: "conn w = Some c \<Longrightarrow> in_flight c = (off, d) # fs \<Longrightarrow>
     accept (screen w) off d = (t', Inr u) \<Longrightarrow>
     step w (w\<lparr>screen := t', conn := Some (c\<lparr>in_flight := fs\<rparr>)\<rparr>)"
| deliver_error: "conn w = Some c \<Longrightarrow> in_flight c = (off, d) # fs \<Longrightarrow>
     accept (screen w) off d = (t', Inl e) \<Longrightarrow>
     step w (w\<lparr>screen := t', alive := False, conn := None\<rparr>)"
| lose: "step w (w\<lparr>conn := None\<rparr>)"

inductive reachable :: "session \<Rightarrow> world \<Rightarrow> bool" for s where
  start: "session_rep s [] \<Longrightarrow> reachable s (start_world s)"
| more: "reachable s w \<Longrightarrow> step w w' \<Longrightarrow> reachable s w'"

inductive_cases stepE: "step w w'"

section \<open>The invariant\<close>

text \<open>The whole history is still in the ring buffer.\<close>

definition retained :: "world \<Rightarrow> bool" where
  "retained w \<longleftrightarrow> length (hist w) \<le> r_cap (ring (sess w))"

definition conn_ok :: "world \<Rightarrow> conn \<Rightarrow> bool" where
  "conn_ok w c \<longleftrightarrow>
     (\<exists>k. k \<le> unat (received (screen w)) \<and> slices (hist w) k (in_flight c) (unat (conn_cursor c)) \<and>
          unat (conn_cursor c) \<le> length (hist w) \<and> (retained w \<longrightarrow> gapless k (in_flight c)))"

definition screen_ok :: "world \<Rightarrow> bool" where
  "screen_ok w \<longleftrightarrow> (\<exists>ps. showing (screen w) (hist w) ps \<and> (retained w \<longrightarrow> no_gap ps))"

definition world_ok :: "world \<Rightarrow> bool" where
  "world_ok w \<longleftrightarrow>
     session_rep (sess w) (hist w) \<and> (alive w \<longrightarrow> screen_ok w) \<and>
     (\<forall>c. conn w = Some c \<longrightarrow> alive w \<and> conn_ok w c)"

lemma conn_update [simp]:
  "retained (w\<lparr>conn := x\<rparr>) = retained w" "screen_ok (w\<lparr>conn := x\<rparr>) = screen_ok w"
  "retained (w\<lparr>screen := t\<rparr>) = retained w"
  by (simp_all add: retained_def screen_ok_def)

lemma conn_okI:
  assumes "k \<le> unat (received (screen w))" and "slices (hist w) k (in_flight c) (unat (conn_cursor c))"
    and "unat (conn_cursor c) \<le> length (hist w)" and "retained w \<Longrightarrow> gapless k (in_flight c)"
  shows "conn_ok w c"
  using assms unfolding conn_ok_def by blast

lemma showing_history: "showing so h ps \<Longrightarrow> showing so (h @ b) ps"
  by (auto simp: showing_def render_history)

lemma showing_new: "written out = [] \<Longrightarrow> showing (new_output out) h []"
  by (simp add: showing_def new_output_def)

lemma retained_append: "retained (w\<lparr>sess := pty_output (sess w) bs, hist := hist w @ bs\<rparr>) \<Longrightarrow> retained w"
  by (simp add: retained_def pty_output_def notify_def)

text \<open>One iteration of the writer against the current session.\<close>

lemma serve_slices:
  assumes "session_rep s h" and "unat cur \<le> length h"
    and "server_writer log_frame [] cur e [observe s k] = (fs, cur', stop)"
  shows "slices h (unat cur) (outputs fs) (unat cur') \<and> unat cur' \<le> length h \<and>
         (length h \<le> r_cap (ring s) \<longrightarrow> gapless (unat cur) (outputs fs))"
proof -
  have "observed h h [observe s k]"
    using assms(1) by (auto simp: observe_def)
  from server_writer_slices [OF this assms(2,3)]
  have sl: "slices h (unat cur) (outputs fs) (unat cur')" by auto
  from slices_bounds [OF this assms(2)] have "unat cur' \<le> length h" by simp
  moreover
  have "gapless (unat cur) (outputs fs)" if "length h \<le> r_cap (ring s)"
  proof -
    obtain off d where rd: "session_read_from s cur = (off, d)" by force
    have "session_first s h \<le> unat cur"
      using that by (simp add: session_first_def ring_first_def)
    with session_log.read_retained [OF assms(1) _ assms(2) rd] have "off = cur" by simp
    with assms(3) rd show ?thesis
      by (auto simp: observe_def log_frame_fold Let_def split: if_splits wake.splits)
  qed
  ultimately show ?thesis using sl by simp
qed

lemma deliver_ok:
  assumes w: "world_ok w" and c: "conn w = Some c" and fl: "in_flight c = (off, d) # fs"
    and acc: "accept (screen w) off d = (t', Inr u)"
  shows "world_ok (w\<lparr>screen := t', conn := Some (c\<lparr>in_flight := fs\<rparr>)\<rparr>)"
proof -
  let ?r = "unat (received (screen w))"
  from w c obtain k ps where rep: "session_rep (sess w) (hist w)" and "alive w"
    and k: "k \<le> ?r" "slices (hist w) k ((off, d) # fs) (unat (conn_cursor c))"
      "unat (conn_cursor c) \<le> length (hist w)" "retained w \<longrightarrow> gapless k ((off, d) # fs)"
    and ps: "showing (screen w) (hist w) ps" "retained w \<longrightarrow> no_gap ps"
    by (auto simp: world_ok_def conn_ok_def screen_ok_def fl)
  have sl: "slice (hist w) off d" using k(2) by (simp add: slice_def)
  from session_terminal.take_ok [OF ps(1) sl session_log.rep_bound [OF rep] acc]
  have new: "showing t' (hist w) (ps @ new_pieces ?r (unat off) (unat off + length d))"
    and pos: "unat (received t') = max ?r (unat off + length d)" by auto
  have "no_gap (new_pieces ?r (unat off) (unat off + length d))" if "retained w"
    using k(1,4) that by (auto simp: new_pieces_def)
  with new ps(2) have "screen_ok (w\<lparr>screen := t', conn := Some (c\<lparr>in_flight := fs\<rparr>)\<rparr>)"
    by (auto simp: screen_ok_def)
  moreover have "conn_ok (w\<lparr>screen := t', conn := Some (c\<lparr>in_flight := fs\<rparr>)\<rparr>) (c\<lparr>in_flight := fs\<rparr>)"
    using k pos by (intro conn_okI [of "unat off + length d"]) simp_all
  ultimately show ?thesis using rep \<open>alive w\<close> by (simp add: world_ok_def)
qed

lemma serve_ok:
  assumes w: "world_ok w" and c: "conn w = Some c"
    and sv: "server_writer log_frame [] (conn_cursor c) (conn_epoch c) [observe (sess w) k] = (fs, cur', stop)"
  shows "world_ok (w\<lparr>conn := Some (c\<lparr>conn_cursor := cur', in_flight := in_flight c @ outputs fs\<rparr>)\<rparr>)"
proof -
  from w c obtain j where rep: "session_rep (sess w) (hist w)" and "alive w" "screen_ok w"
    and j: "j \<le> unat (received (screen w))" "slices (hist w) j (in_flight c) (unat (conn_cursor c))"
      "unat (conn_cursor c) \<le> length (hist w)" "retained w \<longrightarrow> gapless j (in_flight c)"
    by (auto simp: world_ok_def conn_ok_def)
  note s = serve_slices [OF rep j(3) sv]
  have "slices (hist w) j (in_flight c @ outputs fs) (unat cur')"
    using j(2) s by (auto simp: slices_append)
  moreover have "retained w \<longrightarrow> gapless j (in_flight c @ outputs fs)"
    using j s by (simp add: gapless_append [OF j(2)] retained_def)
  ultimately
  have "conn_ok (w\<lparr>conn := Some (c\<lparr>conn_cursor := cur', in_flight := in_flight c @ outputs fs\<rparr>)\<rparr>)
      (c\<lparr>conn_cursor := cur', in_flight := in_flight c @ outputs fs\<rparr>)"
    using j(1) s by (intro conn_okI [of j]) simp_all
  then show ?thesis
    using rep \<open>alive w\<close> \<open>screen_ok w\<close> by (simp add: world_ok_def)
qed

lemma output_ok:
  assumes w: "world_ok w" and len: "length (hist w) + length bs < 2 ^ 64"
  shows "world_ok (w\<lparr>sess := pty_output (sess w) bs, hist := hist w @ bs\<rparr>)"
proof -
  let ?w = "w\<lparr>sess := pty_output (sess w) bs, hist := hist w @ bs\<rparr>"
  have "session_rep (sess ?w) (hist ?w)"
    using w session_log.rep_append [OF _ len] by (simp add: world_ok_def)
  moreover have "screen_ok ?w" if "screen_ok w"
    using that retained_append [of w bs] by (auto simp: screen_ok_def dest: showing_history)
  moreover have "conn_ok ?w c" if "conn_ok w c" for c
  proof -
    from that obtain k where k: "k \<le> unat (received (screen w))"
        "slices (hist w) k (in_flight c) (unat (conn_cursor c))"
        "unat (conn_cursor c) \<le> length (hist w)" "retained w \<longrightarrow> gapless k (in_flight c)"
      by (auto simp: conn_ok_def)
    then show ?thesis
      using retained_append [of w bs] slices_append_history [OF k(2), of bs]
      by (intro conn_okI [of k]) simp_all
  qed
  ultimately show ?thesis using w by (auto simp: world_ok_def)
qed

lemma step_ok: "step w w' \<Longrightarrow> world_ok w \<Longrightarrow> world_ok w'"
proof (induction rule: step.induct)
  case (shell w bs)
  then show ?case by (simp add: output_ok)
next
  case (upkeep s' w)
  then show ?case
    by (auto simp: world_ok_def session_rep_def screen_ok_def conn_ok_def retained_def)
next
  case (client out w)
  then show ?case
    by (auto simp: world_ok_def screen_ok_def dest: showing_new intro!: exI [of _ "[]"])
next
  case (connect w e)
  then have "unat (received (screen w)) \<le> length (hist w)"
    using ring_rep_total [of "ring (sess w)" "hist w"]
    by (auto simp: world_ok_def session_rep_def current_total_def u64_le_iff)
  with connect show ?case
    by (auto simp: world_ok_def session_rep_def screen_ok_def conn_ok_def retained_def)
next
  case (serve w c k fs cur' stop)
  then show ?case by (simp add: serve_ok)
next
  case (deliver w c off d fs t' u)
  then show ?case by (simp add: deliver_ok)
next
  case (deliver_error w c off d fs t' e)
  then show ?case by (auto simp: world_ok_def)
next
  case (lose w)
  then show ?case by (auto simp: world_ok_def screen_ok_def retained_def)
qed

interpretation world_steps: step_invariant step world_ok
  by unfold_locales (rule step_ok)

lemma reachable_runs: "reachable s w \<Longrightarrow> session_rep s [] \<and> step\<^sup>*\<^sup>* (start_world s) w"
  by (induction rule: reachable.induct) auto

lemma start_world_ok: "session_rep s [] \<Longrightarrow> world_ok (start_world s)"
  by (auto simp: world_ok_def start_world_def screen_ok_def intro!: exI [of _ "[]"] showing_new)

lemma reachable_ok: "reachable s w \<Longrightarrow> world_ok w"
  by (blast dest: reachable_runs intro: world_steps.keeps_runs start_world_ok)

section \<open>Catching up\<close>

lemma accept_reliable:
  assumes "reliable (writer so)" and "slice h off d" and "length h < 2 ^ 64"
  shows "\<exists>so'. accept so off d = (so', Inr ()) \<and> reliable (writer so')"
proof -
  have f: "flush_ok (writer so)" using assms(1) by (simp add: reliable_def)
  from slice_end [OF assms(2,3)] obtain e where
      "checked_add off (word_of_nat (length d)) = Some e" by blast
  with assms(1) f show ?thesis by (auto simp: accept_def Let_def)
qed

lemma feed_reliable:
  "reliable (writer so) \<Longrightarrow> slices h c fs e \<Longrightarrow> length h < 2 ^ 64 \<Longrightarrow>
     \<exists>so'. feed accept so fs = (so', Inr ()) \<and> reliable (writer so')"
proof (induction fs arbitrary: so c)
  case Nil
  then show ?case by simp
next
  case (Cons f fs)
  obtain off d where f: "f = (off, d)" by force
  with Cons.prems have "slice h off d" and "slices h (unat off + length d) fs e"
    by (auto simp: slice_def)
  with accept_reliable [OF Cons.prems(1) _ Cons.prems(3)] Cons.IH Cons.prems(3) f show ?case
    by fastforce
qed

text \<open>Chunks of the history that lead to its end, all accepted, bring everything.\<close>

lemma catch_up_slices:
  assumes "world_ok w" and "alive w" and "reliable (writer (screen w))"
    and "k \<le> unat (received (screen w))" and "slices (hist w) k fs (length (hist w))"
    and "retained w \<Longrightarrow> gapless k fs"
  shows "\<exists>t ps. feed accept (screen w) fs = (t, Inr ()) \<and> unat (received t) = length (hist w) \<and>
             showing t (hist w) ps \<and> (retained w \<longrightarrow> no_gap ps)"
proof -
  let ?r = "unat (received (screen w))"
  from assms(1,2) obtain ps where rep: "session_rep (sess w) (hist w)"
    and ps: "showing (screen w) (hist w) ps" and ng: "retained w \<longrightarrow> no_gap ps"
    by (auto simp: world_ok_def screen_ok_def)
  then have le: "?r \<le> length (hist w)" by (simp add: showing_def)
  note len = session_log.rep_bound [OF rep]
  from feed_reliable [OF assms(3,5) len] obtain t where
      t: "feed accept (screen w) fs = (t, Inr ())" by blast
  from session_terminal.take_run [OF ps assms(5) len t] assms(4) le obtain qs where
      qs: "showing t (hist w) (ps @ qs)" "unat (received t) = length (hist w)" "gapless k fs \<longrightarrow> no_gap qs" by auto
  then show ?thesis
    using t ng assms(6) by (intro exI [of _ t] exI [of _ "ps @ qs"]) auto
qed

lemma catch_up_aux:
  assumes "world_ok w" and "alive w" and "reliable (writer (screen w))"
    and "length (hist w) \<le> n" and "drain n (session_read_from (sess w)) (received (screen w)) = (fs, cur)"
  shows "\<exists>t ps. feed accept (screen w) fs = (t, Inr ()) \<and> unat (received t) = length (hist w) \<and>
             showing t (hist w) ps \<and> (retained w \<longrightarrow> no_gap ps)"
proof -
  let ?r = "unat (received (screen w))"
  from assms(1,2) have rep: "session_rep (sess w) (hist w)" and le: "?r \<le> length (hist w)"
    by (auto simp: world_ok_def screen_ok_def showing_def)
  from session_log.drain_slices [OF rep le assms(5)] session_log.drain_complete [OF rep le _ assms(5)] assms(4)
  have "slices (hist w) ?r fs (length (hist w))" by simp
  moreover have "gapless ?r fs" if "retained w"
    using that by (intro session_log.drain_gapless [OF rep le _ assms(5)])
      (simp add: retained_def session_first_def ring_first_def)
  ultimately show ?thesis by (intro catch_up_slices [OF assms(1-3) order.refl])
qed

text \<open>The writer's loop against a session at rest sends what \<open>drain\<close> reads, whatever wakes it.\<close>

lemma drain_done: "rd c = (off, d) \<Longrightarrow> d = [] \<Longrightarrow> \<not> off > c \<Longrightarrow> drain n rd c = ([], c)"
  by (cases n) simp_all

lemma server_writer_drain:
  "is_current s e \<Longrightarrow>
   server_writer log_frame fs c e (replicate n (observe s k)) = (fs', c', stop) \<Longrightarrow>
     \<exists>gs. fs' = fs @ gs \<and> drain n (session_read_from s) c = (outputs gs, c')"
proof (induction n arbitrary: fs c)
  case 0
  then show ?case by (auto intro!: exI [of _ "[]"])
next
  case (Suc n)
  obtain off d where rd: "session_read_from s c = (off, d)" by force
  show ?case
  proof (cases "d \<noteq> [] \<or> off > c")
    case True
    let ?c = "off + word_of_nat (length d)"
    from Suc.prems rd True
    have "server_writer log_frame (fs @ [Output off d]) ?c e (replicate n (observe s k)) = (fs', c', stop)"
      by (simp add: observe_def Let_def log_frame_fold)
    from Suc.IH [OF Suc.prems(1) this] obtain gs where
        "fs' = fs @ Output off d # gs" "drain n (session_read_from s) ?c = (outputs gs, c')" by auto
    with rd True show ?thesis by (intro exI [of _ "Output off d # gs"]) (auto simp: Let_def)
  next
    case False
    then have none: "drain m (session_read_from s) c = ([], c)" for m
      using drain_done [of "session_read_from s" c off d] rd by simp
    have stay: "\<exists>gs. fs' = fs @ gs \<and> ([], c) = (outputs gs, c')"
      if "server_writer log_frame (fs @ xs) c e (replicate n (observe s k)) = (fs', c', stop)"
        and "outputs xs = []" for xs
    proof -
      from Suc.IH [OF Suc.prems(1) that(1)] that(2) none show ?thesis
        by (metis (no_types, lifting) append.assoc append_self_conv2 outputs_append)
    qed
    from Suc.prems rd False stay [of "[]"] stay [of "[Pong]"] stay [of "[Ping]"] show ?thesis
      unfolding none
      by (auto simp: observe_def log_frame_fold split: wake.splits if_splits
          intro: exI [of _ "[]"] exI [of _ "[Ended]"])
  qed
qed

text \<open>Against an ended session at rest the loop ends, having sent everything and then the end.\<close>

lemma server_writer_ended:
  assumes rep: "session_rep s h" and cur: "is_current s e" and over: "is_ended s"
  shows "unat c \<le> length h \<Longrightarrow> length h - unat c < n \<Longrightarrow>
    server_writer log_frame fs c e (replicate n (observe s k)) = (fs', c', stop) \<Longrightarrow>
      stop = Some SessionOver \<and> (\<exists>gs. fs' = fs @ gs @ [Ended] \<and> list_all is_output gs \<and>
        slices h (unat c) (outputs gs) (length h))"
proof (induction n arbitrary: fs c)
  case 0
  then show ?case by simp
next
  case (Suc n)
  obtain off d where rd: "session_read_from s c = (off, d)" by force
  note sl = session_log.read_slice [OF rep Suc.prems(1) rd]
  note ex = session_log.cursor_exact [OF rep Suc.prems(1) rd]
  show ?case
  proof (cases "d \<noteq> [] \<or> off > c")
    case True
    let ?c = "off + word_of_nat (length d)"
    have lt: "unat c < unat off + length d"
      using True sl by (cases d) (auto simp: word_less_nat_alt)
    have run: "server_writer log_frame (fs @ [Output off d]) ?c e (replicate n (observe s k)) = (fs', c', stop)"
      using Suc.prems(3) cur rd True by (simp add: observe_def Let_def log_frame_fold)
    have "unat ?c \<le> length h" "length h - unat ?c < n"
      using sl ex lt Suc.prems(2) by auto
    from Suc.IH [OF this run] ex obtain gs where
        "stop = Some SessionOver" "fs' = fs @ (Output off d # gs) @ [Ended]" "list_all is_output gs"
        "slices h (unat off + length d) (outputs gs) (length h)" by auto
    with sl show ?thesis by (intro conjI exI [of _ "Output off d # gs"]) simp_all
  next
    case False
    then have "\<not> unat c < length h"
      using session_log.read_progress [OF rep _ rd] by (auto simp: word_less_nat_alt)
    moreover have "fs' = fs @ [Ended] \<and> stop = Some SessionOver"
      using Suc.prems(3) cur rd False over by (auto simp: observe_def log_frame_fold)
    ultimately show ?thesis using Suc.prems(1) by (intro conjI exI [of _ "[]"]) simp_all
  qed
qed

text \<open>What a connection that takes over brings, in any world that is in order.\<close>

lemma ok_catches_up:
  assumes "world_ok w" and "alive w" and "reliable (writer (screen w))"
    and "become_active (sess w) = (s', e)"
    and "server_writer log_frame [] (received (screen w)) e
           (replicate (length (hist w)) (observe s' k)) = (fs, cur', stop)"
  shows "\<exists>t. feed accept (screen w) (outputs fs) = (t, Inr ()) \<and>
             unat (received t) = length (hist w) \<and>
             (length (hist w) \<le> r_cap (ring (sess w)) \<longrightarrow> written (writer t) = hist w)"
proof -
  have "is_current s' e" and rg: "ring s' = ring (sess w)"
    using session_takeover.activate_current [OF assms(4)] ring_frame(2) [of "sess w"] assms(4) by auto
  then have rd: "session_read_from s' = session_read_from (sess w)"
    by (simp add: fun_eq_iff session_read_from_def)
  from server_writer_drain [OF \<open>is_current s' e\<close> assms(5)] have
    "drain (length (hist w)) (session_read_from (sess w)) (received (screen w)) = (outputs fs, cur')"
    unfolding rd by simp
  from catch_up_aux [OF assms(1) assms(2,3) order.refl this] obtain t ps where
      t: "feed accept (screen w) (outputs fs) = (t, Inr ())" "unat (received t) = length (hist w)"
      "showing t (hist w) ps" "retained w \<longrightarrow> no_gap ps" by blast
  then show ?thesis
    using render_no_gap [of 0 ps _ "hist w"] by (auto simp: showing_def retained_def)
qed

text \<open>What a connection that is current brings, with what it has in flight.\<close>

lemma ok_connection_catches_up:
  assumes "world_ok w" and "alive w" and "reliable (writer (screen w))"
    and "conn w = Some c" and "is_current (sess w) (conn_epoch c)"
    and "server_writer log_frame [] (conn_cursor c) (conn_epoch c)
           (replicate (length (hist w)) (observe (sess w) k)) = (fs, cur', stop)"
  shows "\<exists>t. feed accept (screen w) (in_flight c @ outputs fs) = (t, Inr ()) \<and>
             unat (received t) = length (hist w) \<and>
             (length (hist w) \<le> r_cap (ring (sess w)) \<longrightarrow> written (writer t) = hist w)"
proof -
  let ?h = "hist w" and ?c = "unat (conn_cursor c)"
  from assms(1,2,4) obtain j where rep: "session_rep (sess w) ?h"
    and j: "j \<le> unat (received (screen w))" "slices ?h j (in_flight c) ?c" "?c \<le> length ?h"
      "retained w \<longrightarrow> gapless j (in_flight c)"
    by (auto simp: world_ok_def conn_ok_def)
  from server_writer_drain [OF assms(5,6)] have
    dr: "drain (length ?h) (session_read_from (sess w)) (conn_cursor c) = (outputs fs, cur')" by simp
  have "slices ?h ?c (outputs fs) (length ?h)"
    using session_log.drain_slices [OF rep j(3) dr] session_log.drain_complete [OF rep j(3) _ dr] by simp
  with j(2) have "slices ?h j (in_flight c @ outputs fs) (length ?h)" by (auto simp: slices_append)
  moreover have "gapless ?c (outputs fs)" if "retained w"
    using that by (intro session_log.drain_gapless [OF rep j(3) _ dr])
      (simp add: retained_def session_first_def ring_first_def)
  then have "gapless j (in_flight c @ outputs fs)" if "retained w"
    using that j(4) by (simp add: gapless_append [OF j(2)])
  ultimately obtain t ps where
      "feed accept (screen w) (in_flight c @ outputs fs) = (t, Inr ())" "unat (received t) = length ?h"
      "showing t ?h ps" "retained w \<longrightarrow> no_gap ps"
    using catch_up_slices [OF assms(1-3) j(1)] by blast
  then show ?thesis
    using render_no_gap [of 0 ps _ ?h] by (auto simp: showing_def retained_def)
qed

section \<open>A run\<close>

text \<open>A session, two bytes of output, a connection that serves and delivers them.\<close>

definition demo_session :: session where
  "demo_session = new_session ''0000000a'' ''/bin/sh'' 80 24 16 0 [1]"

lemma demo_run:
  "\<exists>w. reachable demo_session w \<and> alive w \<and> hist w = [104, 105] \<and> retained w \<and>
       reliable (writer (screen w)) \<and> received (screen w) = 2 \<and>
       written (writer (screen w)) = [104, 105]"
proof -
  let ?w1 = "(start_world demo_session)\<lparr>sess := pty_output demo_session [104, 105], hist := [104, 105]\<rparr>"
  have "step (start_world demo_session) ?w1"
    using step.shell [of "start_world demo_session" "[104, 105]"] by (simp add: start_world_def)
  moreover have "session_rep demo_session []" by (simp add: demo_session_def session_rep_new)
  ultimately have r1: "reachable demo_session ?w1" by (blast intro: reachable.intros)
  obtain s' where s': "become_active (sess ?w1) = (s', 1)"
    by (simp add: session_defs demo_session_def new_session_def)
  have "ring s' = ring (sess ?w1)" using s' by (metis fst_conv ring_frame(2))
  with r1 have r1': "reachable demo_session (?w1\<lparr>sess := s'\<rparr>)"
    by (blast intro: reachable.more step.upkeep)
  let ?w2 = "?w1\<lparr>sess := s', conn := Some \<lparr>conn_cursor = 0, conn_epoch = 1, in_flight = []\<rparr>\<rparr>"
  have "step (?w1\<lparr>sess := s'\<rparr>) ?w2"
    using step.connect [of "?w1\<lparr>sess := s'\<rparr>" 1] by (simp add: start_world_def new_output_def)
  with r1' have r2: "reachable demo_session ?w2" by (rule reachable.more)
  have wr: "server_writer log_frame [] 0 1 [observe s' DataReady] = ([Output 0 [104, 105]], 2, None)"
    using s' by (auto simp: observe_def session_defs demo_session_def new_session_def ring_new_def
        ring_append_def ring_read_from_def ring_total_def MAX_OUTPUT_BYTES_def log_frame_fold)
  let ?w3 = "?w2\<lparr>conn := Some \<lparr>conn_cursor = 2, conn_epoch = 1, in_flight = [(0, [104, 105])]\<rparr>\<rparr>"
  have "step ?w2 ?w3"
    using step.serve [of ?w2 "\<lparr>conn_cursor = 0, conn_epoch = 1, in_flight = []\<rparr>" DataReady
        "[Output 0 [104, 105]]" 2 None] wr
    by (simp del: server_writer.simps)
  with r2 have r3: "reachable demo_session ?w3" by (rule reachable.more)
  let ?t = "\<lparr>writer = open_sink\<lparr>written := [104, 105]\<rparr>, received = 2\<rparr>"
  have "accept (screen ?w3) 0 [104, 105] = (?t, Inr ())"
    by (simp add: start_world_def accept_def new_output_def open_sink_def write_all_def checked_add_def
        saturating_sub_def)
  then have "step ?w3 (?w3\<lparr>screen := ?t,
      conn := Some \<lparr>conn_cursor = 2, conn_epoch = 1, in_flight = []\<rparr>\<rparr>)"
    using step.deliver [of ?w3 _ 0 "[104, 105]" "[]" ?t "()"] by simp
  with r3 have r4: "reachable demo_session (?w3\<lparr>screen := ?t,
      conn := Some \<lparr>conn_cursor = 2, conn_epoch = 1, in_flight = []\<rparr>\<rparr>)"
    by (rule reachable.more)
  have "r_cap (ring s') = 16"
    using s' by (auto simp: session_defs demo_session_def new_session_def ring_new_def)
  with r4 show ?thesis
    by (auto simp: start_world_def retained_def reliable_def open_sink_def)
qed

section \<open>Properties\<close>

text \<open>Exactly once: in every reachable world, across any number of broken connections,
  resumes, takeovers and partial deliveries, what the client has written to the terminal is
  the shell's output from its beginning to the committed offset, each byte once and in order,
  except for the gaps that its notices announce with their exact length.\<close>

theorem output_exactly_once:
  assumes "reachable s w" and "alive w"
  shows "\<exists>ps. written (writer (screen w)) = render (hist w) ps \<and>
              tiles 0 ps (unat (received (screen w))) \<and>
              unat (received (screen w)) \<le> length (hist w)"
  using reachable_ok [OF assms(1)] assms(2) by (auto simp: world_ok_def screen_ok_def showing_def)

theorem output_exactly_once_witness:
  "\<exists>w ps. reachable demo_session w \<and> written (writer (screen w)) = [104, 105] \<and>
          render [104, 105] ps = [104, 105] \<and> tiles 0 ps 2"
proof -
  from demo_run obtain w where w: "reachable demo_session w" "alive w" "hist w = [104, 105]"
      "received (screen w) = 2" "written (writer (screen w)) = [104, 105]" by blast
  from output_exactly_once [OF w(1,2)] w show ?thesis by fastforce
qed

text \<open>Nothing is lost while the ring buffer holds the whole output: then the terminal shows
  exactly the first bytes of the output, up to the committed offset, without any notice.\<close>

theorem no_loss_while_retained:
  assumes "reachable s w" and "alive w" and "length (hist w) \<le> r_cap (ring (sess w))"
  shows "written (writer (screen w)) = take (unat (received (screen w))) (hist w)"
proof -
  from reachable_ok [OF assms(1)] assms(2,3) obtain ps where
      "showing (screen w) (hist w) ps" "no_gap ps"
    by (auto simp: world_ok_def screen_ok_def retained_def)
  then show ?thesis using render_no_gap [of 0 ps _ "hist w"] by (simp add: showing_def)
qed

theorem no_loss_while_retained_witness:
  "\<exists>w. reachable demo_session w \<and> written (writer (screen w)) = [104, 105] \<and> hist w = [104, 105] \<and>
       take (unat (received (screen w))) (hist w) = [104, 105]"
proof -
  from demo_run obtain w where w: "reachable demo_session w" "alive w" "hist w = [104, 105]"
      "retained w" "written (writer (screen w)) = [104, 105]" by blast
  from no_loss_while_retained [OF w(1,2)] w show ?thesis
    by (intro exI [of _ w]) (simp add: retained_def)
qed

text \<open>Resuming catches up: a connection that takes over in any reachable world and is not
  cut sends, within as many turns of its writer as there are bytes of output, frames that the
  client accepts one and all, and then the client has committed the whole output; it shows it
  byte for byte if the ring buffer still held it.\<close>

theorem resume_catches_up:
  assumes "reachable s w" and "alive w" and "reliable (writer (screen w))"
    and "become_active (sess w) = (s', e)"
    and "server_writer log_frame [] (received (screen w)) e
           (replicate (length (hist w)) (observe s' k)) = (fs, cur', stop)"
  shows "\<exists>t. feed accept (screen w) (outputs fs) = (t, Inr ()) \<and>
             unat (received t) = length (hist w) \<and>
             (length (hist w) \<le> r_cap (ring (sess w)) \<longrightarrow> written (writer t) = hist w)"
  using ok_catches_up [OF reachable_ok [OF assms(1)] assms(2-5)] .

theorem resume_catches_up_witness:
  "\<exists>w s' e fs t. reachable demo_session w \<and> become_active (sess w) = (s', e) \<and>
     fst (server_writer log_frame [] (received (screen w)) e [observe s' DataReady, observe s' DataReady]) = fs \<and>
     feed accept (screen w) (outputs fs) = (t, Inr ()) \<and> written (writer t) = [104, 105]"
proof -
  from demo_run obtain w where w: "reachable demo_session w" "alive w" "hist w = [104, 105]"
      "retained w" "reliable (writer (screen w))" by blast
  obtain s' e where act: "become_active (sess w) = (s', e)" by force
  have two: "replicate (length (hist w)) (observe s' DataReady) = [observe s' DataReady, observe s' DataReady]"
    using w(3) by (simp add: numeral_2_eq_2)
  obtain fs c stop where sv: "server_writer log_frame [] (received (screen w)) e
      [observe s' DataReady, observe s' DataReady] = (fs, c, stop)"
    by (cases "server_writer log_frame [] (received (screen w)) e [observe s' DataReady, observe s' DataReady]")
      blast
  from resume_catches_up [OF w(1,2,5) act, of DataReady fs c stop] sv two w(3,4) obtain t where
      "feed accept (screen w) (outputs fs) = (t, Inr ())" "written (writer t) = [104, 105]"
    by (auto simp: retained_def)
  with w(1) act sv show ?thesis by (metis fst_conv)
qed

text \<open>An ended session is delivered to its end: when the shell's output no longer grows, a
  connection that is not cut makes the writer stop after at most one turn more than there are
  bytes, with the end announced in its last frame and everything before it accepted, so that
  the client has committed the whole output.\<close>

theorem ended_session_delivered:
  assumes "reachable s w" and "alive w" and "reliable (writer (screen w))" and "is_ended (sess w)"
    and "become_active (sess w) = (s', e)"
    and "server_writer log_frame [] (received (screen w)) e
           (replicate (Suc (length (hist w))) (observe s' k)) = (fs, cur', stop)"
  shows "stop = Some SessionOver \<and>
    (\<exists>gs t. fs = gs @ [Ended] \<and> feed accept (screen w) (outputs gs) = (t, Inr ()) \<and>
            unat (received t) = length (hist w) \<and>
            (length (hist w) \<le> r_cap (ring (sess w)) \<longrightarrow> written (writer t) = hist w))"
proof -
  note ok = reachable_ok [OF assms(1)]
  from ok assms(2) obtain ps where rep: "session_rep (sess w) (hist w)" and "showing (screen w) (hist w) ps"
    by (auto simp: world_ok_def screen_ok_def)
  then have le: "unat (received (screen w)) \<le> length (hist w)" by (simp add: showing_def)
  have cur: "is_current s' e" and rg: "ring s' = ring (sess w)" and over: "is_ended s'"
    using session_takeover.activate_current [OF assms(5)] ring_frame(2) [of "sess w"]
      ended_frame(2) [of "sess w"] assms(4,5) by (auto simp: is_ended_def)
  have rep': "session_rep s' (hist w)" using rep rg by (simp add: session_rep_def)
  have "length (hist w) - unat (received (screen w)) < Suc (length (hist w))" by simp
  from server_writer_ended [OF rep' cur over le this assms(6)] obtain gs where
      stop: "stop = Some SessionOver" and gs: "fs = gs @ [Ended]" by auto
  have rd: "session_read_from s' = session_read_from (sess w)"
    using rg by (simp add: fun_eq_iff session_read_from_def)
  from server_writer_drain [OF cur assms(6)] gs have
    "drain (Suc (length (hist w))) (session_read_from (sess w)) (received (screen w)) = (outputs gs, cur')"
    unfolding rd by auto
  from catch_up_aux [OF ok assms(2,3) _ this] obtain t ps where
      "feed accept (screen w) (outputs gs) = (t, Inr ())" "unat (received t) = length (hist w)"
      "showing t (hist w) ps" "retained w \<longrightarrow> no_gap ps" by auto
  with stop gs show ?thesis
    using render_no_gap [of 0 ps _ "hist w"] by (auto simp: showing_def retained_def)
qed

theorem ended_session_delivered_witness:
  "\<exists>w s' e fs gs t c stop. reachable demo_session w \<and> is_ended (sess w) \<and> become_active (sess w) = (s', e) \<and>
     server_writer log_frame [] (received (screen w)) e (replicate 3 (observe s' DataReady)) = (fs, c, stop) \<and>
     stop = Some SessionOver \<and> fs = gs @ [Ended] \<and> feed accept (screen w) (outputs gs) = (t, Inr ()) \<and>
     written (writer t) = [104, 105]"
proof -
  from demo_run obtain w0 where w0: "reachable demo_session w0" "alive w0" "hist w0 = [104, 105]"
      "retained w0" "reliable (writer (screen w0))" "received (screen w0) = 2" by blast
  let ?w = "w0\<lparr>sess := fst (mark_ended (sess w0))\<rparr>"
  have "step w0 ?w" by (rule step.upkeep) simp
  with w0(1) have r: "reachable demo_session ?w" by (rule reachable.more)
  have over: "is_ended (sess ?w)" by (simp add: is_ended_def)
  obtain s' e where act: "become_active (sess ?w) = (s', e)" by force
  obtain fs c stop where sv: "server_writer log_frame [] 2 e (replicate 3 (observe s' DataReady)) = (fs, c, stop)"
    using prod_cases3 by blast
  have "alive ?w" "reliable (writer (screen ?w))" using w0 by simp_all
  from ended_session_delivered [OF r this over act, of DataReady fs c stop] sv w0 obtain gs t where
      "stop = Some SessionOver" "fs = gs @ [Ended]" "feed accept (screen ?w) (outputs gs) = (t, Inr ())"
      "written (writer t) = [104, 105]"
    by (auto simp: retained_def numeral_3_eq_3)
  with r over act sv w0(6) show ?thesis by (intro exI [of _ ?w]) auto
qed

end
