(* ===== verification/Delivery.thy ===== *)
theory Delivery
  imports Resume Service
begin

text \<open>
  Client and server put together: the bytes that \<open>handle_tcp\<close> of server/daemon.rs sends are
  the bytes that \<open>connect_once\<close> of client/session.rs reads. The writer that seals its frames
  is compared with the writer that records them, about which theory \<open>Resume\<close> speaks, and the
  client's reader with the frames taken one after the other.
\<close>

section \<open>Frames on the wire\<close>

text \<open>The cipher encrypts whatever fits a record.\<close>

definition encrypts :: "cipher \<Rightarrow> bool" where
  "encrypts c \<longleftrightarrow> (\<forall>n p. length n = 12 \<longrightarrow> length p + 16 \<le> unat MAX_RECORD \<longrightarrow> encrypt c n p \<noteq> None)"

lemma frame_wire_succeeds:
  assumes "cipher_ok (s_cipher s)" and "encrypts (s_cipher s)" and "unat (s_counter s) + 1 < 2 ^ 64"
    and "sendable f"
  shows "\<exists>c. frame_wire s f = (s\<lparr>s_counter := s_counter s + 1\<rparr>, Inr c)"
proof -
  let ?n = "nonce_for (s_dir s) (s_counter s)"
  from assms(2,4) have "encrypt (s_cipher s) ?n (encode f) \<noteq> None"
    unfolding encrypts_def sendable_def by simp
  then obtain ct where ct: "encrypt (s_cipher s) ?n (encode f) = Some ct" by blast
  with assms(1) have "length ct = length (encode f) + 16" by (simp add: cipher_ok_def)
  then have len: "length ct \<le> unat MAX_RECORD" using assms(4) by (simp add: sendable_def)
  have "seal s (encode f) = (s\<lparr>s_counter := s_counter s + 1\<rparr>, Inr ct)"
    using assms(3) ct by (simp add: seal_def checked_add_def)
  from write_frame_reliable [OF reliable_open_sink(1) this len] show ?thesis
    by (simp add: frame_wire_def)
qed

lemma write_frame_wire:
  assumes "frame_wire s f = (s', Inr c)" and "reliable w"
  shows "write_frame w s f = ((w\<lparr>written := written w @ c\<rparr>, s'), Inr ())"
  using frame_wire_InrD [OF assms(1)] write_frame_reliable [OF assms(2)] by auto

lemma traverse_snoc:
  "traverse f s xs = (s', Inr cs) \<Longrightarrow> f s' x = (s'', Inr c) \<Longrightarrow> traverse f s (xs @ [x]) = (s'', Inr (cs @ [c]))"
  by (induction xs arbitrary: s cs) (auto split: prod.splits sum.splits)

text \<open>A link after some frames have been put on it.\<close>

definition on_wire :: "link \<Rightarrow> frame list \<Rightarrow> link \<Rightarrow> bool" where
  "on_wire l0 fs l \<longleftrightarrow>
     reliable (fst l0) \<and> s_cipher (snd l) = s_cipher (snd l0) \<and>
     unat (s_counter (snd l)) = unat (s_counter (snd l0)) + length fs \<and>
     (\<exists>cs. traverse frame_wire (snd l0) fs = (snd l, Inr cs) \<and>
           fst l = (fst l0)\<lparr>written := written (fst l0) @ concat cs\<rparr>)"

definition wire_room :: "link \<Rightarrow> nat \<Rightarrow> bool" where
  "wire_room l0 n \<longleftrightarrow>
     cipher_ok (s_cipher (snd l0)) \<and> encrypts (s_cipher (snd l0)) \<and> unat (s_counter (snd l0)) + n < 2 ^ 64"

lemma on_wire_Nil: "reliable (fst l) \<Longrightarrow> on_wire l [] l"
  by (simp add: on_wire_def)

lemma on_wire_put:
  assumes "on_wire l0 fs l" and "wire_room l0 (Suc (length fs))" and "sendable f"
  shows "\<exists>l'. put_frame l f = (l', True) \<and> on_wire l0 (fs @ [f]) l'"
proof -
  from assms(1) obtain cs where cs: "traverse frame_wire (snd l0) fs = (snd l, Inr cs)"
      "fst l = (fst l0)\<lparr>written := written (fst l0) @ concat cs\<rparr>" by (auto simp: on_wire_def)
  have room: "unat (s_counter (snd l)) + 1 < 2 ^ 64"
    using assms(1,2) by (simp add: on_wire_def wire_room_def)
  have "cipher_ok (s_cipher (snd l))" "encrypts (s_cipher (snd l))"
    using assms(1,2) by (simp_all add: on_wire_def wire_room_def)
  from frame_wire_succeeds [OF this room assms(3)] obtain c where
      c: "frame_wire (snd l) f = ((snd l)\<lparr>s_counter := s_counter (snd l) + 1\<rparr>, Inr c)" by blast
  have rel: "reliable (fst l)" using assms(1) cs(2) by (simp add: on_wire_def)
  from write_frame_wire [OF c rel] cs traverse_snoc [OF cs(1) c] assms(1) room show ?thesis
    by (cases l) (auto simp: put_frame_def on_wire_def unat_add_exact)
qed

text \<open>The sealing writer does what the recording one does, as long as there are numbers left.\<close>

lemma server_writer_wire:
  "on_wire l0 fs l \<Longrightarrow> wire_room l0 (length fs + length obs) \<Longrightarrow>
   \<forall>ob \<in> set obs. \<exists>h. session_rep (seen_ring ob) h \<Longrightarrow>
   server_writer log_frame fs cursor epoch obs = (fs', cursor', stop) \<Longrightarrow>
     \<exists>l'. server_writer put_frame l cursor epoch obs = (l', cursor', stop) \<and> on_wire l0 fs' l'"
proof (induction obs arbitrary: fs l cursor)
  case Nil
  then show ?case by auto
next
  case (Cons ob obs)
  obtain off d where rd: "session_read_from (seen_ring ob) cursor = (off, d)" by force
  from Cons.prems(3) obtain h where "session_rep (seen_ring ob) h" by auto
  from read_sendable [OF this rd] have out: "sendable (Output off d)" .
  have plain: "sendable Ended" "sendable Pong" "sendable Ping"
    by (simp_all add: sendable_def MAX_RECORD_def)
  have one: "wire_room l0 (Suc (length fs))" using Cons.prems(2) by (simp add: wire_room_def)
  have next_turn: "\<exists>l1. put_frame l f = (l1, True) \<and>
      (\<exists>l'. server_writer put_frame l1 c epoch obs = (l', cursor', stop) \<and> on_wire l0 fs' l')"
    if "sendable f" and "server_writer log_frame (fs @ [f]) c epoch obs = (fs', cursor', stop)" for f c
  proof -
    from on_wire_put [OF Cons.prems(1) one that(1)] obtain l1 where
        l1: "put_frame l f = (l1, True)" "on_wire l0 (fs @ [f]) l1" by blast
    have "wire_room l0 (length (fs @ [f]) + length obs)" using Cons.prems(2) by (simp add: wire_room_def)
    from Cons.IH [OF l1(2) this _ that(2)] Cons.prems(3) l1(1) show ?thesis by auto
  qed
  have idle_turn: "\<exists>l'. server_writer put_frame l cursor epoch obs = (l', cursor', stop) \<and> on_wire l0 fs' l'"
    if "server_writer log_frame fs cursor epoch obs = (fs', cursor', stop)"
    using Cons.IH [OF Cons.prems(1) _ _ that] Cons.prems(2,3) by (simp add: wire_room_def)
  note now = Cons.prems(4) [unfolded server_writer.simps rd prod.case]
  show ?case
  proof (cases "is_current (seen_epoch ob) epoch")
    case False
    with now Cons.prems(1) show ?thesis by auto
  next
    case cur: True
    show ?thesis
    proof (cases "d \<noteq> [] \<or> off > cursor")
      case True
      with now cur have "server_writer log_frame (fs @ [Output off d]) (off + word_of_nat (length d)) epoch obs =
          (fs', cursor', stop)" by (simp add: Let_def log_frame_fold)
      from next_turn [OF out this] cur rd True show ?thesis by (auto simp: Let_def)
    next
      case none: False
      show ?thesis
      proof (cases "is_ended (seen_ended ob)")
        case True
        with now cur none have "fs' = fs @ [Ended]" "cursor' = cursor" "stop = Some SessionOver"
          by (auto simp: log_frame_fold)
        with on_wire_put [OF Cons.prems(1) one plain(1)] cur none True rd show ?thesis by auto
      next
        case False
        show ?thesis
        proof (cases "woken ob")
          case DataReady
          with now cur none False rd idle_turn show ?thesis by simp
        next
          case (PongAsked asked)
          show ?thesis
          proof (cases asked)
            case True
            with now cur none False PongAsked have
              "server_writer log_frame (fs @ [Pong]) cursor epoch obs = (fs', cursor', stop)"
              by (simp add: log_frame_fold)
            from next_turn [OF plain(2) this] cur none False PongAsked True rd show ?thesis by auto
          next
            case no: False
            with now cur none False PongAsked Cons.prems(1) rd show ?thesis by auto
          qed
        next
          case WriterTick
          with now cur none False have
            "server_writer log_frame (fs @ [Ping]) cursor epoch obs = (fs', cursor', stop)"
            by (simp add: log_frame_fold)
          from next_turn [OF plain(3) this] cur none False WriterTick rd show ?thesis by auto
        qed
      qed
    qed
  qed
qed

lemma server_writer_length:
  "server_writer log_frame fs cursor epoch obs = (fs', cursor', stop) \<Longrightarrow>
     length fs' \<le> length fs + length obs"
proof (induction obs arbitrary: fs cursor)
  case (Cons ob obs)
  obtain off d where rd: "session_read_from (seen_ring ob) cursor = (off, d)" by force
  have go: "length fs' \<le> length fs + length (ob # obs)"
    if "server_writer log_frame (fs @ xs) c epoch obs = (fs', cursor', stop)" and "length xs \<le> 1" for xs c
    using Cons.IH [OF that(1)] that(2) by simp
  from Cons.prems rd go [of "[]" cursor] go [of "[Output off d]"] go [of "[Pong]" cursor] go [of "[Ping]" cursor]
  show ?case by (auto simp: log_frame_fold Let_def split: if_splits wake.splits)
qed simp

section \<open>The frames of a connection\<close>

text \<open>The frames a server sends on a connection it serves.\<close>

fun served_frame :: "frame \<Rightarrow> bool" where
  "served_frame (Output off d) = True"
| "served_frame Ended = True"
| "served_frame Ping = True"
| "served_frame Pong = True"
| "served_frame _ = False"

lemma server_writer_served:
  assumes "server_writer log_frame [] cursor epoch obs = (fs, cursor', stop)"
  shows "list_all served_frame fs"
  by (rule server_writer_all [OF _ _ _ _ _ assms]) simp_all

text \<open>A ring buffer that never overflows is read without a gap.\<close>

lemma server_writer_gapless:
  "observed h0 h obs \<Longrightarrow> unat cursor \<le> length h0 \<Longrightarrow>
   \<forall>ob \<in> set obs. length h \<le> r_cap (ring (seen_ring ob)) \<Longrightarrow>
   server_writer log_frame fs cursor epoch obs = (fs', cursor', stop) \<Longrightarrow>
     \<exists>gs. fs' = fs @ gs \<and> gapless (unat cursor) (outputs gs)"
proof (induction obs arbitrary: h0 fs cursor)
  case Nil
  then show ?case by (auto intro!: exI [of _ "[]"])
next
  case (Cons ob obs)
  from Cons.prems(1) obtain h1 where
      h1: "prefix h0 h1" "session_rep (seen_ring ob) h1" "observed h1 h obs" by auto
  have c1: "unat cursor \<le> length h1"
    using Cons.prems(2) prefix_length_le [OF h1(1)] by simp
  have "length h1 \<le> r_cap (ring (seen_ring ob))"
    using Cons.prems(3) prefix_length_le [OF observed_prefix [OF h1(3)]] by simp
  then have first: "session_first (seen_ring ob) h1 \<le> unat cursor"
    by (simp add: session_first_def ring_first_def)
  obtain off d where rd: "session_read_from (seen_ring ob) cursor = (off, d)" by force
  note sl = session_log.read_slice [OF h1(2) c1 rd]
  note ex = session_log.cursor_exact [OF h1(2) c1 rd]
  note at = session_log.read_retained [OF h1(2) first c1 rd]
  have stay: "\<exists>gs. fs' = fs @ gs \<and> gapless (unat cursor) (outputs gs)"
    if "server_writer log_frame (fs @ xs) cursor epoch obs = (fs', cursor', stop)" and "outputs xs = []" for xs
  proof -
    from Cons.IH [OF h1(3) c1 _ that(1)] Cons.prems(3) obtain gs where
        "fs' = (fs @ xs) @ gs" "gapless (unat cursor) (outputs gs)" by auto
    with that(2) show ?thesis by (intro exI [of _ "xs @ gs"]) simp
  qed
  have out: "\<exists>gs. fs' = fs @ gs \<and> gapless (unat cursor) (outputs gs)"
    if "server_writer log_frame (fs @ [Output off d]) (off + word_of_nat (length d)) epoch obs = (fs', cursor', stop)"
  proof -
    have "unat (off + word_of_nat (length d)) \<le> length h1" using sl ex by simp
    from Cons.IH [OF h1(3) this _ that] Cons.prems(3) ex at obtain gs where
        "fs' = (fs @ [Output off d]) @ gs" "gapless (unat off + length d) (outputs gs)" by auto
    with at show ?thesis by (intro exI [of _ "Output off d # gs"]) simp
  qed
  from Cons.prems(4) rd out stay [of "[]"] stay [of "[Pong]"] stay [of "[Ping]"] show ?case
    by (auto simp: log_frame_fold Let_def split: wake.splits if_splits
        intro: exI [of _ "[]"] exI [of _ "[Ended]"])
qed

text \<open>The frames after which the client's reader goes on.\<close>

fun going_frame :: "frame \<Rightarrow> bool" where
  "going_frame Ended = False"
| "going_frame f = served_frame f"

text \<open>While the connection is current, the session goes on and the reader wants its pongs, the
  writer does not stop.\<close>

definition steady :: "u64 \<Rightarrow> writer_obs \<Rightarrow> bool" where
  "steady epoch ob \<longleftrightarrow>
     is_current (seen_epoch ob) epoch \<and> \<not> is_ended (seen_ended ob) \<and> woken ob \<noteq> PongAsked False"

lemma server_writer_steady:
  "list_all (steady epoch) obs \<Longrightarrow>
     \<exists>fs' cursor'. server_writer log_frame fs cursor epoch obs = (fs', cursor', None) \<and>
       (list_all going_frame fs \<longrightarrow> list_all going_frame fs') \<and>
       (\<forall>later. server_writer log_frame fs cursor epoch (obs @ later) =
                  server_writer log_frame fs' cursor' epoch later)"
proof (induction obs arbitrary: fs cursor)
  case Nil
  then show ?case by auto
next
  case (Cons ob obs)
  then have ok: "steady epoch ob" and "list_all (steady epoch) obs" by auto
  note IH = Cons.IH [OF this(2)]
  obtain off d where rd: "session_read_from (seen_ring ob) cursor = (off, d)" by force
  show ?case
  proof (cases "d \<noteq> [] \<or> off > cursor")
    case True
    with IH [of "fs @ [Output off d]" "off + word_of_nat (length d)"] ok rd show ?thesis
      by (simp add: steady_def Let_def log_frame_fold)
  next
    case False
    with IH [of fs cursor] IH [of "fs @ [Pong]" cursor] IH [of "fs @ [Ping]" cursor] ok rd show ?thesis
      by (cases "woken ob") (auto simp: steady_def log_frame_fold)
  qed
qed

section \<open>A whole attempt against a whole connection\<close>

text \<open>What the client sends to open a connection: its hello and its first sealed frame.\<close>

definition client_opening ::
  "(bytes \<Rightarrow> cipher) \<Rightarrow> kdf \<Rightarrow> string \<Rightarrow> bytes \<Rightarrow> bytes \<Rightarrow> bytes \<Rightarrow> u64 \<Rightarrow> bytes" where
  "client_opening mk hkdf sid key cn sn off =
     written (fst (client_send open_sink sid cn off)) @
     (case frame_wire (new_sealer mk (derive_key hkdf key cn sn) DIR_CLIENT_TO_SERVER) Hello of
        (s, Inr c) \<Rightarrow> c
      | (s, Inl e) \<Rightarrow> [])"

lemma hello_sendable: "sendable Hello" "well_formed Hello" "sendable (Resize c r)"
  by (simp_all add: sendable_def MAX_RECORD_def HELLO_MAGIC_def)

text \<open>Both ends have read the other's hello and its first frame.\<close>

lemma connection_opens:
  assumes live: "live_session sv sid = Some (a, s)"
    and sid: "length sid = SESSION_ID_LEN" "valid_utf8 (as_bytes sid)"
    and nonces: "length cn = NONCE_LEN" "length sn = NONCE_LEN" and off: "off \<le> current_total s"
    and cipher: "\<And>k. cipher_ok (mk k)" "\<And>k. encrypts (mk k)"
    and k: "k = derive_key hkdf (current_psk s) cn sn"
  shows "\<exists>c cw ch sh.
    tcp_connect mk hkdf sv (client_opening mk hkdf sid (current_psk s) cn sn off @ later) open_sink sn =
      (on_session a (\<lambda>s. fst (become_active s)) sv, Inr (c, snd (become_active s))) \<and>
    at_addr c = a \<and> at_offset c = off \<and> reliable (fst (at_link c)) \<and>
    s_cipher (snd (at_link c)) = mk k \<and> s_counter (snd (at_link c)) = 1 \<and>
    client_send open_sink sid cn off = (cw, Inr ()) \<and> reliable cw \<and>
    frame_wire (new_sealer mk k DIR_CLIENT_TO_SERVER) Hello =
      ((new_sealer mk k DIR_CLIENT_TO_SERVER)\<lparr>s_counter := 1\<rparr>, Inr ch) \<and>
    (\<forall>more. client_recv (written (fst (at_link c)) @ more) = (sh @ more, Inr (sn, current_total s))) \<and>
    (\<exists>op. in_sync (snd (at_link c)) op \<and>
      (\<forall>more. read_frame (sh @ more) (new_opener mk k DIR_SERVER_TO_CLIENT) = ((more, op), Inr Hello)))"
proof -
  let ?cs = "new_sealer mk k DIR_CLIENT_TO_SERVER" and ?ss = "new_sealer mk k DIR_SERVER_TO_CLIENT"
  have "\<exists>c. frame_wire (new_sealer mk k d) Hello = ((new_sealer mk k d)\<lparr>s_counter := 1\<rparr>, Inr c)" for d
    using frame_wire_succeeds [of "new_sealer mk k d", OF _ _ _ hello_sendable(1)] cipher
    by (simp add: new_sealer_def)
  then obtain ch sh where ch: "frame_wire ?cs Hello = (?cs\<lparr>s_counter := 1\<rparr>, Inr ch)"
    and sh: "frame_wire ?ss Hello = (?ss\<lparr>s_counter := 1\<rparr>, Inr sh)" by blast
  from handshake_outcome [where mk = mk and hkdf = hkdf and rest = "ch @ later",
      OF reliable_open_sink reliable_open_sink sid nonces live off cipher(1)]
  obtain cw w' c where send: "client_send open_sink sid cn off = (cw, Inr ())" "reliable cw"
    and opened: "tcp_open mk hkdf sv (written cw @ ch @ later) open_sink sn = (w', Inr c)"
    and recv: "\<And>more. client_recv (written w' @ more) = (more, Inr (sn, current_total s))"
    and c: "at_addr c = a" "at_rest c = ch @ later" "at_offset c = off" "fst (at_link c) = w'" "reliable w'"
    and sync: "in_sync ?cs (at_opener c)" "in_sync (snd (at_link c)) (new_opener mk k DIR_SERVER_TO_CLIENT)"
    unfolding k by blast
  from sync(2) have ss: "snd (at_link c) = ?ss" by (simp add: in_sync_def new_opener_def new_sealer_def)
  from frame_stream.put_get [OF sync(1) hello_sendable(2) ch] obtain op1 where
      op1: "read_frame (ch @ later) (at_opener c) = ((later, op1), Inr Hello)" by blast
  let ?l = "(w'\<lparr>written := written w' @ sh\<rparr>, ?ss\<lparr>s_counter := 1\<rparr>)"
  let ?c = "c\<lparr>at_link := ?l, at_opener := op1, at_rest := later\<rparr>"
  have auth: "tcp_auth c = Inr ?c"
    using write_frame_wire [OF sh c(5)] by (simp add: tcp_auth_def c(2,4) ss op1)
  have bytes: "client_opening mk hkdf sid (current_psk s) cn sn off = written cw @ ch"
    unfolding client_opening_def k [symmetric] by (simp add: send(1) ch)
  have conn: "tcp_connect mk hkdf sv (client_opening mk hkdf sid (current_psk s) cn sn off @ later) open_sink sn =
      (on_session a (\<lambda>s. fst (become_active s)) sv, Inr (?c, snd (become_active s)))"
    using opened auth c(1) live_session_SomeD [OF live] unfolding bytes
    by (simp add: tcp_connect_def tcp_activate_def)
  from new_ends_in_sync [of mk k DIR_SERVER_TO_CLIENT, OF cipher(1)]
  have "in_sync ?ss (new_opener mk k DIR_SERVER_TO_CLIENT)" .
  from frame_stream.put_get [OF this hello_sendable(2) sh] obtain op where
      op: "in_sync (?ss\<lparr>s_counter := 1\<rparr>) op"
        "\<forall>more. read_frame (sh @ more) (new_opener mk k DIR_SERVER_TO_CLIENT) = ((more, op), Inr Hello)" by blast
  have "client_recv (written (fst ?l) @ more) = (sh @ more, Inr (sn, current_total s))" for more
    using recv [of "sh @ more"] by simp
  with conn c send ch op show ?thesis
    by (intro exI [of _ ?c] exI [of _ cw] exI [of _ ch] exI [of _ sh]) (auto simp: new_sealer_def)
qed

text \<open>What the bytes \<open>handle_tcp\<close> sends hold for the client.\<close>

lemma handle_tcp_answer:
  assumes live: "live_session sv sid = Some (a, s)"
    and sid: "length sid = SESSION_ID_LEN" "valid_utf8 (as_bytes sid)"
    and nonces: "length cn = NONCE_LEN" "length sn = NONCE_LEN" and off: "off \<le> current_total s"
    and cipher: "\<And>k. cipher_ok (mk k)" "\<And>k. encrypts (mk k)"
    and k: "k = derive_key hkdf (current_psk s) cn sn"
    and reps: "\<forall>ob \<in> set obs. \<exists>h. session_rep (seen_ring ob) h" and room: "length obs + 2 < 2 ^ 64"
    and v: "v = \<lparr>arriving = client_opening mk hkdf sid (current_psk s) cn sn off @ later,
      reply_to = open_sink, server_nonce = sn, reads = rs, writes = obs\<rparr>"
    and run: "server_writer log_frame [] off (snd (become_active s)) obs = (fs, cur', stop)"
  shows "\<exists>sv' l cw ch r op sl sl' cs.
    handle_tcp mk hkdf v sv = (sv', Inr l) \<and>
    client_send open_sink sid cn off = (cw, Inr ()) \<and> reliable cw \<and>
    frame_wire (new_sealer mk k DIR_CLIENT_TO_SERVER) Hello =
      ((new_sealer mk k DIR_CLIENT_TO_SERVER)\<lparr>s_counter := 1\<rparr>, Inr ch) \<and>
    client_recv (written (fst l)) = (r, Inr (sn, current_total s)) \<and>
    read_frame r (new_opener mk k DIR_SERVER_TO_CLIENT) = ((concat cs, op), Inr Hello) \<and>
    in_sync sl op \<and> traverse frame_wire sl fs = (sl', Inr cs) \<and> list_all well_formed fs"
proof -
  from connection_opens [where mk = mk and hkdf = hkdf and later = later, OF live sid nonces off cipher k]
  obtain c cw ch sh op where
      conn: "tcp_connect mk hkdf sv (client_opening mk hkdf sid (current_psk s) cn sn off @ later) open_sink sn =
        (on_session a (\<lambda>s. fst (become_active s)) sv, Inr (c, snd (become_active s)))"
    and c: "at_offset c = off" "reliable (fst (at_link c))" "s_cipher (snd (at_link c)) = mk k"
      "s_counter (snd (at_link c)) = 1"
    and send: "client_send open_sink sid cn off = (cw, Inr ())" "reliable cw"
      "frame_wire (new_sealer mk k DIR_CLIENT_TO_SERVER) Hello =
        ((new_sealer mk k DIR_CLIENT_TO_SERVER)\<lparr>s_counter := 1\<rparr>, Inr ch)"
    and recv: "\<And>more. client_recv (written (fst (at_link c)) @ more) = (sh @ more, Inr (sn, current_total s))"
    and op: "in_sync (snd (at_link c)) op"
      "\<And>more. read_frame (sh @ more) (new_opener mk k DIR_SERVER_TO_CLIENT) = ((more, op), Inr Hello)"
    by blast
  have "wire_room (at_link c) (length ([] :: frame list) + length obs)"
    using cipher room c(3,4) by (simp add: wire_room_def)
  from server_writer_wire [OF on_wire_Nil [OF c(2)] this reps run] obtain l where
      l: "server_writer put_frame (at_link c) off (snd (become_active s)) obs = (l, cur', stop)"
        "on_wire (at_link c) fs l" by blast
  from l(2) obtain cs where cs: "traverse frame_wire (snd (at_link c)) fs = (snd l, Inr cs)"
      "written (fst l) = written (fst (at_link c)) @ concat cs" by (auto simp: on_wire_def)
  have "\<exists>sv'. handle_tcp mk hkdf v sv = (sv', Inr l)"
    using conn l(1) c(1) by (simp add: handle_tcp_def v Let_def del: server_writer.simps)
  moreover have "list_all well_formed fs"
    using server_frames_sendable [OF reps run] by (auto simp: sendable_def list_all_iff)
  ultimately show ?thesis
    using send op cs recv [of "concat cs"] by (metis (no_types, lifting))
qed

text \<open>The client's half, given what it reads.\<close>

lemma connect_once_reads:
  assumes att: "dial_ok att" "outgoing att = open_sink" "our_nonce att = cn" "\<not> writer_first att"
    and k: "k = derive_key hkdf key cn sn"
    and cipher: "\<And>k. cipher_ok (mk k)" "\<And>k. encrypts (mk k)"
    and send: "client_send open_sink sid cn (received so) = (cw, Inr ())" "reliable cw"
    and ch: "frame_wire (new_sealer mk k DIR_CLIENT_TO_SERVER) Hello =
      ((new_sealer mk k DIR_CLIENT_TO_SERVER)\<lparr>s_counter := 1\<rparr>, Inr ch)"
    and recv: "client_recv (incoming att) = (r, Inr (sn, tot))" "received so \<le> tot"
    and hello: "read_frame r (new_opener mk k DIR_SERVER_TO_CLIENT) = ((r1, op), Inr Hello)"
  shows "connect_once mk hkdf sid key so att = client_reader r1 op so (reader_turns att)"
proof -
  let ?s1 = "(new_sealer mk k DIR_CLIENT_TO_SERVER)\<lparr>s_counter := 1\<rparr>"
  have "\<exists>c. frame_wire ?s1 (Resize cols rows) = (?s1\<lparr>s_counter := s_counter ?s1 + 1\<rparr>, Inr c)" for cols rows
    by (rule frame_wire_succeeds) (simp_all add: cipher new_sealer_def hello_sendable)
  then have resize: "\<exists>l. write_frame (cw\<lparr>written := written cw @ ch\<rparr>) ?s1 (Resize cols rows) = (l, Inr ())" for cols rows
    using write_frame_wire [of ?s1 "Resize cols rows"] send(2) by (metis reliable_update)
  have halves: "run_halves att so r1 op l = client_reader r1 op so (reader_turns att)" for l
    using att(4) by (simp add: run_halves_def split: prod.splits)
  show ?thesis
  proof (cases "term_size att")
    case None
    then show ?thesis
      using halves write_frame_wire [OF ch send(2)] recv send(1) hello att(1-3)
      by (simp add: connect_once_def k [symmetric] Let_def leD)
  next
    case (Some sz)
    obtain cols rows where sz: "sz = (cols, rows)" by force
    from resize obtain l where
        "write_frame (cw\<lparr>written := written cw @ ch\<rparr>) ?s1 (Resize cols rows) = (l, Inr ())" by blast
    with Some sz show ?thesis
      using halves write_frame_wire [OF ch send(2)] recv send(1) hello att(1-3)
      by (simp add: connect_once_def k [symmetric] Let_def leD)
  qed
qed

lemma tag_cipher_encrypts: "encrypts tag_cipher"
  by (simp add: encrypts_def tag_cipher_def)

text \<open>A reader that is not interrupted, and an attempt with it.\<close>

definition going_turn :: reader_turn where
  "going_turn = \<lparr>stop_first = False, pong_request = PongSent\<rparr>"

definition plain_attempt :: "bytes \<Rightarrow> nat \<Rightarrow> attempt" where
  "plain_attempt cn n =
     \<lparr>dial_ok = True, incoming = [], outgoing = open_sink, our_nonce = cn, term_size = Some (80, 24),
      reader_turns = replicate n going_turn, writer_events = [], writer_first = False\<rparr>"

section \<open>The terminal across attempts\<close>

text \<open>
  What has been written is the output up to the committed offset, with notices for what is left
  out; there is none while the ring buffer, of capacity \<open>cap\<close>, holds all the output.
\<close>

definition in_order :: "nat \<Rightarrow> bytes \<Rightarrow> session_output \<Rightarrow> bool" where
  "in_order cap h so \<longleftrightarrow>
     reliable (writer so) \<and> (\<exists>ps. showing so h ps \<and> (length h \<le> cap \<longrightarrow> no_gap ps))"

lemma in_order_grows: "in_order cap h so \<Longrightarrow> prefix h h' \<Longrightarrow> in_order cap h' so"
  by (auto simp: in_order_def prefix_def dest: showing_history)

lemma in_order_received: "in_order cap h so \<Longrightarrow> unat (received so) \<le> length h"
  by (auto simp: in_order_def showing_def)

lemma in_order_whole:
  assumes "in_order cap h so" and "unat (received so) = length h"
  shows "\<exists>ps. written (writer so) = render h ps \<and> tiles 0 ps (length h) \<and>
              (length h \<le> cap \<longrightarrow> written (writer so) = h)"
proof -
  from assms obtain ps where ps: "written (writer so) = render h ps" "tiles 0 ps (length h)"
      "length h \<le> cap \<longrightarrow> no_gap ps" by (auto simp: in_order_def showing_def)
  with render_no_gap [OF ps(2), of h] show ?thesis by (intro exI [of _ ps]) simp
qed

lemma in_order_feed:
  assumes "in_order cap h so" and "slices h (unat (received so)) fs e" and "prefix gs fs"
    and "length h \<le> cap \<Longrightarrow> gapless (unat (received so)) fs" and "length h < 2 ^ 64"
    and "feed accept so gs = (so', Inr ())" and "reliable (writer so')"
  shows "in_order cap h so' \<and> (gs = fs \<longrightarrow> unat (received so') = e)"
proof -
  let ?c = "unat (received so)"
  from assms(1) obtain ps where ps: "showing so h ps" "length h \<le> cap \<longrightarrow> no_gap ps" by (auto simp: in_order_def)
  then have le: "?c \<le> length h" by (simp add: showing_def)
  from assms(3) obtain ys where fs: "fs = gs @ ys" by (auto simp: prefix_def)
  with assms(2) obtain m where sl: "slices h ?c gs m" "slices h m ys e" by (auto simp: slices_append)
  from session_terminal.take_run [OF ps(1) sl(1) assms(5,6) order.refl] obtain qs where
      "showing so' h (ps @ qs)" "unat (received so') = max ?c m" "gapless ?c gs \<longrightarrow> no_gap qs" by blast
  moreover have "gapless ?c gs" if "length h \<le> cap"
    using assms(4) [OF that] fs gapless_append [OF sl(1)] by simp
  ultimately show ?thesis
    using ps(2) assms(7) slices_bounds [OF sl(1) le] sl(2) fs by (auto simp: in_order_def)
qed

text \<open>What the writer of a connection sees of a session whose ring buffer has capacity \<open>cap\<close>, while
  its output grows from \<open>h0\<close> to \<open>h\<close>.\<close>

definition watched :: "nat \<Rightarrow> bytes \<Rightarrow> bytes \<Rightarrow> writer_obs list \<Rightarrow> bool" where
  "watched cap h0 h obs \<longleftrightarrow>
     observed h0 h obs \<and> length h < 2 ^ 64 \<and> (\<forall>ob \<in> set obs. r_cap (ring (seen_ring ob)) = cap)"

lemma watched_frames:
  assumes "watched cap h0 h obs" and "unat cursor \<le> length h0"
    and "server_writer log_frame [] cursor epoch obs = (fs, cursor', stop)"
  shows "slices h (unat cursor) (outputs fs) (unat cursor') \<and>
         (length h \<le> cap \<longrightarrow> gapless (unat cursor) (outputs fs))"
proof
  have o: "observed h0 h obs" using assms(1) by (simp add: watched_def)
  from server_writer_slices [OF o assms(2,3)] show "slices h (unat cursor) (outputs fs) (unat cursor')" by auto
  have "\<forall>ob \<in> set obs. length h \<le> r_cap (ring (seen_ring ob))" if "length h \<le> cap"
    using that assms(1) by (simp add: watched_def)
  from server_writer_gapless [OF o assms(2) this assms(3)]
  show "length h \<le> cap \<longrightarrow> gapless (unat cursor) (outputs fs)" by auto
qed

lemma watched_reps: "watched cap h0 h obs \<Longrightarrow> \<forall>ob \<in> set obs. \<exists>h. session_rep (seen_ring ob) h"
proof -
  have "observed h0 h obs \<Longrightarrow> \<forall>ob \<in> set obs. \<exists>h. session_rep (seen_ring ob) h"
    by (induction obs arbitrary: h0) auto
  then show "watched cap h0 h obs \<Longrightarrow> ?thesis" by (simp add: watched_def)
qed

lemma watched_prefix: "watched cap h0 h obs \<Longrightarrow> prefix h0 h"
  unfolding watched_def by (blast dest: observed_prefix)

lemma session_rep_current: "session_rep s h \<Longrightarrow> unat (current_total s) = length h"
  by (simp add: session_rep_def current_total_def ring_rep_total)

section \<open>A connection that holds until the session ends\<close>

lemma client_reader_to_end:
  "in_sync sl op \<Longrightarrow> list_all well_formed fs \<Longrightarrow> list_all going_frame fs \<Longrightarrow>
   traverse frame_wire sl (fs @ [Ended]) = (sl', Inr cs) \<Longrightarrow> feed accept so (outputs fs) = (t, Inr u) \<Longrightarrow>
     client_reader (concat cs) op so (replicate (Suc (length fs + n)) going_turn) = (t, Some (Inr SessionEnded))"
proof (induction fs arbitrary: sl op so cs)
  case Nil
  then obtain c where c: "frame_wire sl Ended = (sl', Inr c)" "cs = [c]"
    by (auto split: prod.splits sum.splits)
  have "well_formed Ended" by simp
  from frame_stream.put_get [OF Nil.prems(1) this c(1)] obtain op' where
      "\<And>rest. read_frame (c @ rest) op = ((rest, op'), Inr Ended)" by blast
  from this [of "[]"] c Nil.prems(5) show ?case by (simp add: going_turn_def)
next
  case (Cons f fs)
  from Cons.prems(4) obtain s1 c cs' where
      1: "frame_wire sl f = (s1, Inr c)" and 2: "traverse frame_wire s1 (fs @ [Ended]) = (sl', Inr cs')"
    and cs: "cs = c # cs'"
    by (auto split: prod.splits sum.splits)
  from Cons.prems(2,3) have ok: "well_formed f" "list_all well_formed fs" "list_all going_frame fs" "going_frame f"
    by auto
  from frame_stream.put_get [OF Cons.prems(1) ok(1) 1] obtain op1 where
      op1: "in_sync s1 op1" "read_frame (c @ concat cs') op = ((concat cs', op1), Inr f)" by blast
  note IH = Cons.IH [OF op1(1) ok(2,3) 2]
  show ?case
  proof (cases f)
    case (Output off d)
    with Cons.prems(5) obtain so1 v where
        "accept so off d = (so1, Inr v)" "feed accept so1 (outputs fs) = (t, Inr u)"
      by (auto split: prod.splits sum.splits)
    with IH op1(2) Output cs show ?thesis by (simp add: going_turn_def)
  qed (use IH [of so] Cons.prems(5) op1(2) ok(4) cs in \<open>simp_all add: going_turn_def\<close>)
qed

text \<open>
  The writer of the connection with the given epoch sees the output grow from \<open>h0\<close> to \<open>h\<close>, whatever
  else happens, and then the session ended.
\<close>

definition held_to_end :: "nat \<Rightarrow> u64 \<Rightarrow> bytes \<Rightarrow> bytes \<Rightarrow> writer_obs list \<Rightarrow> bool" where
  "held_to_end cap epoch h0 h obs \<longleftrightarrow>
     (\<exists>obs1 fin k. obs = obs1 @ replicate (Suc (length h)) (observe fin k) \<and>
        list_all (steady epoch) obs1 \<and> watched cap h0 h obs1 \<and>
        session_rep fin h \<and> r_cap (ring fin) = cap \<and> is_ended fin \<and> is_current fin epoch)"

lemma observed_then:
  assumes "session_rep fin h"
  shows "observed h0 h obs \<Longrightarrow> observed h0 h (obs @ replicate n (observe fin k))"
proof (induction obs arbitrary: h0)
  case Nil
  have "observed h h (replicate m (observe fin k))" for m
    using assms by (induction m) (auto simp: observe_def)
  with Nil assms show ?case by (cases n) (auto simp: observe_def)
qed auto

lemma held_watched: "held_to_end cap epoch h0 h obs \<Longrightarrow> watched cap h0 h obs"
  using observed_then [of _ h h0 _ "Suc (length h)"]
  by (auto simp: held_to_end_def watched_def simp del: replicate.simps) (auto simp: observe_def)

lemma held_frames:
  assumes "held_to_end cap epoch h0 h obs" and "unat cursor \<le> length h0"
    and "server_writer log_frame [] cursor epoch obs = (fs, cursor', stop)"
  shows "\<exists>gs. fs = gs @ [Ended] \<and> list_all going_frame gs \<and>
              slices h (unat cursor) (outputs gs) (length h)"
proof -
  from assms(1) obtain obs1 fin k where
      obs: "obs = obs1 @ replicate (Suc (length h)) (observe fin k)"
    and st: "list_all (steady epoch) obs1" and wt: "watched cap h0 h obs1"
    and fin: "session_rep fin h" "is_current fin epoch" "is_ended fin"
    unfolding held_to_end_def by blast
  from server_writer_steady [OF st, of "[]" cursor] obtain gs c where
      gs: "server_writer log_frame [] cursor epoch obs1 = (gs, c, None)" "list_all going_frame gs"
      "server_writer log_frame gs c epoch (replicate (Suc (length h)) (observe fin k)) = (fs, cursor', stop)"
    using assms(3) unfolding obs by auto
  from watched_frames [OF wt assms(2) gs(1)] have sl: "slices h (unat cursor) (outputs gs) (unat c)" ..
  have "unat cursor \<le> length h" using assms(2) prefix_length_le [OF watched_prefix [OF wt]] by simp
  with slices_bounds [OF sl] have "unat c \<le> length h" and "length h - unat c < Suc (length h)" by simp_all
  from server_writer_ended [OF fin this gs(3)] obtain ys where
      "fs = gs @ ys @ [Ended]" "list_all is_output ys" "slices h (unat c) (outputs ys) (length h)" by blast
  moreover from this(2) have "list_all going_frame ys" by (auto simp: list_all_iff elim!: is_output.elims)
  ultimately show ?thesis using sl gs(2) by (intro exI [of _ "gs @ ys"]) (auto simp: slices_append)
qed

text \<open>Then the client gets all of it.\<close>

lemma held_attempt_ends:
  assumes so: "in_order cap h0 so"
    and live: "live_session sv sid = Some (a, s)" and s: "current_psk s = key" "session_rep s h0"
    and sid: "length sid = SESSION_ID_LEN" "valid_utf8 (as_bytes sid)"
    and nonces: "length cn = NONCE_LEN" "length sn = NONCE_LEN"
    and cipher: "\<And>k. cipher_ok (mk k)" "\<And>k. encrypts (mk k)"
    and held: "held_to_end cap (snd (become_active s)) h0 h obs" and room: "length obs + 2 < 2 ^ 64"
    and v: "v = \<lparr>arriving = client_opening mk hkdf sid key cn sn (received so) @ later,
      reply_to = open_sink, server_nonce = sn, reads = rs, writes = obs\<rparr>"
    and att: "dial_ok att" "outgoing att = open_sink" "our_nonce att = cn" "\<not> writer_first att"
    and turns: "reader_turns att = replicate m going_turn" "length obs \<le> m"
  shows "\<exists>sv' l t. handle_tcp mk hkdf v sv = (sv', Inr l) \<and>
    connect_once mk hkdf sid key so (att\<lparr>incoming := written (fst l)\<rparr>) = (t, Some (Inr SessionEnded)) \<and>
    in_order cap h t \<and> unat (received t) = length h"
proof -
  note le = in_order_received [OF so]
  then have off: "received so \<le> current_total s"
    using session_rep_current [OF s(2)] by (simp add: u64_le_iff)
  note wt = held_watched [OF held]
  obtain fs cur' stop where w: "server_writer log_frame [] (received so) (snd (become_active s)) obs = (fs, cur', stop)"
    using prod_cases3 by blast
  define k where "k = derive_key hkdf key cn sn"
  from handle_tcp_answer [where mk = mk and hkdf = hkdf and k = k, OF live sid nonces off cipher _
      watched_reps [OF wt] room _ w, of v later rs] s(1) v obtain sv' l cw ch r op sl sl' cs where
      ans: "handle_tcp mk hkdf v sv = (sv', Inr l)"
        "client_send open_sink sid cn (received so) = (cw, Inr ())" "reliable cw"
        "frame_wire (new_sealer mk k DIR_CLIENT_TO_SERVER) Hello =
          ((new_sealer mk k DIR_CLIENT_TO_SERVER)\<lparr>s_counter := 1\<rparr>, Inr ch)"
        "client_recv (written (fst l)) = (r, Inr (sn, current_total s))"
        "read_frame r (new_opener mk k DIR_SERVER_TO_CLIENT) = ((concat cs, op), Inr Hello)"
      and wire: "in_sync sl op" "traverse frame_wire sl fs = (sl', Inr cs)" "list_all well_formed fs"
    by (auto simp: k_def)
  from held_frames [OF held le w] obtain gs where
      gs: "fs = gs @ [Ended]" "list_all going_frame gs" "slices h (unat (received so)) (outputs gs) (length h)" by blast
  have len: "length h < 2 ^ 64" using wt by (simp add: watched_def)
  have rel: "reliable (writer so)" using so by (simp add: in_order_def)
  from feed_reliable [OF rel gs(3) len] obtain t where
      t: "feed accept so (outputs gs) = (t, Inr ())" "reliable (writer t)" by blast
  have gl: "length h \<le> cap \<Longrightarrow> gapless (unat (received so)) (outputs gs)"
    using watched_frames [OF wt le w] gs(1) by simp
  have "in_order cap h t \<and> unat (received t) = length h"
    using in_order_feed [OF in_order_grows [OF so watched_prefix [OF wt]] gs(3) prefix_order.refl gl len t] by blast
  moreover have "connect_once mk hkdf sid key so (att\<lparr>incoming := written (fst l)\<rparr>) =
      client_reader (concat cs) op so (reader_turns att)"
    using connect_once_reads [of "att\<lparr>incoming := written (fst l)\<rparr>" cn k hkdf key sn mk sid so cw ch r
        "current_total s" "concat cs" op] att cipher k_def ans(2-6) off by simp
  moreover have "client_reader (concat cs) op so (reader_turns att) = (t, Some (Inr SessionEnded))"
  proof -
    have "m = Suc (length gs + (m - Suc (length gs)))"
      using server_writer_length [OF w] turns(2) gs(1) by simp
    then show ?thesis
      using client_reader_to_end [OF wire(1) _ gs(2) _ t(1), of sl' cs "m - Suc (length gs)"] wire(2,3) gs(1) turns(1)
      by simp
  qed
  ultimately show ?thesis using ans(1) by auto
qed

lemma ended_while_active:
  "is_ended (fst (mark_ended (fst (become_active s))))"
  "is_current (fst (mark_ended (fst (become_active s)))) (snd (become_active s))"
  "ring (fst (mark_ended (fst (become_active s)))) = ring s"
  by (simp_all add: session_defs)

text \<open>For example one that is woken once and then finds the session ended.\<close>

lemma held_while_idle:
  assumes "session_rep s h" and "\<not> is_ended s"
  shows "\<exists>obs. held_to_end (r_cap (ring s)) (snd (become_active s)) h h obs \<and> length obs = length h + 2"
proof -
  let ?s1 = "fst (become_active s)"
  let ?fin = "fst (mark_ended ?s1)" and ?e = "snd (become_active s)"
  have rep: "session_rep ?s1 h" "session_rep ?fin h" using assms(1) by (simp_all add: session_rep_def)
  have "steady ?e (observe ?s1 DataReady)" using assms(2) by (simp add: steady_def observe_def session_defs is_ended_def)
  moreover have "watched (r_cap (ring s)) h h [observe ?s1 DataReady]"
    using rep(1) session_log.rep_bound [OF assms(1)] by (auto simp: watched_def observe_def)
  ultimately have "held_to_end (r_cap (ring s)) ?e h h
      ([observe ?s1 DataReady] @ replicate (Suc (length h)) (observe ?fin DataReady))"
    unfolding held_to_end_def using rep(2) ended_while_active [of s]
    by (intro exI [of _ "[observe ?s1 DataReady]"] exI [of _ ?fin] exI [of _ DataReady]) simp
  then show ?thesis by (intro exI conjI) (assumption, simp)
qed

end
