(* ===== verification/Directory.thy ===== *)
theory Directory
  imports Delivery
begin

text \<open>
  What the daemon is to those who use it: a directory of live sessions by identifier, each
  with the key that opens it, the epoch of its latest connection and whether that connection
  is still there. The steps of the specification have the requests with their answers, the
  connections that join and part and the ends of sessions as labels; the running daemon of
  theory \<open>Daemon_Run\<close>, with the same labels, refines it. A connection joins in one step here;
  theory \<open>Arrival\<close> takes that step apart.
\<close>

section \<open>The specification\<close>

record dir_entry =
  dir_started :: u64
  dir_key :: bytes
  dir_epoch :: u64
  dir_busy :: bool

type_synonym directory = "string \<Rightarrow> dir_entry option"

datatype event =
    Answered control_request control_response
  | Joined string u64
  | Parted string u64
  | Over string

text \<open>The rows of a listing that a directory allows: identifier, start and status.\<close>

definition dir_rows :: "directory \<Rightarrow> (string \<times> u64 \<times> string) set" where
  "dir_rows d = {(sid, dir_started e, if dir_busy e then ''attached'' else ''detached'') | sid e. d sid = Some e}"

definition info_row :: "session_info \<Rightarrow> string \<times> u64 \<times> string" where
  "info_row i = (info_id i, info_started i, info_status i)"

text \<open>
  The requests of the specification, with the answers it allows for the one inside the
  wrappers; \<open>hx\<close> prints keys, \<open>p\<close> is the daemon's port.
\<close>

inductive dir_serves ::
  "(bytes \<Rightarrow> string) \<Rightarrow> u16 \<Rightarrow> directory \<Rightarrow> control_request \<Rightarrow> control_response \<Rightarrow> directory \<Rightarrow> bool"
  for hx p where
  opens: "d sid = None \<Longrightarrow>
    dir_serves hx p d (Create c r) (Bootstrap p sid (hx k))
      (d(sid \<mapsto> \<lparr>dir_started = t, dir_key = k, dir_epoch = 0, dir_busy = False\<rparr>))"
| cannot_open: "dir_serves hx p d (Create c r) (ErrResponse m) d"
| hands_out: "d sid = Some e \<Longrightarrow> \<not> dir_busy e \<Longrightarrow>
    dir_serves hx p d (Attach sid) (Bootstrap p sid (hx k)) (d(sid \<mapsto> e\<lparr>dir_key := k\<rparr>))"
| is_taken: "d sid = Some e \<Longrightarrow> dir_busy e \<Longrightarrow>
    dir_serves hx p d (Attach sid) (ErrResponse ''session busy (already attached)'') d"
| unknown: "d sid = None \<Longrightarrow> dir_serves hx p d (Attach sid) (ErrResponse ''no such session'') d"
| lists: "set (map info_row infos) = dir_rows d \<Longrightarrow> distinct (map info_id infos) \<Longrightarrow>
    sorted (map info_started infos) \<Longrightarrow> dir_serves hx p d Ls (LsResponse infos) d"
| kills: "d sid = Some e \<Longrightarrow> dir_serves hx p d (Kill sid) OkResponse d"
| nothing_to_kill: "d sid = None \<Longrightarrow> dir_serves hx p d (Kill sid) (ErrResponse ''no such session'') d"

inductive dir_step :: "(bytes \<Rightarrow> string) \<Rightarrow> u16 \<Rightarrow> directory \<Rightarrow> event option \<Rightarrow> directory \<Rightarrow> bool"
  for hx p where
  admits: "admitted p req \<Longrightarrow> dir_serves hx p d (inner_request req) resp d' \<Longrightarrow>
    dir_step hx p d (Some (Answered req resp)) d'"
| rejects: "\<not> admitted p req \<Longrightarrow> dir_step hx p d (Some (Answered req (ErrResponse m))) d"
| joins: "d sid = Some e \<Longrightarrow>
    dir_step hx p d (Some (Joined sid (dir_epoch e + 1)))
      (d(sid \<mapsto> e\<lparr>dir_epoch := dir_epoch e + 1, dir_busy := True\<rparr>))"
| parts: "d sid = Some e \<Longrightarrow>
    dir_step hx p d (Some (Parted sid n)) (d(sid \<mapsto> e\<lparr>dir_busy := dir_busy e \<and> n \<noteq> dir_epoch e\<rparr>))"
| ceases: "d sid = Some e \<Longrightarrow> dir_step hx p d (Some (Over sid)) (d(sid := None))"

inductive_cases dir_stepE: "dir_step hx p d l d'"
inductive_cases dir_servesE: "dir_serves hx p d req resp d'"

section \<open>The daemon with its labels\<close>

text \<open>A label of the session at an address, as long as it is live.\<close>

definition label_live :: "(string \<Rightarrow> event) \<Rightarrow> server \<Rightarrow> nat \<Rightarrow> event option" where
  "label_live f sv a =
     (case store sv a of None \<Rightarrow> None | Some s \<Rightarrow> if is_ended s then None else Some (f (ident s)))"

text \<open>
  The steps of theory \<open>Daemon_Run\<close> for a daemon with one port. The hash map of the
  registry yields its keys in some order, each of them once.
\<close>

inductive daemon_step :: "(bytes \<Rightarrow> string) \<Rightarrow> u16 \<Rightarrow> server \<Rightarrow> event option \<Rightarrow> server \<Rightarrow> bool"
  for hx p where
  answers: "execute_control hx n p env sv req = Some (sv', resp) \<Longrightarrow>
    distinct (key_order env) \<Longrightarrow> set (key_order env) = dom (registry sv) \<Longrightarrow>
    daemon_step hx p sv (Some (Answered req resp)) sv'"
| accepts: "tcp_connect mk hkdf sv r w sn = (sv', Inr (c, e)) \<Longrightarrow>
    daemon_step hx p sv (label_live (\<lambda>sid. Joined sid e) sv (at_addr c)) sv'"
| refuses: "tcp_connect mk hkdf sv r w sn = (sv', Inl e) \<Longrightarrow> daemon_step hx p sv None sv'"
| departs: "daemon_step hx p sv (label_live (\<lambda>sid. Parted sid e) sv a) (tcp_leave a e sv)"
| inputs: "daemon_step hx p sv None (on_session a (on_frame f) sv)"
| prints: "daemon_step hx p sv None (on_session a (\<lambda>s. pty_output s bs) sv)"
| drains: "daemon_step hx p sv None (on_session a (\<lambda>s. s\<lparr>to_pty := q, pty_open := b\<rparr>) sv)"
| ends: "daemon_step hx p sv (label_live Over sv a) (mark_session_ended a sv)"

lemma daemon_step_runs: "daemon_step hx p sv l sv' \<Longrightarrow> run_step sv sv'"
  by (induction rule: daemon_step.induct) (auto intro: run_step.intros)

lemma traced_runs: "traced (daemon_step hx p) sv ls sv' \<Longrightarrow> run_step\<^sup>*\<^sup>* sv sv'"
  by (induction rule: traced.induct) (auto dest: daemon_step_runs)

section \<open>The abstraction\<close>

definition entry_of :: "session \<Rightarrow> dir_entry" where
  "entry_of s = \<lparr>dir_started = started s, dir_key = psk s, dir_epoch = active_epoch s, dir_busy = connected s\<rparr>"

definition directory_of :: "server \<Rightarrow> directory" where
  "directory_of sv = (\<lambda>sid. Option.bind (registry sv sid) (\<lambda>a. map_option entry_of (store sv a)))"

lemma directory_empty: "directory_of empty_server = (\<lambda>_. None)"
  by (simp add: directory_of_def empty_server_def)

lemma directory_live:
  assumes "server_ok sv" and "registry sv sid = Some a"
  shows "\<exists>s. store sv a = Some s \<and> ident s = sid \<and> \<not> ended s \<and> directory_of sv sid = Some (entry_of s)"
  using server_okD(2) [OF assms] assms(2) by (auto simp: directory_of_def)

lemma directory_None_iff: "server_ok sv \<Longrightarrow> directory_of sv sid = None \<longleftrightarrow> registry sv sid = None"
  using directory_live [of sv sid] by (cases "registry sv sid") (auto simp: directory_of_def)

text \<open>A change of one session changes its entry and no other.\<close>

lemma directory_on_session:
  assumes "server_ok sv" and "store sv a = Some s" and "\<not> ended s"
  shows "directory_of (on_session a f sv) = (directory_of sv)(ident s \<mapsto> entry_of (f s))"
proof
  fix sid
  from server_okD(3) [OF assms] have reg: "registry sv (ident s) = Some a" .
  show "directory_of (on_session a f sv) sid = ((directory_of sv)(ident s \<mapsto> entry_of (f s))) sid"
  proof (cases "registry sv sid = Some a")
    case True
    with server_okD(2) [OF assms(1), of sid a] assms(2) show ?thesis by (auto simp: directory_of_def)
  next
    case False
    with reg have "sid \<noteq> ident s" by auto
    with False show ?thesis by (cases "registry sv sid") (auto simp: directory_of_def)
  qed
qed

text \<open>A change of a session that has ended, or one the directory does not see, leaves it as it is.\<close>

lemma directory_unseen:
  assumes "server_ok sv" and "\<And>s. store sv a = Some s \<Longrightarrow> \<not> ended s \<Longrightarrow> entry_of (f s) = entry_of s"
  shows "directory_of (on_session a f sv) = directory_of sv"
proof
  fix sid
  show "directory_of (on_session a f sv) sid = directory_of sv sid"
    using directory_live [OF assms(1), of sid] assms(2)
    by (cases "registry sv sid") (auto simp: directory_of_def)
qed

lemma entry_ops:
  "entry_of (pty_output s bs) = entry_of s" "entry_of (on_frame f s) = entry_of s"
  "entry_of (kill s) = entry_of s" "entry_of (s\<lparr>to_pty := q, pty_open := b\<rparr>) = entry_of s"
  "entry_of (leave s e) = (entry_of s)\<lparr>dir_busy := connected s \<and> e \<noteq> active_epoch s\<rparr>"
  "entry_of (fst (become_active s)) =
     (entry_of s)\<lparr>dir_epoch := active_epoch s + 1, dir_busy := True\<rparr>"
  by (cases f; auto simp: entry_of_def session_defs Let_def)+

lemma entry_sel [simp]:
  "dir_key (entry_of s) = psk s" "dir_epoch (entry_of s) = active_epoch s" "dir_busy (entry_of s) = connected s"
  "dir_started (entry_of s) = started s"
  by (simp_all add: entry_of_def)

section \<open>Every answer is one the specification allows\<close>

lemma create_serves:
  assumes "server_ok sv" and "do_create hx n p env sv cols rows = Some (sv', resp)"
  shows "dir_serves hx p (directory_of sv) (Create cols rows) resp (directory_of sv')"
proof -
  from assms(2) obtain sid where sid: "new_session_id sv (rng env) 0 = Some sid"
    by (auto simp: do_create_def split: option.splits)
  show ?thesis
  proof (cases "spawn_error env")
    case (Some e)
    with assms sid show ?thesis
      by (auto simp: do_create_def spawn_session_eq Let_def intro: dir_serves.cannot_open)
  next
    case None
    let ?s = "new_session sid (case shell_var env of Some sh \<Rightarrow> sh | None \<Rightarrow> ''/bin/sh'')
      (max cols 1) (max rows 1) n (clock env) (fresh_key env)"
    let ?sv = "sv\<lparr>store := (store sv)(next_addr sv \<mapsto> ?s), next_addr := Suc (next_addr sv),
      registry := (registry sv)(sid \<mapsto> next_addr sv)\<rparr>"
    from do_create_eq [OF sid None] assms(2) have sv': "sv' = ?sv" "resp = Bootstrap p sid (hx (fresh_key env))"
      by (simp_all add: Let_def)
    have free: "registry sv sid = None"
      using new_session_id_fresh [OF sid] by (simp add: reg_contains_def)
    have unallocated: "registry sv x \<noteq> Some (next_addr sv)" for x
      using server_okD(1) [OF assms(1), of "next_addr sv"] server_okD(2) [OF assms(1), of x "next_addr sv"]
      by auto
    have "directory_of ?sv x = ((directory_of sv)(sid \<mapsto>
        \<lparr>dir_started = clock env, dir_key = fresh_key env, dir_epoch = 0, dir_busy = False\<rparr>)) x" for x
      using unallocated [of x]
      by (cases "registry sv x") (auto simp: directory_of_def entry_of_def new_session_def)
    then have "directory_of sv' = (directory_of sv)(sid \<mapsto>
        \<lparr>dir_started = clock env, dir_key = fresh_key env, dir_epoch = 0, dir_busy = False\<rparr>)"
      unfolding sv' by blast
    with free sv'(2) show ?thesis
      by (simp add: directory_of_def dir_serves.opens)
  qed
qed

lemma attach_serves:
  assumes "server_ok sv" and "do_attach hx p env sv sid = (sv', resp)"
  shows "dir_serves hx p (directory_of sv) (Attach sid) resp (directory_of sv')"
proof (cases "registry sv sid")
  case None
  with assms(2) show ?thesis
    by (auto simp: do_attach_def reg_get_def directory_of_def intro!: dir_serves.unknown)
next
  case (Some a)
  with directory_live [OF assms(1)] obtain s where
      s: "store sv a = Some s" "ident s = sid" "\<not> ended s" "directory_of sv sid = Some (entry_of s)" by blast
  show ?thesis
  proof (cases "connected s")
    case True
    with assms(2) Some s have "sv' = sv" "resp = ErrResponse ''session busy (already attached)''"
      by (simp_all add: do_attach_def reg_get_def is_ended_def is_busy_def)
    with True s(4) show ?thesis by (auto intro: dir_serves.is_taken)
  next
    case False
    with assms(2) Some s have sv': "sv' = on_session a (\<lambda>_. s\<lparr>psk := fresh_key env\<rparr>) sv"
      and resp: "resp = Bootstrap p sid (hx (fresh_key env))"
      by (auto simp: do_attach_def reg_get_def is_ended_def is_busy_def rotate_psk_def)
    have "directory_of sv' = (directory_of sv)(sid \<mapsto> (entry_of s)\<lparr>dir_key := fresh_key env\<rparr>)"
      unfolding sv' directory_on_session [OF assms(1) s(1,3)] s(2) by (simp add: entry_of_def)
    with s(4) False resp show ?thesis by (auto intro: dir_serves.hands_out)
  qed
qed

lemma kill_serves:
  assumes "server_ok sv" and "do_kill sv sid = (sv', resp)"
  shows "dir_serves hx p (directory_of sv) (Kill sid) resp (directory_of sv')"
proof (cases "registry sv sid")
  case None
  with assms(2) show ?thesis
    by (auto simp: do_kill_def reg_get_def directory_of_def intro!: dir_serves.nothing_to_kill)
next
  case (Some a)
  with assms(2) have "sv' = on_session a kill sv" "resp = OkResponse"
    by (simp_all add: do_kill_def reg_get_def)
  with directory_live [OF assms(1) Some] show ?thesis
    by (auto simp: directory_unseen [OF assms(1)] entry_ops intro: dir_serves.kills)
qed

lemma set_map_filter_Some: "set (List.map_filter f xs) = {y. \<exists>x \<in> set xs. f x = Some y}"
  by (induction xs) (auto simp: List.map_filter_def split: option.splits)

lemma list_serves:
  assumes "server_ok sv" and "distinct order" and "set order = dom (registry sv)"
  shows "dir_serves hx p (directory_of sv) Ls (LsResponse (reg_list order sv)) (directory_of sv)"
proof (rule dir_serves.lists)
  let ?row = "\<lambda>sid. Option.bind (registry sv sid) (\<lambda>a. map_option info_of (store sv a))"
  have sub: "set order \<subseteq> dom (registry sv)" by (simp add: assms(3))
  from map_filter_infos [OF assms(1) sub] assms(2)
  have dist: "distinct (map info_id (List.map_filter ?row order))" by simp
  then show "distinct (map info_id (reg_list order sv))" by (simp add: reg_list_def distinct_map)
  show "sorted (map info_started (reg_list order sv))" by (simp add: reg_list_def)
  have row: "info_row (info_of s) =
      (ident s, started s, if connected s then ''attached'' else ''detached'')" if "\<not> ended s" for s
    using that by (simp add: info_row_def info_of_def status_str_def is_busy_def is_ended_def)
  have "x \<in> info_row ` {i. \<exists>sid. ?row sid = Some i} \<longleftrightarrow> x \<in> dir_rows (directory_of sv)" for x
  proof
    assume "x \<in> info_row ` {i. \<exists>sid. ?row sid = Some i}"
    then obtain sid a i where "registry sv sid = Some a" "map_option info_of (store sv a) = Some i" "x = info_row i"
      by (auto split: bind_splits)
    with directory_live [OF assms(1), of sid a] show "x \<in> dir_rows (directory_of sv)"
      by (fastforce simp: dir_rows_def row)
  next
    assume "x \<in> dir_rows (directory_of sv)"
    then obtain sid a s where "registry sv sid = Some a" "store sv a = Some s"
      and x: "x = (sid, started s, if connected s then ''attached'' else ''detached'')"
      by (auto simp: dir_rows_def directory_of_def split: bind_splits)
    with directory_live [OF assms(1), of sid a] have "ident s = sid" "\<not> ended s" by auto
    with x have "x = info_row (info_of s)" by (simp add: row)
    moreover have "?row sid = Some (info_of s)"
      using \<open>registry sv sid = Some a\<close> \<open>store sv a = Some s\<close> by simp
    ultimately show "x \<in> info_row ` {i. \<exists>sid. ?row sid = Some i}" by blast
  qed
  then have rows: "info_row ` {i. \<exists>sid. ?row sid = Some i} = dir_rows (directory_of sv)" by (rule set_eqI)
  have "sid \<in> set order" if "?row sid = Some i" for sid i
    using that assms(3) by (cases "registry sv sid") auto
  then have "set (reg_list order sv) = {i. \<exists>sid. ?row sid = Some i}"
    by (simp add: reg_list_def set_map_filter_Some) blast
  with rows show "set (map info_row (reg_list order sv)) = dir_rows (directory_of sv)" by simp
qed

lemma execute_serves:
  assumes "server_ok sv" and "execute_control hx n p env sv req = Some (sv', resp)"
    and "distinct (key_order env)" and "set (key_order env) = dom (registry sv)"
  shows "dir_step hx p (directory_of sv) (Some (Answered req resp)) (directory_of sv')"
proof (cases "admitted p req")
  case False
  from execute_rejected [OF False, of hx n env sv] assms(2) False show ?thesis
    by (auto intro: dir_step.rejects)
next
  case True
  note exec = assms(2) [unfolded execute_admitted [OF True]]
  have "dir_serves hx p (directory_of sv) (inner_request req) resp (directory_of sv')"
    using exec create_serves [OF assms(1)] attach_serves [OF assms(1)] kill_serves [OF assms(1)]
      list_serves [OF assms(1,3,4)] inner_request_plain [of req]
    by (cases "inner_request req") auto
  then show ?thesis by (rule dir_step.admits [OF True])
qed

section \<open>The refinement\<close>

lemma label_live_cases:
  assumes "store sv a = None \<or> (\<exists>s. store sv a = Some s \<and> ended s) \<Longrightarrow> label_live f sv a = None \<Longrightarrow> P"
    and "\<And>s. store sv a = Some s \<Longrightarrow> \<not> ended s \<Longrightarrow> label_live f sv a = Some (f (ident s)) \<Longrightarrow> P"
  shows P
  using assms by (cases "store sv a") (auto simp: label_live_def is_ended_def)

lemma directory_registered:
  assumes "server_ok sv" and "store sv a = Some s" and "\<not> ended s"
  shows "directory_of sv (ident s) = Some (entry_of s)"
  using server_okD(3) [OF assms] assms(2) by (simp add: directory_of_def)

lemma join_refines:
  assumes "server_ok sv" and "tcp_connect mk hkdf sv r w sn = (sv', Inr (c, e))"
  shows "dir_step hx p (directory_of sv) (label_live (\<lambda>sid. Joined sid e) sv (at_addr c)) (directory_of sv')"
proof -
  from tcp_connect_outcome [where mk = mk and hkdf = hkdf and sv = sv and r = r and w = w and sn = sn, unfolded assms(2)] obtain s s' where
      s: "store sv (at_addr c) = Some s" "\<not> ended s" "become_active s = (s', e)"
        "sv' = sv\<lparr>store := (store sv)(at_addr c \<mapsto> s')\<rparr>" by auto
  then have "sv' = on_session (at_addr c) (\<lambda>s. fst (become_active s)) sv"
    by (simp add: on_session_def)
  moreover have "e = active_epoch s + 1" using s(3) by (auto simp: session_defs)
  ultimately show ?thesis
    using dir_step.joins [where d = "directory_of sv" and hx = hx and p = p, OF directory_registered [OF assms(1) s(1,2)]] s(1,2)
    by (simp add: label_live_def is_ended_def directory_on_session [OF assms(1)] entry_ops)
qed

lemma part_refines:
  assumes "server_ok sv"
  shows "dir_step hx p (directory_of sv) (label_live (\<lambda>sid. Parted sid e) sv a) (directory_of (tcp_leave a e sv)) \<or>
    label_live (\<lambda>sid. Parted sid e) sv a = None \<and> directory_of (tcp_leave a e sv) = directory_of sv"
proof (rule label_live_cases [of sv a "\<lambda>sid. Parted sid e"])
  assume "store sv a = None \<or> (\<exists>s. store sv a = Some s \<and> ended s)" and lab: "label_live (\<lambda>sid. Parted sid e) sv a = None"
  then have "directory_of (tcp_leave a e sv) = directory_of sv"
    unfolding tcp_leave_def by (intro directory_unseen [OF assms]) auto
  with lab show ?thesis by simp
next
  fix s
  assume s: "store sv a = Some s" "\<not> ended s" "label_live (\<lambda>sid. Parted sid e) sv a = Some (Parted (ident s) e)"
  from dir_step.parts [where d = "directory_of sv" and hx = hx and p = p and n = e, OF directory_registered [OF assms s(1,2)]] s
  show ?thesis
    by (simp add: tcp_leave_def directory_on_session [OF assms] entry_ops)
qed

lemma end_refines:
  assumes "server_ok sv"
  shows "dir_step hx p (directory_of sv) (label_live Over sv a) (directory_of (mark_session_ended a sv)) \<or>
    label_live Over sv a = None \<and> directory_of (mark_session_ended a sv) = directory_of sv"
proof (rule label_live_cases [of sv a Over])
  assume "store sv a = None \<or> (\<exists>s. store sv a = Some s \<and> ended s)" and "label_live Over sv a = None"
  moreover from this(1) have "mark_session_ended a sv = sv"
    by (auto simp: mark_session_ended_twice) (simp add: mark_session_ended_def)
  ultimately show ?thesis by simp
next
  fix s
  assume s: "store sv a = Some s" "\<not> ended s" "label_live Over sv a = Some (Over (ident s))"
  have other: "registry sv sid \<noteq> Some a" if "sid \<noteq> ident s" for sid
    using server_okD(2) [OF assms, of sid a] s(1) that by auto
  have "directory_of (mark_session_ended a sv) = (directory_of sv)(ident s := None)"
  proof
    fix sid
    from other [of sid]
    show "directory_of (mark_session_ended a sv) sid = ((directory_of sv)(ident s := None)) sid"
      by (cases "registry sv sid") (auto simp: directory_of_def mark_session_ended_live [OF s(1,2)])
  qed
  with dir_step.ceases [where d = "directory_of sv" and hx = hx and p = p, OF directory_registered [OF assms s(1,2)]] s(3) show ?thesis by simp
qed

lemma daemon_step_refines:
  assumes "daemon_step hx p sv l sv'" and "server_ok sv"
  shows "dir_step hx p (directory_of sv) l (directory_of sv') \<or> l = None \<and> directory_of sv' = directory_of sv"
  using assms(1)
proof cases
  case (answers n env req resp)
  with execute_serves [OF assms(2)] show ?thesis by auto
next
  case (accepts mk hkdf r w sn c e)
  with join_refines [OF assms(2)] show ?thesis by auto
next
  case (refuses mk hkdf r w sn e)
  with tcp_connect_outcome [where mk = mk and hkdf = hkdf and sv = sv and r = r and w = w and sn = sn] show ?thesis by simp
next
  case (departs e a)
  with part_refines [OF assms(2)] show ?thesis by auto
next
  case (ends a)
  with end_refines [OF assms(2)] show ?thesis by auto
qed (simp_all add: directory_unseen [OF assms(2)] entry_ops)

interpretation daemon_directory:
  trace_refinement "daemon_step hx p" server_ok "dir_step hx p" directory_of for hx p
  by unfold_locales (use run_step_ok daemon_step_runs daemon_step_refines in \<open>blast+\<close>)

section \<open>What the specification promises\<close>

text \<open>The events that give a session a new key or end it.\<close>

fun renews :: "string \<Rightarrow> event \<Rightarrow> bool" where
  "renews sid (Answered req (Bootstrap q i kx)) \<longleftrightarrow> i = sid"
| "renews sid (Over i) \<longleftrightarrow> i = sid"
| "renews sid _ \<longleftrightarrow> False"

text \<open>The events that end the turn of a session's connection with epoch \<open>n\<close>.\<close>

fun releases :: "string \<Rightarrow> u64 \<Rightarrow> event \<Rightarrow> bool" where
  "releases sid n (Joined i m) \<longleftrightarrow> i = sid"
| "releases sid n (Parted i m) \<longleftrightarrow> i = sid \<and> m = n"
| "releases sid n (Over i) \<longleftrightarrow> i = sid"
| "releases sid n _ \<longleftrightarrow> False"

text \<open>The events that hand out a key of a session.\<close>

fun hands_key :: "string \<Rightarrow> event \<Rightarrow> bool" where
  "hands_key sid (Answered req (Bootstrap q i kx)) \<longleftrightarrow> i = sid"
| "hands_key sid _ \<longleftrightarrow> False"

lemma dir_key_kept:
  assumes "dir_step hx p d l d'" and "\<exists>e. d sid = Some e \<and> dir_key e = k"
    and "\<And>x. l = Some x \<Longrightarrow> \<not> renews sid x"
  shows "\<exists>e. d' sid = Some e \<and> dir_key e = k"
  using assms by (auto elim!: dir_stepE dir_servesE)

lemma dir_held:
  assumes "dir_step hx p d l d'"
    and "\<exists>e. d sid = Some e \<and> dir_busy e \<and> dir_epoch e = n \<and> dir_key e = k"
    and "\<And>x. l = Some x \<Longrightarrow> \<not> releases sid n x"
  shows "(\<exists>e. d' sid = Some e \<and> dir_busy e \<and> dir_epoch e = n \<and> dir_key e = k) \<and>
         (\<forall>x. l = Some x \<longrightarrow> \<not> hands_key sid x)"
  using assms by (auto elim!: dir_stepE dir_servesE)

lemma dir_answer_key:
  assumes "dir_step hx p d (Some (Answered req (Bootstrap q sid kx))) d'"
  shows "\<exists>e. d' sid = Some e \<and> kx = hx (dir_key e) \<and> q = p"
  using assms by (auto elim!: dir_stepE dir_servesE)

lemma dir_joined:
  assumes "dir_step hx p d (Some (Joined sid n)) d'"
  shows "\<exists>e. d' sid = Some e \<and> dir_busy e \<and> dir_epoch e = n"
  using assms by (auto elim!: dir_stepE dir_servesE)

lemma directory_lookup:
  assumes "server_ok sv" and "directory_of sv sid = Some e"
  shows "\<exists>a s. live_session sv sid = Some (a, s) \<and> e = entry_of s"
proof -
  from assms(2) obtain a where "registry sv sid = Some a" by (auto simp: directory_of_def split: bind_splits)
  with directory_live [OF assms(1) this] assms(2) show ?thesis
    by (auto simp: live_session_def reg_get_def is_ended_def)
qed

lemma handed_key_current:
  assumes "traced (daemon_step hx p) empty_server (ls @ Answered req (Bootstrap q sid kx) # ls') sv"
    and "list_all (\<lambda>l. \<not> renews sid l) ls'"
  shows "\<exists>a s. live_session sv sid = Some (a, s) \<and> kx = hx (current_psk s) \<and> q = p"
proof -
  from daemon_directory.trace_refines [OF assms(1) server_ok_empty]
  have "traced (dir_step hx p) (directory_of empty_server) (ls @ Answered req (Bootstrap q sid kx) # ls')
      (directory_of sv)" .
  from traced_split [OF this] obtain d d' where
      "dir_step hx p d (Some (Answered req (Bootstrap q sid kx))) d'"
      and later: "traced (dir_step hx p) d' ls' (directory_of sv)" by blast
  from dir_answer_key [OF this(1)] obtain e where
      e: "d' sid = Some e" "kx = hx (dir_key e)" "q = p" by blast
  then have "\<exists>e'. d' sid = Some e' \<and> dir_key e' = dir_key e" by blast
  from traced_keeps [OF later, where R = "\<lambda>_. True" and P = "\<lambda>d. \<exists>e'. d sid = Some e' \<and> dir_key e' = dir_key e",
      OF this assms(2)] dir_key_kept
  obtain e' where "directory_of sv sid = Some e'" "dir_key e' = dir_key e" by (metis (no_types, lifting))
  with directory_lookup daemon_directory.trace_inv [OF assms(1) server_ok_empty] e(2,3) show ?thesis
    by (fastforce simp: current_psk_def)
qed

section \<open>Properties\<close>

text \<open>A run: a session is created, a connection that is not its own departs.\<close>

definition demo_trace :: "event list" where
  "demo_trace = [Answered (OnProtocol VERSION (Create 80 24)) (Bootstrap 1 (hex8 7) (string_of_bytes [1]))]"

lemma demo_traced: "traced (daemon_step string_of_bytes 1) empty_server demo_trace demo_server"
proof -
  let ?denv = "demo_env\<lparr>key_order := []\<rparr>"
  have "new_session_id empty_server (rng ?denv) 0 = Some (hex8 (rng ?denv 0))"
    by (rule new_session_id_found) (simp_all add: reg_contains_def empty_server_def)
  then have "new_session_id empty_server (rng ?denv) 0 = Some (hex8 7)" by (simp add: demo_env_def)
  then have "execute_control string_of_bytes 16 1 ?denv empty_server (OnProtocol VERSION (Create 80 24)) =
      Some (demo_server, Bootstrap 1 (hex8 7) (string_of_bytes [1]))"
    by (simp add: execute_control_def do_create_eq demo_env_def demo_server_def empty_server_def Let_def)
  then have "daemon_step string_of_bytes 1 empty_server
      (Some (Answered (OnProtocol VERSION (Create 80 24)) (Bootstrap 1 (hex8 7) (string_of_bytes [1])))) demo_server"
    by (rule daemon_step.answers) (simp_all add: empty_server_def)
  from traced_one [where stp = "daemon_step string_of_bytes 1", OF this] show ?thesis by (simp add: demo_trace_def)
qed

lemma demo_parted:
  "traced (daemon_step string_of_bytes 1) empty_server (demo_trace @ [Parted (hex8 7) 3]) (tcp_leave 0 3 demo_server)"
proof -
  have "label_live (\<lambda>sid. Parted sid 3) demo_server 0 = Some (Parted (hex8 7) 3)"
    by (simp add: label_live_def demo_server_def Let_def new_session_def is_ended_def)
  with daemon_step.departs [where hx = string_of_bytes and p = 1 and e = 3 and sv = demo_server and a = 0]
  have "daemon_step string_of_bytes 1 demo_server (Some (Parted (hex8 7) 3)) (tcp_leave 0 3 demo_server)"
    by simp
  from traced.visible [where stp = "daemon_step string_of_bytes 1", OF demo_traced this] show ?thesis .
qed

text \<open>C5. The daemon is a directory of sessions. Whatever happens in it, in any order (requests,
  connections, input, output, ends of shells), every answer it gives, every connection it takes
  and every end of a session is one that the specification allows at that point, and the
  sessions it has registered are those of the directory.\<close>

theorem daemon_refines_directory:
  assumes "traced (daemon_step hx p) empty_server ls sv"
  shows "traced (dir_step hx p) (\<lambda>_. None) ls (directory_of sv)"
  using daemon_directory.trace_refines [OF assms server_ok_empty] by (simp add: directory_empty)

theorem daemon_refines_directory_witness:
  "\<exists>d. traced (dir_step string_of_bytes 1) (\<lambda>_. None) demo_trace d \<and> map_option dir_key (d (hex8 7)) = Some [1]"
proof (intro exI conjI)
  show "traced (dir_step string_of_bytes 1) (\<lambda>_. None) demo_trace (directory_of demo_server)"
    by (rule daemon_refines_directory [OF demo_traced])
  show "map_option dir_key (directory_of demo_server (hex8 7)) = Some [1]"
    by (simp add: directory_of_def demo_server_def Let_def new_session_def)
qed

text \<open>C11. A key that was handed out opens the session for as long as the session lives and no other key
  of it is handed out, whatever else the daemon does meanwhile: a client that has the identifier
  and the key of the answer gets in, from any offset up to the output there is. Its hello and its
  first frame are accepted for the live session, and it reads the server's, in step.\<close>

theorem handed_key_opens_session:
  assumes "traced (daemon_step hx p) empty_server (ls @ Answered req (Bootstrap q sid hexkey) # ls') sv"
    and "list_all (\<lambda>l. \<not> renews sid l) ls'"
    and "\<And>k. decode_hex (hx k) = Inr k"
    and "length cn = NONCE_LEN" and "length sn = NONCE_LEN"
    and "\<And>k. cipher_ok (mk k)" and "\<And>k. encrypts (mk k)"
  shows "q = p \<and> (\<exists>key a s. decode_hex hexkey = Inr key \<and> live_session sv sid = Some (a, s) \<and>
    (\<forall>off \<le> current_total s. \<exists>sv' c e sh op.
       tcp_connect mk hkdf sv (client_opening mk hkdf sid key cn sn off @ later) open_sink sn = (sv', Inr (c, e)) \<and>
       at_addr c = a \<and> at_offset c = off \<and>
       client_recv (written (fst (at_link c))) = (sh, Inr (sn, current_total s)) \<and>
       read_frame sh (new_opener mk (derive_key hkdf key cn sn) DIR_SERVER_TO_CLIENT) = (([], op), Inr Hello) \<and>
       in_sync (snd (at_link c)) op))"
proof -
  from handed_key_current [OF assms(1,2)] obtain a s where
      s: "live_session sv sid = Some (a, s)" "hexkey = hx (current_psk s)" "q = p" by blast
  note sid = live_ident_fits [OF traced_runs [OF assms(1)] s(1)]
  have "\<exists>sv' c e sh op.
       tcp_connect mk hkdf sv (client_opening mk hkdf sid (current_psk s) cn sn off @ later) open_sink sn =
         (sv', Inr (c, e)) \<and> at_addr c = a \<and> at_offset c = off \<and>
       client_recv (written (fst (at_link c))) = (sh, Inr (sn, current_total s)) \<and>
       read_frame sh (new_opener mk (derive_key hkdf (current_psk s) cn sn) DIR_SERVER_TO_CLIENT) =
         (([], op), Inr Hello) \<and> in_sync (snd (at_link c)) op"
    if "off \<le> current_total s" for off
    using connection_opens [where mk = mk and hkdf = hkdf and later = later, OF s(1) sid assms(4,5) that assms(6,7) refl]
    by (metis append_Nil2)
  with s assms(3) show ?thesis by auto
qed

theorem handed_key_opens_session_witness:
  "\<exists>sv' c e. tcp_connect (\<lambda>_. tag_cipher) (\<lambda>_ _ _ _. []) (tcp_leave 0 3 demo_server)
       (client_opening (\<lambda>_. tag_cipher) (\<lambda>_ _ _ _. []) (hex8 7) [1] (replicate 32 1) (replicate 32 2) 0 @ [])
       open_sink (replicate 32 2) = (sv', Inr (c, e)) \<and> at_addr c = 0"
proof -
  have n: "length (replicate 32 1 :: bytes) = NONCE_LEN" "length (replicate 32 2 :: bytes) = NONCE_LEN"
    by (simp_all add: NONCE_LEN_def)
  have tr: "traced (daemon_step string_of_bytes 1) empty_server
      ([] @ Answered (OnProtocol VERSION (Create 80 24)) (Bootstrap 1 (hex8 7) (string_of_bytes [1])) #
       [Parted (hex8 7) 3]) (tcp_leave 0 3 demo_server)"
    using demo_parted by (simp add: demo_trace_def)
  have hx: "(\<lambda>s. Inr (as_bytes s) :: error + bytes) (string_of_bytes k) = Inr k" for k by simp
  have quiet: "list_all (\<lambda>l. \<not> renews (hex8 7) l) [Parted (hex8 7) 3]" by simp
  note opened = handed_key_opens_session [where later = "[]" and hkdf = "\<lambda>_ _ _ _. []",
    OF tr quiet hx n tag_cipher_ok tag_cipher_encrypts]
  from opened obtain key a s where
      key: "Inr (as_bytes (string_of_bytes [1])) = (Inr key :: error + bytes)"
        "live_session (tcp_leave 0 3 demo_server) (hex8 7) = Some (a, s)"
    and all: "\<forall>off \<le> current_total s. \<exists>sv' c e sh op.
       tcp_connect (\<lambda>_. tag_cipher) (\<lambda>_ _ _ _. []) (tcp_leave 0 3 demo_server)
         (client_opening (\<lambda>_. tag_cipher) (\<lambda>_ _ _ _. []) (hex8 7) key (replicate 32 1) (replicate 32 2) off @ [])
         open_sink (replicate 32 2) = (sv', Inr (c, e)) \<and> at_addr c = a \<and> at_offset c = off \<and>
       client_recv (written (fst (at_link c))) = (sh, Inr (replicate 32 2, current_total s)) \<and>
       read_frame sh (new_opener (\<lambda>_. tag_cipher)
         (derive_key (\<lambda>_ _ _ _. []) key (replicate 32 1) (replicate 32 2)) DIR_SERVER_TO_CLIENT) =
         (([], op), Inr Hello) \<and> in_sync (snd (at_link c)) op"
    by blast
  have "key = [1]" using key(1) by simp
  moreover have "a = 0"
    using key(2) by (auto simp: demo_server_def Let_def live_session_def reg_get_def tcp_leave_def
        dest!: live_session_SomeD split: if_splits option.splits)
  ultimately show ?thesis using all [rule_format, of 0] by auto
qed

text \<open>An attached session is exclusive, when requests and connections are single steps (theory \<open>Crowd\<close>
  has the same for their accesses). From the moment a connection joins, until it parts, another
  one joins or the session ends, no answer hands out a key of the session and its key stays the
  one the connection joined with; the session is listed as attached all the while.\<close>

theorem attached_entry_keeps_key:
  assumes "traced (daemon_step hx p) empty_server (ls @ Joined sid n # ls') sv"
    and "list_all (\<lambda>l. \<not> releases sid n l) ls'"
  shows "list_all (\<lambda>l. \<not> hands_key sid l) ls' \<and>
    (\<exists>t t' a s k. traced (daemon_step hx p) empty_server ls t \<and> daemon_step hx p t (Some (Joined sid n)) t' \<and>
       map_option dir_key (directory_of t' sid) = Some k \<and>
       live_session sv sid = Some (a, s) \<and> is_busy s \<and> is_current s n \<and> current_psk s = k)"
proof -
  from traced_split [OF assms(1)] obtain t t' where
      t: "traced (daemon_step hx p) empty_server ls t" "daemon_step hx p t (Some (Joined sid n)) t'"
    and later: "traced (daemon_step hx p) t' ls' sv" by blast
  from daemon_directory.trace_inv [OF t(1) server_ok_empty] have "server_ok t" .
  with daemon_step_refines [OF t(2)] dir_joined obtain e where
      e: "directory_of t' sid = Some e" "dir_busy e" "dir_epoch e = n" by blast
  from daemon_directory.step_keeps [OF t(2) \<open>server_ok t\<close>] have "server_ok t'" .
  from daemon_directory.trace_refines [OF later this]
  have spec: "traced (dir_step hx p) (directory_of t') ls' (directory_of sv)" .
  have start: "\<exists>x. directory_of t' sid = Some x \<and> dir_busy x \<and> dir_epoch x = n \<and> dir_key x = dir_key e"
    using e by blast
  have held: "(\<exists>x. directory_of sv sid = Some x \<and> dir_busy x \<and> dir_epoch x = n \<and> dir_key x = dir_key e) \<and>
      list_all (\<lambda>l. \<not> hands_key sid l) ls'"
    by (rule traced_keeps [OF spec, where Q = "\<lambda>l. \<not> releases sid n l" and
        P = "\<lambda>d. \<exists>x. d sid = Some x \<and> dir_busy x \<and> dir_epoch x = n \<and> dir_key x = dir_key e",
        OF start assms(2)]) (rule dir_held)
  then obtain x where x: "directory_of sv sid = Some x" "dir_busy x" "dir_epoch x = n" "dir_key x = dir_key e"
    by blast
  with directory_lookup [OF daemon_directory.trace_inv [OF later \<open>server_ok t'\<close>]] obtain a s where
      "live_session sv sid = Some (a, s)" "x = entry_of s" by blast
  with x live_session_SomeD have "is_busy s" "is_current s n" "current_psk s = dir_key e"
    by (fastforce simp: is_busy_def is_ended_def is_current_def current_psk_def)+
  with held t e(1) \<open>live_session sv sid = Some (a, s)\<close> show ?thesis by auto
qed

lemma opens_from_start:
  assumes "live_session sv (hex8 7) = Some (a, s)"
  shows "\<exists>r c. tcp_connect (\<lambda>_. tag_cipher) (\<lambda>_ _ _ _. []) sv r open_sink (replicate 32 2) =
       (on_session a (\<lambda>s. fst (become_active s)) sv, Inr (c, snd (become_active s))) \<and>
     at_addr c = a \<and> at_offset c = 0"
proof -
  have sid: "length (hex8 7) = SESSION_ID_LEN" "valid_utf8 (as_bytes (hex8 7))"
    by (simp_all add: SESSION_ID_LEN_def hex8_utf8)
  have n: "length (replicate 32 1 :: bytes) = NONCE_LEN" "length (replicate 32 2 :: bytes) = NONCE_LEN"
    by (simp_all add: NONCE_LEN_def)
  have "0 \<le> current_total s" by simp
  from connection_opens [where mk = "\<lambda>_. tag_cipher" and hkdf = "\<lambda>_ _ _ _. []" and later = "[]",
      OF assms sid n this tag_cipher_ok tag_cipher_encrypts refl]
  show ?thesis by blast
qed

lemma demo_connects:
  "\<exists>r c. tcp_connect (\<lambda>_. tag_cipher) (\<lambda>_ _ _ _. []) demo_server r open_sink (replicate 32 2) =
       (on_session 0 (\<lambda>s. fst (become_active s)) demo_server, Inr (c, 1)) \<and> at_addr c = 0 \<and> at_offset c = 0"
proof -
  let ?s = "new_session (hex8 7) ''/bin/sh'' 80 24 16 5 [1]"
  have "live_session demo_server (hex8 7) = Some (0, ?s)"
    by (simp add: live_session_def reg_get_def demo_server_def Let_def new_session_def is_ended_def)
  from opens_from_start [OF this] show ?thesis by (simp add: session_defs new_session_def)
qed

lemma demo_joined:
  "\<exists>sv'. traced (daemon_step string_of_bytes 1) empty_server (demo_trace @ [Joined (hex8 7) 1]) sv' \<and>
     store sv' 0 \<noteq> None"
proof -
  from demo_connects obtain r c where
    conn: "tcp_connect (\<lambda>_. tag_cipher) (\<lambda>_ _ _ _. []) demo_server r open_sink (replicate 32 2) =
      (on_session 0 (\<lambda>s. fst (become_active s)) demo_server, Inr (c, 1))" "at_addr c = 0" by blast
  with daemon_step.accepts [where hx = string_of_bytes and p = 1, OF conn(1)]
  have "daemon_step string_of_bytes 1 demo_server (Some (Joined (hex8 7) 1))
      (on_session 0 (\<lambda>s. fst (become_active s)) demo_server)"
    by (simp add: label_live_def demo_server_def Let_def new_session_def is_ended_def)
  from traced.visible [where stp = "daemon_step string_of_bytes 1", OF demo_traced this] show ?thesis
    by (auto simp: demo_server_def Let_def)
qed

theorem attached_entry_keeps_key_witness:
  "\<exists>sv a s. live_session sv (hex8 7) = Some (a, s) \<and> is_busy s \<and> is_current s 1"
proof -
  from demo_joined obtain sv where
      "traced (daemon_step string_of_bytes 1) empty_server (demo_trace @ Joined (hex8 7) 1 # []) sv" by blast
  from attached_entry_keeps_key [OF this] show ?thesis by auto
qed

end
