(* ===== verification/Remote_Commands.thy ===== *)
theory Remote_Commands
  imports Command_Line Directory
begin

text \<open>
  The commands \<open>attach\<close>, \<open>ls\<close> and \<open>kill\<close> of the client (main.rs) over ssh, agent and daemon and
  back: what the user is told, and what it says of the daemon's sessions.
\<close>

section \<open>The way of an answer\<close>

fun serve_args :: "serve_op \<Rightarrow> string list" where
  "serve_args (ServeCreate cols rows) = create_args cols rows"
| "serve_args (ServeAttach sid) = attach_args sid"
| "serve_args ServeLs = ls_args"
| "serve_args (ServeKill sid) = kill_args sid"

text \<open>
  The agent that ssh runs with the remote command line of an operation gets the answer, prints it
  as one line that reads back, and ssh delivers what it prints, after whole lines of the login shell.
\<close>

definition carried ::
  "(error \<Rightarrow> string) \<Rightarrow> (control_request \<Rightarrow> string) \<Rightarrow> (control_response \<Rightarrow> string) \<Rightarrow>
     (string \<Rightarrow> error + control_response) \<Rightarrow> agent_env \<Rightarrow> client_env \<Rightarrow> client_env \<Rightarrow> config \<Rightarrow>
     serve_op \<Rightarrow> control_response \<Rightarrow> bool" where
  "carried display print_req print_resp parse_resp aenv renv env cfg op resp \<longleftrightarrow>
     (\<exists>evs tgt noise err c.
        obtain_response print_req parse_resp aenv (serve_request op) (port cfg) = (evs, Inr resp) \<and>
        require_ssh_target (home_dir env) cfg = Inr tgt \<and>
        cli_cmd c = Some (CmdServe op) \<and> cli_port c = port cfg \<and>
        ssh (ssh_side env) (ssh_args cfg tgt (serve_args op)) (as_bytes (script (ssh_side env))) =
          Exited None (noise @ remote_output display print_req print_resp parse_resp aenv renv c) err \<and>
        whole_lines noise \<and> one_line (print_resp resp) \<and>
        parse_response (ssh_side env) (str_trim (print_resp resp)) = Inr resp)"

lemma carried_answer:
  assumes "carried display print_req print_resp parse_resp aenv renv env cfg op resp"
  shows "run_ssh (ssh_side env) (home_dir env) cfg (serve_args op) = Inr resp"
  using assms unfolding carried_def by (elim exE conjE) (rule remote_answer)

text \<open>A request that the agent makes for the port the daemon has is one the daemon admits.\<close>

lemma wrapped_admitted:
  assumes "pt = None \<or> pt = Some q"
  shows "admitted q (wrap_request pt (serve_request op))"
    and "inner_request (wrap_request pt (serve_request op)) = serve_request op"
  using assms by (cases op; auto simp: wrap_request_def admitted_def Let_def)+

section \<open>Properties\<close>

text \<open>C15. What \<open>attach\<close> comes to. If the daemon's answer travels back, the client dials the resolved
  host at the daemon's port exactly if the session is live and idle, with the key that the
  session then has; otherwise it fails with the reason and the daemon is as it was.\<close>

theorem attach_from_end_to_end:
  assumes "run_reachable sv" and "port cfg = None \<or> port cfg = Some q"
    and "execute_control hx n q denv sv (wrap_request (port cfg) (Attach sid)) = Some (sv', resp)"
    and "carried display print_req print_resp parse_resp aenv renv env cfg (ServeAttach sid) resp"
    and "resolve_tcp_host (home_dir env) cfg = Inr host"
    and "hex_decode env (hx (fresh_key denv)) = Inr (fresh_key denv)" and "length (fresh_key denv) = 32"
  shows "case directory_of sv sid of
      None \<Rightarrow> sv' = sv \<and> client_attach env cfg sid = fails (Root (Failure ''no such session''))
    | Some e \<Rightarrow>
        if dir_busy e
        then sv' = sv \<and> client_attach env cfg sid = fails (Root (Failure ''session busy (already attached)''))
        else directory_of sv' = (directory_of sv)(sid \<mapsto> e\<lparr>dir_key := fresh_key denv\<rparr>) \<and>
             (\<exists>msg. client_attach env cfg sid = ([], msg, Inr (Interact host q sid (fresh_key denv))))"
proof -
  note ok = run_reachable_ok [OF assms(1)]
  from carried_answer [OF assms(4)]
  have run: "bootstrap_attach (ssh_side env) (home_dir env) cfg sid = Inr resp"
    by (simp add: bootstrap_attach_def)
  note adm = wrapped_admitted [OF assms(2), of "ServeAttach sid"]
  from assms(3) have att: "do_attach hx q denv sv sid = (sv', resp)"
    using execute_admitted [OF adm(1), of hx n denv sv] adm(2) by simp
  show ?thesis
  proof (cases "registry sv sid")
    case None
    with att have "sv' = sv" "resp = ErrResponse ''no such session''"
      by (simp_all add: do_attach_def reg_get_def)
    with None run assms(5) show ?thesis by (simp add: directory_of_def client_attach_def)
  next
    case (Some a)
    with directory_live [OF ok] obtain s where
        s: "store sv a = Some s" "ident s = sid" "\<not> ended s" "directory_of sv sid = Some (entry_of s)" by blast
    show ?thesis
    proof (cases "connected s")
      case True
      with att Some s have "sv' = sv" "resp = ErrResponse ''session busy (already attached)''"
        by (simp_all add: do_attach_def reg_get_def is_ended_def is_busy_def)
      with True run assms(5) s(4) show ?thesis by (simp add: client_attach_def)
    next
      case False
      with att Some s have sv': "sv' = on_session a (\<lambda>_. s\<lparr>psk := fresh_key denv\<rparr>) sv"
        and resp: "resp = Bootstrap q sid (hx (fresh_key denv))"
        by (auto simp: do_attach_def reg_get_def is_ended_def is_busy_def rotate_psk_def)
      have "directory_of sv' = (directory_of sv)(sid \<mapsto> (entry_of s)\<lparr>dir_key := fresh_key denv\<rparr>)"
        unfolding sv' directory_on_session [OF ok s(1,3)] s(2) by (simp add: entry_of_def)
      with False run resp assms(5-7) s(4) show ?thesis by (simp add: client_attach_def parse_psk_def)
    qed
  qed
qed


text \<open>\<open>kill\<close> reaches the shell of the session it names, and no other: it reports success exactly if
  the session is live, the child of that session is then killed once more than before, and every
  other session and the registry are unchanged.\<close>

theorem kill_from_end_to_end:
  assumes "run_reachable sv" and "port cfg = None \<or> port cfg = Some q"
    and "execute_control hx n q denv sv (wrap_request (port cfg) (Kill sid)) = Some (sv', resp)"
    and "carried display print_req print_resp parse_resp aenv renv env cfg (ServeKill sid) resp"
  shows "registry sv' = registry sv \<and>
    (case reg_get sv sid of
       None \<Rightarrow> store sv' = store sv \<and> client_kill env cfg sid = fails (Root (Failure ''no such session''))
     | Some a \<Rightarrow>
         \<exists>s. store sv a = Some s \<and> ident s = sid \<and> \<not> is_ended s \<and>
           store sv' = (store sv)(a \<mapsto> (if killer s then s\<lparr>killed := killed s + 1\<rparr> else s)) \<and>
           client_kill env cfg sid = (''killed '' @ sid @ newline, [], Inr Finish))"
proof -
  from carried_answer [OF assms(4)]
  have run: "bootstrap_kill (ssh_side env) (home_dir env) cfg sid = Inr resp"
    by (simp add: bootstrap_kill_def)
  note adm = wrapped_admitted [OF assms(2), of "ServeKill sid"]
  from assms(3) have k: "do_kill sv sid = (sv', resp)"
    using execute_admitted [OF adm(1), of hx n denv sv] adm(2) by simp
  show ?thesis
  proof (cases "reg_get sv sid")
    case None
    with k run show ?thesis by (auto simp: do_kill_def client_kill_def)
  next
    case (Some a)
    with directory_live [OF run_reachable_ok [OF assms(1)], of sid a] obtain s where
        "store sv a = Some s" "ident s = sid" "\<not> ended s" by (auto simp: reg_get_def)
    with Some k run show ?thesis
      by (auto simp: do_kill_def client_kill_def on_session_def kill_def is_ended_def)
  qed
qed

section \<open>The properties at work\<close>

lemma run_carried:
  "carried (\<lambda>_. []) (\<lambda>_. []) (\<lambda>_. ''ok'') (run_parse answer) run_agent_env (run_client answer)
     (run_client answer) run_config op answer"
proof -
  obtain evs where "obtain_response (\<lambda>_. []) (run_parse answer) run_agent_env (serve_request op)
      (port run_config) = (evs, Inr answer)"
    using run_obtained by blast
  then show ?thesis
    unfolding carried_def using run_facts(2,4,5,6) run_ssh_output run_line
    by (intro exI [of _ evs] exI [of _ "''me@box''"] exI [of _ "as_bytes ''hi'' @ [0x0A]"] exI [of _ "[]"]
        exI [of _ "run_cli op"] conjI) assumption+
qed

lemma demo_live: "reg_get demo_server (hex8 7) = Some 0"
  "store demo_server 0 = Some (new_session (hex8 7) ''/bin/sh'' 80 24 16 5 [1])"
  by (simp_all add: demo_server_def Let_def reg_get_def)

theorem attach_from_end_to_end_witness:
  "\<exists>msg. client_attach (run_client run_answer) run_config (hex8 7) =
     ([], msg, Inr (Interact ''box'' 60000 (hex8 7) (replicate 32 1)))"
proof -
  have p: "port run_config = None \<or> port run_config = Some 60000" by simp
  obtain sv' where ex: "execute_control string_of_bytes 16 60000 run_env demo_server
      (wrap_request (port run_config) (Attach (hex8 7))) = Some (sv', run_answer)"
    using demo_live
    by (simp add: execute_control_def wrap_request_def do_attach_def is_ended_def is_busy_def rotate_psk_def
        run_env_def run_answer_def new_session_def)
  have d: "directory_of demo_server (hex8 7) = Some (entry_of (new_session (hex8 7) ''/bin/sh'' 80 24 16 5 [1]))"
    using demo_live by (simp add: directory_of_def reg_get_def)
  from attach_from_end_to_end [OF demo_reachable p ex run_carried run_facts(1,7,8)] show ?thesis
    unfolding d by (simp add: new_session_def run_env_def)
qed


theorem kill_from_end_to_end_witness:
  "client_kill (run_client OkResponse) run_config (hex8 7) = (''killed '' @ hex8 7 @ newline, [], Inr Finish) \<and>
   map_option killed (store (on_session 0 kill demo_server) 0) = Some 1"
proof -
  have p: "port run_config = None \<or> port run_config = Some 60000" by simp
  have ex: "execute_control string_of_bytes 16 60000 run_env demo_server
      (wrap_request (port run_config) (Kill (hex8 7))) = Some (on_session 0 kill demo_server, OkResponse)"
    using demo_live by (simp add: execute_control_def wrap_request_def do_kill_def)
  from kill_from_end_to_end [OF demo_reachable p ex run_carried] demo_live show ?thesis
    by (auto simp: new_session_def)
qed

end
