(* ===== verification/Heartbeat.thy ===== *)
theory Heartbeat
  imports Connection Client_Session
begin

text \<open>
  Time: the idle timeout of the server's reader (\<open>READ_IDLE\<close>), the ticks of the client's
  writer, and whether the one outlasts the other. Times are milliseconds. How late a task runs,
  how long a frame is on its way and how long it is handled are arguments.
\<close>

section \<open>The clocks\<close>

definition READ_IDLE :: nat where "READ_IDLE = 20000"
definition WRITER_TICK :: nat where "WRITER_TICK = 5000"
definition CLIENT_TICK :: nat where "CLIENT_TICK = 3000"

text \<open>
  The client's \<open>interval\<close> with \<open>MissedTickBehavior::Delay\<close>: the first tick is due at once, and each
  further one \<open>CLIENT_TICK\<close> after the one before was taken. A tick is taken some time late
  (\<open>slip\<close>); at a tick the writer sends \<open>Ack\<close> and \<open>Ping\<close>, and between two of them the frames for
  keys, window changes and pongs, each with its delay after the tick.
\<close>

record beat =
  committed :: u64
  others :: "(nat \<times> frame) list"
  slip :: nat

fun sends_from :: "nat \<Rightarrow> beat list \<Rightarrow> (nat \<times> frame) list" where
  "sends_from t [] = []"
| "sends_from t (b # bs) =
     (t, Ack (committed b)) # (t, Ping) # map (\<lambda>(d, f). (t + d, f)) (others b) @
     sends_from (t + CLIENT_TICK + slip b) bs"

text \<open>Between two ticks: in order, before the next tick is taken.\<close>

definition beat_ok :: "nat \<Rightarrow> beat \<Rightarrow> bool" where
  "beat_ok late b \<longleftrightarrow>
     slip b \<le> late \<and> sorted (map fst (others b)) \<and> list_all (\<lambda>(d, f). d \<le> CLIENT_TICK + slip b) (others b)"

text \<open>
  The turns of the server's reader, which starts to wait at time \<open>now\<close>, for frames that are there
  at given times and are handled for given times: a turn is idle if its frame comes only after
  the timeout.
\<close>

fun turns_at :: "nat \<Rightarrow> (nat \<times> nat) list \<Rightarrow> serve_turn list" where
  "turns_at now [] = []"
| "turns_at now ((t, handling) # rest) =
     \<lparr>idle = now + READ_IDLE < t, pong_taken = True\<rparr> # turns_at (max now t + handling) rest"

text \<open>When the reader begins to wait for what comes after these frames.\<close>

fun waits_from :: "nat \<Rightarrow> (nat \<times> nat) list \<Rightarrow> nat" where
  "waits_from now [] = now"
| "waits_from now ((t, handling) # rest) = waits_from (max now t + handling) rest"

section \<open>Gaps\<close>

fun gaps_within :: "nat \<Rightarrow> nat \<Rightarrow> nat list \<Rightarrow> bool" where
  "gaps_within g t [] \<longleftrightarrow> True"
| "gaps_within g t (u # us) \<longleftrightarrow> t \<le> u \<and> u \<le> t + g \<and> gaps_within g u us"

lemma gaps_append: "gaps_within g t (us @ vs) \<longleftrightarrow> gaps_within g t us \<and> gaps_within g (last (t # us)) vs"
  by (induction us arbitrary: t) auto

lemma gaps_mono: "gaps_within g t us \<Longrightarrow> g \<le> g' \<Longrightarrow> gaps_within g' t us"
  by (induction us arbitrary: t) auto

lemma gaps_sorted_within:
  "sorted us \<Longrightarrow> \<forall>u \<in> set us. t \<le> u \<and> u \<le> t + g \<Longrightarrow> gaps_within g t us"
proof (induction us arbitrary: t)
  case (Cons u us)
  then have "gaps_within g u us" by (intro Cons.IH) fastforce+
  with Cons.prems show ?case by simp
qed simp

lemma beat_gaps:
  assumes "beat_ok late b"
  shows "gaps_within (CLIENT_TICK + late) t (t # t # map (\<lambda>(d, f). t + d) (others b))"
    and "t \<le> last (t # t # map (\<lambda>(d, f). t + d) (others b))"
    and "last (t # t # map (\<lambda>(d, f). t + d) (others b)) \<le> t + CLIENT_TICK + slip b"
proof -
  have eq: "map (\<lambda>(d, f). t + d) (others b) = map ((+) t) (map fst (others b))"
    by (simp add: comp_def case_prod_beta)
  from assms have "sorted (map ((+) t) (map fst (others b)))"
    by (simp add: beat_ok_def sorted_map)
  moreover from assms have "\<forall>u \<in> set (map ((+) t) (map fst (others b))). t \<le> u \<and> u \<le> t + CLIENT_TICK + slip b"
    by (auto simp: beat_ok_def list_all_iff)
  ultimately show "gaps_within (CLIENT_TICK + late) t (t # t # map (\<lambda>(d, f). t + d) (others b))"
    using gaps_sorted_within [of "map ((+) t) (map fst (others b))" t "CLIENT_TICK + slip b"]
      gaps_mono [of "CLIENT_TICK + slip b" t _ "CLIENT_TICK + late"] assms
    by (simp add: eq beat_ok_def add.assoc)
  show "t \<le> last (t # t # map (\<lambda>(d, f). t + d) (others b))"
    "last (t # t # map (\<lambda>(d, f). t + d) (others b)) \<le> t + CLIENT_TICK + slip b"
    using assms unfolding beat_ok_def list_all_iff
    by (cases "others b" rule: rev_cases; fastforce)+
qed

lemma sends_gaps:
  "list_all (beat_ok late) bs \<Longrightarrow> l \<le> t \<Longrightarrow> t \<le> l + CLIENT_TICK + late \<Longrightarrow>
     gaps_within (CLIENT_TICK + late) l (map fst (sends_from t bs))"
proof (induction bs arbitrary: t l)
  case (Cons b bs)
  from Cons.prems(1) have ok: "beat_ok late b" and late: "slip b \<le> late" by (simp_all add: beat_ok_def)
  have fst: "fst \<circ> (\<lambda>(d, f). (t + d, f)) = (\<lambda>(d, f :: frame). t + d)" by auto
  let ?here = "t # t # map (\<lambda>(d, f). t + d) (others b)"
  from beat_gaps [OF ok, of t] late
  have "gaps_within (CLIENT_TICK + late) (last ?here) (map fst (sends_from (t + CLIENT_TICK + slip b) bs))"
    using Cons.prems(1) by (intro Cons.IH) auto
  with beat_gaps(1) [OF ok, of t]
  have "gaps_within (CLIENT_TICK + late) t (?here @ map fst (sends_from (t + CLIENT_TICK + slip b) bs))"
    by (simp add: gaps_append)
  with Cons.prems(2,3) show ?case by (simp add: fst)
qed simp

section \<open>No turn is idle\<close>

text \<open>Each frame is there at most a latency after it was sent.\<close>

definition within_latency :: "nat \<Rightarrow> nat list \<Rightarrow> (nat \<times> nat) list \<Rightarrow> bool" where
  "within_latency lat sent deliveries \<longleftrightarrow>
     list_all2 (\<lambda>t (there, handling). t \<le> there \<and> there \<le> t + lat) sent deliveries"

lemma turns_taken:
  "within_latency lat sent deliveries \<Longrightarrow> gaps_within g l sent \<Longrightarrow> l \<le> now \<Longrightarrow> g + lat \<le> READ_IDLE \<Longrightarrow>
     turns_at now deliveries = replicate (length deliveries) taking_turn"
proof (induction deliveries arbitrary: now l sent)
  case (Cons d ds)
  obtain a h where d: "d = (a, h)" by force
  from Cons.prems(1) d obtain u us where
      u: "sent = u # us" "u \<le> a" "a \<le> u + lat" "within_latency lat us ds"
    by (auto simp: within_latency_def list_all2_Cons2)
  with Cons.prems(2) have "u \<le> l + g" "gaps_within g u us" by simp_all
  with Cons.IH [OF u(4), of u "max now a + h"] u(2) Cons.prems(4)
  have "turns_at (max now a + h) ds = replicate (length ds) taking_turn" by simp
  moreover have "\<not> now + READ_IDLE < a" using u(3) \<open>u \<le> l + g\<close> Cons.prems(3,4) by linarith
  ultimately show ?case by (simp add: d taking_turn_def)
qed simp

lemma turns_at_append: "turns_at now (ds @ es) = turns_at now ds @ turns_at (waits_from now ds) es"
  by (induction ds arbitrary: now) auto

lemma waits_from_bound:
  "waits_from now ds \<le> max now (Max (insert 0 (set (map fst ds)))) + sum_list (map snd ds)"
proof (induction ds arbitrary: now)
  case (Cons d ds)
  obtain a h where d: "d = (a, h)" by force
  have fin: "finite (insert 0 (set (map fst ds)))" by simp
  have m: "Max (insert 0 (set (map fst (d # ds)))) = max a (Max (insert 0 (set (map fst ds))))"
    by (cases "ds = []") (simp_all add: d)
  from Cons [of "max now a + h"] show ?case unfolding m by (simp add: d)
qed simp

lemma server_reader_then:
  "in_sync sl op \<Longrightarrow> list_all well_formed fs \<Longrightarrow> traverse frame_wire sl fs = (sl', Inr cs) \<Longrightarrow>
     \<exists>op'. in_sync sl' op' \<and>
       server_reader (concat cs @ rest) op s (replicate (length fs) taking_turn @ ts) =
         server_reader rest op' (fold on_frame fs s) ts"
proof (induction fs arbitrary: sl op cs s)
  case (Cons f fs)
  from Cons.prems(3) obtain s1 c cs' where
      1: "frame_wire sl f = (s1, Inr c)" and 2: "traverse frame_wire s1 fs = (sl', Inr cs')"
    and cs: "cs = c # cs'"
    by (auto split: prod.splits sum.splits)
  from Cons.prems(2) have ok: "well_formed f" "list_all well_formed fs" by auto
  from frame_stream.put_get [OF Cons.prems(1) ok(1) 1] obtain op1 where
      "in_sync s1 op1" "read_frame (c @ concat cs' @ rest) op = ((concat cs' @ rest, op1), Inr f)" by blast
  with Cons.IH [OF _ ok(2) 2] cs show ?case
    by (cases f) (simp_all add: taking_turn_def)
qed auto

section \<open>The beats are what the client's writer sends\<close>

fun typed_frame :: "frame \<Rightarrow> bool" where
  "typed_frame (Data bs) \<longleftrightarrow> bs \<noteq> [] \<and> DETACH_PREFIX \<notin> set bs"
| "typed_frame (Resize c r) \<longleftrightarrow> True"
| "typed_frame Pong \<longleftrightarrow> True"
| "typed_frame _ \<longleftrightarrow> False"

fun event_of :: "frame \<Rightarrow> writer_event" where
  "event_of (Data bs) = Keys (Some bs)"
| "event_of (Resize c r) = WindowChange (Some (c, r))"
| "event_of _ = PongWanted True"

definition beat_events :: "beat list \<Rightarrow> writer_event list" where
  "beat_events bs = concat (map (\<lambda>b. Tick (committed b) # map event_of (map snd (others b))) bs)"

lemma scan_plain: "DETACH_PREFIX \<notin> set bs \<Longrightarrow> scan_keys False out bs = Some (False, out @ bs)"
  by (induction bs arbitrary: out) auto

lemma writer_frames:
  "list_all typed_frame fs \<Longrightarrow>
     client_writer log_frame gs False (map event_of fs @ evs) = client_writer log_frame (gs @ fs) False evs"
proof (induction fs arbitrary: gs)
  case (Cons f fs)
  then show ?case by (cases f) (auto simp: scan_plain)
qed simp

lemma writer_sends_beats:
  "list_all (\<lambda>b. list_all typed_frame (map snd (others b))) bs \<Longrightarrow>
     client_writer log_frame gs False (beat_events bs) = (gs @ map snd (sends_from t bs), None)"
proof (induction bs arbitrary: gs t)
  case (Cons b bs)
  let ?fs = "map snd (others b)" and ?gs = "gs @ [Ack (committed b), Ping]"
  have fs: "snd \<circ> (\<lambda>(d, f). (t + d, f)) = (snd :: nat \<times> frame \<Rightarrow> frame)" by auto
  have "client_writer log_frame gs False (beat_events (b # bs)) =
      client_writer log_frame ?gs False (map event_of ?fs @ beat_events bs)"
    by (simp add: beat_events_def log_frame_fold)
  also have "\<dots> = client_writer log_frame (?gs @ ?fs) False (beat_events bs)"
    using Cons.prems by (intro writer_frames) simp
  also have "\<dots> = ((?gs @ ?fs) @ map snd (sends_from (t + CLIENT_TICK + slip b) bs), None)"
    using Cons.prems by (intro Cons.IH) simp
  finally show ?case by (simp add: fs log_frame_fold)
qed (simp add: beat_events_def)

section \<open>Properties\<close>

text \<open>C33. The heartbeat outlasts the timeout. As long as the client's writer ticks, takes each tick at most
  \<open>late\<close> late and its frames are on their way for at most \<open>lat\<close>, and the two leave room in the
  17 seconds between tick and timeout, the server's reader never finds the connection idle,
  however long it handles a frame: it handles every frame sent, in order.\<close>

theorem heartbeat_keeps_connection:
  assumes "CLIENT_TICK + late + lat \<le> READ_IDLE" and "list_all (beat_ok late) beats"
    and "t \<le> now + CLIENT_TICK + late" and "within_latency lat (map fst (sends_from t beats)) deliveries"
    and "in_sync sl op" and "list_all well_formed (map snd (sends_from t beats))"
    and "traverse frame_wire sl (map snd (sends_from t beats)) = (sl', Inr cs)"
  shows "server_reader (concat cs) op s (turns_at now deliveries) =
           (fold on_frame (map snd (sends_from t beats)) s, False)"
proof -
  have "gaps_within (CLIENT_TICK + late) (min now t) (map fst (sends_from t beats))"
    using assms(3) by (intro sends_gaps [OF assms(2)]) auto
  from turns_taken [OF assms(4) this _ assms(1)]
  have "turns_at now deliveries = replicate (length deliveries) taking_turn" by simp
  moreover have "length deliveries = length (map snd (sends_from t beats))"
    using assms(4) by (auto simp: within_latency_def dest: list_all2_lengthD)
  ultimately show ?thesis using server_reader_run [OF assms(5-7)] by simp
qed

text \<open>A peer that falls silent is dropped. If after the frames of the beats nothing more is there in
  time, whatever may come later, the reader has handled those frames and returns, when the
  timeout has passed since it last began to wait; that is no later than the timeout after the
  last frame was there, plus the time spent on handling.\<close>

theorem silent_peer_dropped:
  assumes "CLIENT_TICK + late + lat \<le> READ_IDLE" and "list_all (beat_ok late) beats"
    and "t \<le> now + CLIENT_TICK + late" and "within_latency lat (map fst (sends_from t beats)) deliveries"
    and "in_sync sl op" and "list_all well_formed (map snd (sends_from t beats))"
    and "traverse frame_wire sl (map snd (sends_from t beats)) = (sl', Inr cs)"
    and "waits_from now deliveries + READ_IDLE < there"
  shows "server_reader (concat cs @ later) op s (turns_at now (deliveries @ (there, handling) # next_ones)) =
           (fold on_frame (map snd (sends_from t beats)) s, True) \<and>
         waits_from now deliveries + READ_IDLE \<le>
           max now (Max (insert 0 (set (map fst deliveries)))) + sum_list (map snd deliveries) + READ_IDLE"
proof
  have "gaps_within (CLIENT_TICK + late) (min now t) (map fst (sends_from t beats))"
    using assms(3) by (intro sends_gaps [OF assms(2)]) auto
  from turns_taken [OF assms(4) this _ assms(1)]
  have turns: "turns_at now deliveries = replicate (length deliveries) taking_turn" by simp
  have len: "length deliveries = length (map snd (sends_from t beats))"
    using assms(4) by (auto simp: within_latency_def dest: list_all2_lengthD)
  from server_reader_then [OF assms(5-7)] obtain op' where
      "server_reader (concat cs @ later) op s
         (replicate (length deliveries) taking_turn @ turns_at (waits_from now deliveries) ((there, handling) # next_ones)) =
       server_reader later op' (fold on_frame (map snd (sends_from t beats)) s)
         (turns_at (waits_from now deliveries) ((there, handling) # next_ones))"
    unfolding len by blast
  with assms(8) show "server_reader (concat cs @ later) op s (turns_at now (deliveries @ (there, handling) # next_ones)) =
      (fold on_frame (map snd (sends_from t beats)) s, True)"
    unfolding turns_at_append turns by simp
  show "waits_from now deliveries + READ_IDLE \<le>
      max now (Max (insert 0 (set (map fst deliveries)))) + sum_list (map snd deliveries) + READ_IDLE"
    using waits_from_bound by simp
qed

text \<open>Two beats, a key half a second after the first tick, a latency of a second.\<close>

definition two_beats :: "beat list" where
  "two_beats = [\<lparr>committed = 0, others = [(500, Data [104])], slip = 10\<rparr>, \<lparr>committed = 5, others = [], slip = 0\<rparr>]"

lemma two_beats_sent:
  "sends_from 0 two_beats =
     [(0, Ack 0), (0, Ping), (500, Data [104]), (3010, Ack 5), (3010, Ping)]"
  by (simp add: two_beats_def CLIENT_TICK_def)

lemma two_beats_facts:
  "CLIENT_TICK + 10 + 1000 \<le> READ_IDLE" "list_all (beat_ok 10) two_beats" "(0::nat) \<le> 0 + CLIENT_TICK + 10"
  "within_latency 1000 (map fst (sends_from 0 two_beats)) [(900, 0), (900, 7), (1000, 0), (3500, 0), (3500, 0)]"
  "list_all well_formed (map snd (sends_from 0 two_beats))"
  unfolding two_beats_sent
  by (simp_all add: within_latency_def two_beats_def beat_ok_def CLIENT_TICK_def READ_IDLE_def)

lemma two_beats_wire:
  "\<exists>sl' cs. traverse frame_wire (new_sealer (\<lambda>_. tag_cipher) [] 0) (map snd (sends_from 0 two_beats)) = (sl', Inr cs)"
  unfolding two_beats_sent
  by (simp add: frame_wire_def write_frame_reliable [OF reliable_open_sink(1)]
      seal_def new_sealer_def tag_cipher_def checked_add_def MAX_RECORD_def)

theorem heartbeat_keeps_connection_witness:
  "\<exists>cs. server_reader (concat cs) (new_opener (\<lambda>_. tag_cipher) [] 0) (new_session [] [] 80 24 0 0 [])
     (turns_at 0 [(900, 0), (900, 7), (1000, 0), (3500, 0), (3500, 0)]) =
       (send_input (new_session [] [] 80 24 0 0 []) [104], False)"
proof -
  obtain sl' cs where
      wire: "traverse frame_wire (new_sealer (\<lambda>_. tag_cipher) [] 0) (map snd (sends_from 0 two_beats)) = (sl', Inr cs)"
    using two_beats_wire by blast
  have sync: "in_sync (new_sealer (\<lambda>_. tag_cipher) [] 0) (new_opener (\<lambda>_. tag_cipher) [] 0)"
    by (rule new_ends_in_sync) (rule tag_cipher_ok)
  from heartbeat_keeps_connection [OF two_beats_facts(1-4) sync two_beats_facts(5) wire]
  show ?thesis by (intro exI [of _ cs]) (simp add: two_beats_sent)
qed

theorem silent_peer_dropped_witness:
  "\<exists>cs. server_reader (concat cs @ []) (new_opener (\<lambda>_. tag_cipher) [] 0) (new_session [] [] 80 24 0 0 [])
     (turns_at 0 ([(900, 0), (900, 7), (1000, 0), (3500, 0), (3500, 0)] @ (23501, 0) # [])) =
       (send_input (new_session [] [] 80 24 0 0 []) [104], True)"
proof -
  obtain sl' cs where
      wire: "traverse frame_wire (new_sealer (\<lambda>_. tag_cipher) [] 0) (map snd (sends_from 0 two_beats)) = (sl', Inr cs)"
    using two_beats_wire by blast
  have sync: "in_sync (new_sealer (\<lambda>_. tag_cipher) [] 0) (new_opener (\<lambda>_. tag_cipher) [] 0)"
    by (rule new_ends_in_sync) (rule tag_cipher_ok)
  have "waits_from 0 [(900, 0), (900, 7), (1000, 0), (3500, 0), (3500, 0)] + READ_IDLE < 23501"
    by (simp add: READ_IDLE_def)
  from silent_peer_dropped [OF two_beats_facts(1-4) sync two_beats_facts(5) wire this, of "[]" _ 0 "[]"]
  show ?thesis by (intro exI [of _ cs]) (simp add: two_beats_sent)
qed

end
