(* ===== verification/Unit_Tests.thy ===== *)
theory Unit_Tests
  imports Command_Line Delivery "HOL-Library.Sublist"
begin

text \<open>
  The program's own unit tests, run on the model. Each test of the inline test modules that
  does not need a real PTY, socket or parser is translated into a predicate, assertion by
  assertion, and shown to hold. What a test takes from its environment (a cipher, a TOML
  parser, the operating system's answers) is an argument, with what the test expects of it as
  hypothesis. A test that held in the code and not here would show a definition unfaithful.
\<close>

section \<open>The ring buffer (server/session.rs)\<close>

definition ring_after :: "nat \<Rightarrow> bytes list \<Rightarrow> ring" where
  "ring_after cap chunks = foldl ring_append (ring_new cap) chunks"

definition query_and_prompt :: bytes where
  "query_and_prompt = [0x1B] @ as_bytes '']10;?'' @ [0x07] @ as_bytes ''prompt> ''"

definition eviction_returns_absolute_start_and_reconnect_stays_caught_up :: bool where
  "eviction_returns_absolute_start_and_reconnect_stays_caught_up \<longleftrightarrow>
     (let ring = ring_after 32 [replicate 100 0x78, query_and_prompt] in
      case ring_read_from ring 0 of (offset, bs) \<Rightarrow>
        offset = ring_total ring - 32 \<and> length bs = 32 \<and>
        (let cursor = offset + word_of_nat (length bs) in
         list_all (\<lambda>i. ring_read_from ring cursor = (cursor, [])) [0..<3] \<and>
         (let ring = ring_append ring (as_bytes ''next'') in
          case ring_read_from ring cursor of (offset, bs) \<Rightarrow>
            offset = cursor \<and> bs = as_bytes ''next'' \<and>
            offset + word_of_nat (length bs) = ring_total ring)))"

definition output_is_chunked_and_later_eviction_reports_another_gap :: bool where
  "output_is_chunked_and_later_eviction_reports_another_gap \<longleftrightarrow>
     (let ring = ring_after (MAX_OUTPUT_BYTES * 3) [replicate (MAX_OUTPUT_BYTES * 3) 0x61] in
      case ring_read_from ring 0 of (offset, bs) \<Rightarrow>
        offset = 0 \<and> length bs = MAX_OUTPUT_BYTES \<and>
        (let cursor = offset + word_of_nat (length bs);
             ring = ring_append ring (replicate (MAX_OUTPUT_BYTES * 2) 0x62) in
         case ring_read_from ring cursor of (offset, bs) \<Rightarrow>
           offset = word_of_nat (MAX_OUTPUT_BYTES * 2) \<and> length bs = MAX_OUTPUT_BYTES))"

definition zero_capacity_still_reports_absolute_position :: bool where
  "zero_capacity_still_reports_absolute_position \<longleftrightarrow>
     (let ring = ring_after 0 [as_bytes ''missing''] in
      ring_read_from ring 0 = (7, []) \<and> ring_read_from ring 7 = (7, []))"

lemma ring_rep_after:
  "length (concat chunks) < 2 ^ 64 \<Longrightarrow> ring_rep (ring_after cap chunks) (concat chunks) \<and> r_cap (ring_after cap chunks) = cap"
proof (induction chunks rule: rev_induct)
  case Nil
  show ?case using ring_rep_new [of cap] by (simp add: ring_after_def ring_new_def)
next
  case (snoc c chunks)
  from snoc.prems have "length (concat chunks) < 2 ^ 64" by simp
  with snoc.IH ring_rep_append [of "ring_after cap chunks" "concat chunks" c] snoc.prems show ?case
    by (simp add: ring_after_def)
qed

lemma ring_after_append: "ring_append (ring_after cap chunks) c = ring_after cap (chunks @ [c])"
  by (simp add: ring_after_def)

lemma read_after:
  "length (concat chunks) < 2 ^ 64 \<Longrightarrow>
   ring_read_from (ring_after cap chunks) off =
     (if length (concat chunks) \<le> unat off then (word_of_nat (length (concat chunks)), [])
      else (max off (word_of_nat (length (concat chunks) - cap)),
            take MAX_OUTPUT_BYTES (drop (max (unat off) (length (concat chunks) - cap)) (concat chunks))))"
proof -
  assume len: "length (concat chunks) < 2 ^ 64"
  let ?r = "ring_after cap chunks"
  from ring_rep_after [OF len] have rep: "ring_rep ?r (concat chunks)" and cap: "r_cap ?r = cap" by blast+
  then have "unat (r_start ?r) = length (concat chunks) - cap" by (simp add: ring_rep_def)
  then have "r_start ?r = word_of_nat (length (concat chunks) - cap)" by (metis of_nat_unat ucast_id)
  with ring_rep_read [OF rep, of off] cap show ?thesis by simp
qed

lemma total_after:
  assumes "length (concat chunks) < 2 ^ 64"
  shows "ring_total (ring_after cap chunks) = word_of_nat (length (concat chunks))"
proof -
  from ring_rep_total ring_rep_after [OF assms] have
    "unat (ring_total (ring_after cap chunks)) = length (concat chunks)" by blast
  then show ?thesis by (metis of_nat_unat ucast_id)
qed

lemma ring_tests:
  "eviction_returns_absolute_start_and_reconnect_stays_caught_up"
  "output_is_chunked_and_later_eviction_reports_another_gap"
  "zero_capacity_still_reports_absolute_position"
proof -
  note rd = ring_after_append read_after total_after Let_def
  show "eviction_returns_absolute_start_and_reconnect_stays_caught_up"
    by (simp add: eviction_returns_absolute_start_and_reconnect_stays_caught_up_def rd query_and_prompt_def
        MAX_OUTPUT_BYTES_def upt_conv_Cons)
  show "output_is_chunked_and_later_eviction_reports_another_gap"
    by (simp add: output_is_chunked_and_later_eviction_reports_another_gap_def rd MAX_OUTPUT_BYTES_def)
  show "zero_capacity_still_reports_absolute_position"
    by (simp add: zero_capacity_still_reports_absolute_position_def rd)
qed

section \<open>Frames (proto/frame.rs)\<close>

fun is_err :: "'e + 'a \<Rightarrow> bool" where
  "is_err (Inl e) \<longleftrightarrow> True"
| "is_err (Inr x) \<longleftrightarrow> False"

text \<open>The two \<open>write_frame\<close> into a growing vector, then the two \<open>read_frame\<close> of what it holds.\<close>

definition output_offsets_survive_encrypted_framing :: "(bytes \<Rightarrow> cipher) \<Rightarrow> bool" where
  "output_offsets_survive_encrypted_framing mk \<longleftrightarrow>
     (let key = replicate 32 42; query = [0x1B] @ as_bytes '']10;?'' @ [0x07];
          sealer = new_sealer mk key DIR_SERVER_TO_CLIENT; opener = new_opener mk key DIR_SERVER_TO_CLIENT in
      case write_frame open_sink sealer (Output 123456 query) of
        ((wire, sealer), Inr u) \<Rightarrow>
          (case write_frame wire sealer (Output 999999 []) of
             ((wire, sealer), Inr u) \<Rightarrow>
               (case read_frame (written wire) opener of
                  ((wire, opener), first) \<Rightarrow>
                    first = Inr (Output 123456 query) \<and>
                    snd (read_frame wire opener) = Inr (Output 999999 []))
           | _ \<Rightarrow> False)
      | _ \<Rightarrow> False)"

definition invalid_output_lengths_and_offsets_are_rejected :: bool where
  "invalid_output_lengths_and_offsets_are_rejected \<longleftrightarrow>
     list_all (\<lambda>len. is_err (decode ([T_OUTPUT] @ replicate len 0))) [0..<8] \<and>
     list_all (\<lambda>(offset, len). is_err (decode (encode (Output offset (replicate len 0)))))
       [(0, MAX_OUTPUT_BYTES + 1), (- 1, 1)] \<and>
     \<not> is_err (decode (encode (Output 0 (replicate MAX_OUTPUT_BYTES 0))))"

lemma frame_tests:
  assumes "\<And>k. cipher_ok (mk k)" and "\<And>k. encrypts (mk k)"
  shows "output_offsets_survive_encrypted_framing mk" "invalid_output_lengths_and_offsets_are_rejected"
proof -
  let ?k = "replicate 32 42 :: bytes" and ?q = "[0x1B] @ as_bytes '']10;?'' @ [0x07]"
  let ?s = "new_sealer mk ?k DIR_SERVER_TO_CLIENT" and ?r = "new_opener mk ?k DIR_SERVER_TO_CLIENT"
  have f: "sendable (Output 123456 ?q)" "sendable (Output 999999 [])"
    "well_formed (Output 123456 ?q)" "well_formed (Output 999999 [])"
    by (simp_all add: sendable_def MAX_RECORD_def MAX_OUTPUT_BYTES_def)
  obtain c1 where c1: "frame_wire ?s (Output 123456 ?q) = (?s\<lparr>s_counter := 1\<rparr>, Inr c1)"
    using frame_wire_succeeds [of ?s, OF _ _ _ f(1)] assms by (auto simp: new_sealer_def)
  obtain c2 s2 where c2: "frame_wire (?s\<lparr>s_counter := 1\<rparr>) (Output 999999 []) = (s2, Inr c2)"
    using frame_wire_succeeds [of "?s\<lparr>s_counter := 1\<rparr>", OF _ _ _ f(2)] assms by (auto simp: new_sealer_def)
  have "in_sync ?s ?r" by (rule new_ends_in_sync) (rule assms(1))
  from frame_stream.put_get [OF this f(3) c1] obtain r1 where
      r1: "in_sync (?s\<lparr>s_counter := 1\<rparr>) r1" "read_frame (c1 @ c2) ?r = ((c2, r1), Inr (Output 123456 ?q))" by blast
  from frame_stream.put_get [OF this(1) f(4) c2] obtain r2 where
      r2: "\<forall>rest. read_frame (c2 @ rest) r1 = ((rest, r2), Inr (Output 999999 []))" by blast
  from r2 [rule_format, of "[]"] have "read_frame c2 r1 = (([], r2), Inr (Output 999999 []))" by simp
  with r1(2) write_frame_wire [OF c1 reliable_open_sink(1)]
    write_frame_wire [OF c2, of "open_sink\<lparr>written := c1\<rparr>"]
  show "output_offsets_survive_encrypted_framing mk"
    by (simp add: output_offsets_survive_encrypted_framing_def Let_def)
next
  have short: "decode (T_OUTPUT # replicate len 0) = Inl BadOutputLength" if "len < 8" for len
    using that by (simp add: type_bytes decode_output_def)
  have whole: "decode (encode (Output offset (replicate len 0))) =
      (if len > MAX_OUTPUT_BYTES then Inl BadOutputLength
       else if 2 ^ 64 \<le> unat offset + len then Inl OutputOffsetOverflow
       else Inr (Output offset (replicate len 0)))" for offset len
    by (simp add: type_bytes decode_output_encoded)
  have "unat (- 1 :: u64) = 2 ^ 64 - 1" by (simp add: unsigned_minus_1_eq_mask mask_eq_exp_minus_1)
  with short show "invalid_output_lengths_and_offsets_are_rejected"
    unfolding invalid_output_lengths_and_offsets_are_rejected_def whole
    by (simp add: list_all_iff MAX_OUTPUT_BYTES_def del: replicate.simps encode.simps decode.simps)
qed

section \<open>Configuration (config.rs)\<close>

definition quoted :: "string \<Rightarrow> string" where
  "quoted s = [CHR 0x27] @ s @ [CHR 0x27]"

definition sample_toml :: string where
  "sample_toml =
     ''ssh_target = '' @ quoted ''old-host'' @ newline @ ''tcp_host = '' @ quoted ''old-ip'' @ newline @
     ''port = 62000'' @ newline"

definition fixed_port_config_and_client_precedence :: "(string \<Rightarrow> error + config) \<Rightarrow> bool" where
  "fixed_port_config_and_client_precedence toml \<longleftrightarrow>
     (case toml sample_toml of
        Inl e \<Rightarrow> False
      | Inr cfg \<Rightarrow>
          (let changed_target = with_client_overrides cfg (Some ''new-host'') None;
               overridden = with_client_overrides cfg None (Some 62001) in
           ssh_target changed_target = Some ''new-host'' \<and> tcp_host changed_target = None \<and>
           port changed_target = Some 62000 \<and> port overridden = Some 62001 \<and>
           (case toml [] of
              Inl e \<Rightarrow> False
            | Inr defaults \<Rightarrow> port defaults = None \<and> port_range defaults = (60000, 61000))))"

lemma config_test:
  assumes "toml sample_toml =
      Inr (default_config\<lparr>ssh_target := Some ''old-host'', tcp_host := Some ''old-ip'', port := Some 62000\<rparr>)"
    and "toml [] = Inr default_config"
  shows "fixed_port_config_and_client_precedence toml"
  using assms
  by (simp add: fixed_port_config_and_client_precedence_def with_client_overrides_def default_config_def
      default_port_range_def Let_def)

section \<open>Port binding (server/daemon.rs)\<close>

definition fails_with :: "string \<Rightarrow> error + 'a \<Rightarrow> bool" where
  "fails_with part res = (case res of Inl (Failure m) \<Rightarrow> sublist part m | _ \<Rightarrow> False)"

definition occupied_fixed_port_never_falls_back_to_range :: "u16 \<Rightarrow> (u16 \<Rightarrow> bool) \<Rightarrow> bool" where
  "occupied_fixed_port_never_falls_back_to_range occupied can_bind \<longleftrightarrow>
     fails_with (''bind TCP port '' @ dec_string (unat occupied))
       (bind_tcp can_bind (default_config\<lparr>port := Some occupied\<rparr>))"

definition invalid_ranges_are_rejected :: "(u16 \<Rightarrow> bool) \<Rightarrow> bool" where
  "invalid_ranges_are_rejected can_bind \<longleftrightarrow>
     list_all (\<lambda>range. fails_with ''invalid TCP port range'' (bind_tcp_in_range can_bind range))
       [(0, 0), (0, 60000), (61000, 60000)]"

lemma port_tests:
  assumes "\<not> can_bind occupied"
  shows "occupied_fixed_port_never_falls_back_to_range occupied can_bind" "invalid_ranges_are_rejected can_bind"
proof -
  show "occupied_fixed_port_never_falls_back_to_range occupied can_bind"
    using assms by (simp add: occupied_fixed_port_never_falls_back_to_range_def fails_with_def bind_tcp_def)
  have "sublist ''invalid TCP port range'' (invalid_range_message lo hi)" for lo hi
    unfolding invalid_range_message_def sublist_def
    by (intro exI [of _ "[]"] exI [of _ "'' '' @ dec_string (unat lo) @ ''-'' @ dec_string (unat hi) @
          ''; expected 1 <= low <= high <= 65535''"]) simp
  then show "invalid_ranges_are_rejected can_bind"
    by (simp add: invalid_ranges_are_rejected_def fails_with_def bind_tcp_in_range_def)
qed

section \<open>Control requests (server/daemon.rs)\<close>

text \<open>A loop of a test: requests executed one after the other, each with its assertions.\<close>

primrec each_request ::
  "(server \<Rightarrow> control_request \<Rightarrow> (server \<times> control_response) option) \<Rightarrow>
     (server \<Rightarrow> control_response \<Rightarrow> bool) \<Rightarrow> control_request list \<Rightarrow> server \<Rightarrow> server option" where
  "each_request exec holds [] sv = Some sv"
| "each_request exec holds (req # reqs) sv =
     (case exec sv req of
        None \<Rightarrow> None
      | Some (sv', resp) \<Rightarrow> if holds sv' resp then each_request exec holds reqs sv' else None)"

fun err_says :: "string list \<Rightarrow> control_response \<Rightarrow> bool" where
  "err_says parts (ErrResponse m) \<longleftrightarrow> list_all (\<lambda>part. sublist part m) parts"
| "err_says parts _ \<longleftrightarrow> False"

definition unchanged :: "nat \<Rightarrow> bytes \<Rightarrow> (session \<Rightarrow> bool) \<Rightarrow> string list \<Rightarrow> server \<Rightarrow> bool" where
  "unchanged a key holds order sv \<longleftrightarrow>
     length (reg_list order sv) = 1 \<and>
     (case store sv a of None \<Rightarrow> False | Some s \<Rightarrow> current_psk s = key \<and> holds s)"

text \<open>
  The environment answers the spawn of the test's session with \<open>env\<close> and the later requests
  with \<open>env'\<close>; the registry has one key.
\<close>

definition wrong_port_preserves_sessions_and_keys ::
  "(bytes \<Rightarrow> string) \<Rightarrow> daemon_env \<Rightarrow> daemon_env \<Rightarrow> bool" where
  "wrong_port_preserves_sessions_and_keys hx env env' \<longleftrightarrow>
     (let cfg = default_config; exec = execute_control hx (ring_bytes cfg) 62000 env' in
      case spawn_session env ''port-test'' ''/bin/sh'' 80 24 (ring_bytes cfg) empty_server of
        (sv, Inl e) \<Rightarrow> False
      | (sv, Inr (a, shell)) \<Rightarrow>
          (case store sv a of
             None \<Rightarrow> False
           | Some s \<Rightarrow>
               let key = current_psk s in
               (case each_request exec
                       (\<lambda>sv resp. err_says [''62000'', ''62001''] resp \<and>
                          unchanged a key (\<lambda>s. \<not> is_ended s) [''port-test''] sv)
                       (map (OnPort 62001) [Create 80 24, Attach (ident s), Ls, Kill (ident s)]) sv of
                  None \<Rightarrow> False
                | Some sv \<Rightarrow>
                    (case exec sv (OnPort 62000 (OnProtocol VERSION (Attach (ident s)))) of
                       Some (sv, Bootstrap p sid hexkey) \<Rightarrow>
                         p = 62000 \<and> map_option current_psk (store sv a) \<noteq> Some key \<and>
                         (case exec sv Ls of
                            Some (sv, LsResponse sessions) \<Rightarrow> length sessions = 1
                          | _ \<Rightarrow> False)
                     | _ \<Rightarrow> False))))"

definition protocol_rejection_preserves_sessions_and_keys ::
  "(bytes \<Rightarrow> string) \<Rightarrow> daemon_env \<Rightarrow> daemon_env \<Rightarrow> bool" where
  "protocol_rejection_preserves_sessions_and_keys hx env env' \<longleftrightarrow>
     (let cfg = default_config in
      case spawn_session env ''protocol'' ''/bin/sh'' 80 24 128 empty_server of
        (sv, Inl e) \<Rightarrow> False
      | (sv, Inr (a, shell)) \<Rightarrow>
          (case store sv a of
             None \<Rightarrow> False
           | Some s \<Rightarrow>
               let key = current_psk s;
                   wrapped = (\<lambda>version request.
                     case version of
                       None \<Rightarrow> request
                     | Some v \<Rightarrow> OnProtocol VERSION (OnProtocol v request)) in
               each_request (execute_control hx (ring_bytes cfg) 62000 env')
                 (\<lambda>sv resp. err_says [''protocol version mismatch''] resp \<and>
                    unchanged a key (\<lambda>s. \<not> is_busy s) [''protocol''] sv)
                 (concat (map (\<lambda>version. map (wrapped version) [Create 80 24, Attach (ident s)])
                    [None, Some 1, Some (VERSION + 1)])) sv \<noteq> None))"

text \<open>What the tests need of the daemon: a rejected request, and where its message has the parts.\<close>

lemma wrong_port_rejected:
  "execute_control hx n 62000 env sv (OnPort 62001 req) =
     Some (sv, ErrResponse (wrong_port_message 62000 62001))"
  by (simp add: execute_control_def)

lemma decimal_ports: "dec_string 62000 = ''62000''" "dec_string 62001 = ''62001''"
  by (simp_all add: dec_string.simps dec_digit_def char_of_def bit_0)

lemma err_says_both: "err_says [''62000'', ''62001''] (ErrResponse (wrong_port_message 62000 62001))"
proof -
  have "sublist p (a @ p @ b)" for a p b :: string by (auto simp: sublist_def)
  from this [of "''62000''" "''daemon is listening on TCP port ''"] this [of "''62001''"
      "''daemon is listening on TCP port '' @ ''62000'' @ '', but TCP port ''"]
  show ?thesis by (simp add: wrong_port_message_def decimal_ports del: append_Cons)
qed

lemma one_row: "registry sv sid = Some a \<Longrightarrow> store sv a \<noteq> None \<Longrightarrow> length (reg_list [sid] sv) = 1"
  by (auto simp: reg_list_def List.map_filter_def)

lemma spawned_alone:
  assumes "spawn_error env = None"
  shows "\<exists>sv s. spawn_session env sid shell c r n empty_server = (sv, Inr (0, shell_command_for env shell)) \<and>
           store sv 0 = Some s \<and> ident s = sid \<and> psk s = fresh_key env \<and> \<not> ended s \<and> \<not> connected s \<and>
           registry sv sid = Some 0"
  using assms
  by (simp add: spawn_session_eq alloc_def reg_insert_def empty_server_def new_session_def)

lemma each_request_rejected:
  assumes "\<And>req. req \<in> set reqs \<Longrightarrow> \<exists>resp. exec sv req = Some (sv, resp) \<and> holds sv resp"
  shows "each_request exec holds reqs sv = Some sv"
  using assms by (induction reqs) (simp, fastforce)

lemma in_both_loops: "x \<in> set (concat (map (\<lambda>v. map (f v) rs) vs)) \<Longrightarrow> \<exists>v \<in> set vs. \<exists>r \<in> set rs. x = f v r"
  by auto

lemma wrong_port_test:
  assumes "spawn_error env = None" and "fresh_key env' \<noteq> fresh_key env" and "key_order env' = [''port-test'']"
  shows "wrong_port_preserves_sessions_and_keys hx env env'"
proof -
  let ?n = "ring_bytes default_config" and ?id = "''port-test''"
  obtain sv s where sp: "spawn_session env ?id ''/bin/sh'' 80 24 ?n empty_server = (sv, Inr (0, shell_command_for env ''/bin/sh''))"
    and s: "store sv 0 = Some s" "ident s = ?id" "psk s = fresh_key env" "\<not> ended s" "\<not> connected s"
    and reg: "registry sv ?id = Some 0"
    using spawned_alone [OF assms(1)] by blast
  have row: "length (reg_list [?id] sv) = 1" by (rule one_row [OF reg]) (simp add: s(1))
  have un: "unchanged 0 (current_psk s) (\<lambda>s. \<not> is_ended s) [?id] sv"
    using row s by (simp add: unchanged_def is_ended_def)
  have loop: "each_request (execute_control hx ?n 62000 env')
      (\<lambda>sv resp. err_says [''62000'', ''62001''] resp \<and> unchanged 0 (current_psk s) (\<lambda>s. \<not> is_ended s) [?id] sv)
      (map (OnPort 62001) [Create 80 24, Attach (ident s), Ls, Kill (ident s)]) sv = Some sv"
    by (rule each_request_rejected) (auto simp: wrong_port_rejected err_says_both un simp del: err_says.simps)
  let ?sv = "on_session 0 (\<lambda>_. s\<lparr>psk := fresh_key env'\<rparr>) sv"
  have attach: "execute_control hx ?n 62000 env' sv (OnPort 62000 (OnProtocol VERSION (Attach (ident s)))) =
      Some (?sv, Bootstrap 62000 ?id (hx (fresh_key env')))"
    using s reg by (simp add: execute_control_def do_attach_def reg_get_def is_ended_def is_busy_def rotate_psk_def)
  have ls: "execute_control hx ?n 62000 env' ?sv Ls = Some (?sv, LsResponse (reg_list [?id] ?sv))"
    by (simp add: execute_control_def assms(3))
  have "length (reg_list [?id] ?sv) = 1" by (rule one_row [of _ _ 0]) (simp_all add: reg s(1))
  with sp s(1) loop attach ls assms(2) s(3) show ?thesis
    by (simp add: wrong_port_preserves_sessions_and_keys_def Let_def current_psk_def del: each_request.simps list.map)
qed

lemma protocol_test:
  assumes "spawn_error env = None"
  shows "protocol_rejection_preserves_sessions_and_keys hx env env'"
proof -
  let ?n = "ring_bytes default_config" and ?id = "''protocol''"
  obtain sv s where sp: "spawn_session env ?id ''/bin/sh'' 80 24 128 empty_server = (sv, Inr (0, shell_command_for env ''/bin/sh''))"
    and s: "store sv 0 = Some s" "ident s = ?id" "psk s = fresh_key env" "\<not> ended s" "\<not> connected s"
    and reg: "registry sv ?id = Some 0"
    using spawned_alone [OF assms(1)] by blast
  have un: "unchanged 0 (current_psk s) (\<lambda>s. \<not> is_busy s) [?id] sv"
    using one_row [OF reg] s by (simp add: unchanged_def is_busy_def)
  have says: "err_says [''protocol version mismatch''] version_mismatch"
    by (auto simp: version_mismatch_def sublist_def intro: exI [of _ "''terminal ''"])
  have v: "(1::u8) \<noteq> VERSION" "VERSION + 1 \<noteq> VERSION" by (simp_all add: VERSION_def)
  let ?wrap = "\<lambda>version request. case version of None \<Rightarrow> request | Some v \<Rightarrow> OnProtocol VERSION (OnProtocol v request)"
  have rej: "execute_control hx ?n 62000 env' sv (?wrap version request) = Some (sv, version_mismatch)"
    if "version \<in> {None, Some 1, Some (VERSION + 1)}" "needs_protocol request" for version request
    using that v by (cases request) (auto simp: execute_control_def)
  have "each_request (execute_control hx ?n 62000 env')
      (\<lambda>sv resp. err_says [''protocol version mismatch''] resp \<and> unchanged 0 (current_psk s) (\<lambda>s. \<not> is_busy s) [?id] sv)
      (concat (map (\<lambda>version. map (?wrap version) [Create 80 24, Attach (ident s)]) [None, Some 1, Some (VERSION + 1)])) sv
      = Some sv"
  proof (rule each_request_rejected)
    fix req
    assume "req \<in> set (concat (map (\<lambda>version. map (?wrap version) [Create 80 24, Attach (ident s)])
        [None, Some 1, Some (VERSION + 1)]))"
    from in_both_loops [OF this] obtain version request where
      req: "req = ?wrap version request" and v: "version \<in> set [None, Some 1, Some (VERSION + 1)]"
      and r: "request \<in> set [Create 80 24, Attach (ident s)]" by blast
    from v have v': "version \<in> {None, Some 1, Some (VERSION + 1)}" by simp
    from r have r': "needs_protocol request" by auto
    with rej [OF v' r'] req says un show "\<exists>resp. execute_control hx ?n 62000 env' sv req = Some (sv, resp) \<and>
        err_says [''protocol version mismatch''] resp \<and> unchanged 0 (current_psk s) (\<lambda>s. \<not> is_busy s) [?id] sv"
      by blast
  qed
  with sp s(1) show ?thesis
    by (simp add: protocol_rejection_preserves_sessions_and_keys_def Let_def del: each_request.simps list.map concat.simps)
qed

section \<open>The command line (main.rs)\<close>

text \<open>The command line of the test as the parser delivers it, without its port.\<close>

definition direct_connect_keeps_its_port_argument :: "client_env \<Rightarrow> bool" where
  "direct_connect_keeps_its_port_argument env \<longleftrightarrow>
     (case dispatch env \<lparr>cli_target = None, cli_ssh_port = None, cli_port = None,
                         cli_cmd = Some (CmdConnect ''localhost'' ''abc'' ''bad'')\<rparr> of
        (out, err, Inl (Root (Failure m))) \<Rightarrow> sublist ''--port is required'' m
      | _ \<Rightarrow> False)"

lemma command_line_test: "direct_connect_keeps_its_port_argument env"
  by (auto simp: direct_connect_keeps_its_port_argument_def dispatch_def fails_def sublist_def
      intro: exI [of _ "[]"] exI [of _ "'' for __connect''"])

section \<open>Output by absolute offset (client/session/tests.rs)\<close>

text \<open>\<open>QUERIES\<close>, and the calls of \<open>accept\<close> one after the other, none of which may fail.\<close>

definition QUERIES :: bytes where
  "QUERIES = [0x1B] @ as_bytes '']10;?'' @ [0x07, 0x1B] @ as_bytes '']11;?'' @ [0x1B, 0x5C, 0x1B] @
     as_bytes ''[6n'' @ [0x1B] @ as_bytes ''[?12$p''"

fun accepts_all :: "session_output \<Rightarrow> (u64 \<times> bytes) list \<Rightarrow> session_output option" where
  "accepts_all so [] = Some so"
| "accepts_all so ((offset, data) # chunks) =
     (case accept so offset data of
        (so', Inl e) \<Rightarrow> None
      | (so', Inr u) \<Rightarrow> accepts_all so' chunks)"

definition overlaps_and_gaps_use_absolute_offsets :: bool where
  "overlaps_and_gaps_use_absolute_offsets \<longleftrightarrow>
     (case accepts_all (new_output open_sink) [(0, as_bytes ''hello''), (0, as_bytes ''hello''), (3, as_bytes ''lo world'')] of
        None \<Rightarrow> False
      | Some so \<Rightarrow>
          written (writer so) = as_bytes ''hello world'' \<and> received so = 11 \<and>
          (case accepts_all so [(20, as_bytes ''!''), (20, as_bytes ''!'')] of
             None \<Rightarrow> False
           | Some so \<Rightarrow>
               written (writer so) =
                 as_bytes ''hello world'' @ [0x18, 0x0D, 0x0A] @
                 as_bytes ''[thther] output gap: 9 bytes unavailable'' @ [0x0D, 0x0A] @ as_bytes ''!'' \<and>
               received so = 21 \<and>
               (case accepts_all so [(30, [])] of
                  None \<Rightarrow> False
                | Some so \<Rightarrow>
                    received so = 30 \<and>
                    (case accepts_all so [(30, QUERIES)] of
                       None \<Rightarrow> False
                     | Some so \<Rightarrow> suffix QUERIES (written (writer so))))))"

lemma accept_all_taken:
  assumes "reliable (writer so)" and "unat off + length d < 2 ^ 64" and "received so < off + word_of_nat (length d)"
  shows "accept so off d = (so\<lparr>writer := (writer so)\<lparr>written := written (writer so) @
      (if off > received so then gap_notice (unat (off - received so)) else []) @
      drop (unat (saturating_sub (received so) off)) d\<rparr>,
    received := off + word_of_nat (length d)\<rparr>, Inr ())"
proof -
  have "unat (word_of_nat (length d) :: u64) = length d" using assms(2) by (intro unat_of_length) simp
  with assms show ?thesis
    by (simp add: accept_def checked_add_def not_le Let_def) (simp add: reliable_def)
qed

lemma accept_seen:
  assumes "unat off + length d < 2 ^ 64" and "off + word_of_nat (length d) \<le> received so"
  shows "accept so off d = (so, Inr ())"
proof -
  have "unat (word_of_nat (length d) :: u64) = length d" using assms(1) by (intro unat_of_length) simp
  with assms have "checked_add off (word_of_nat (length d)) = Some (off + word_of_nat (length d))"
    by (simp add: checked_add_def)
  from accept_old [OF this] assms(2) show ?thesis by (simp add: not_less)
qed

lemma output_test: "overlaps_and_gaps_use_absolute_offsets"
proof -
  have nine: "dec_string 9 = ''9''" by (simp add: dec_string.simps dec_digit_def char_of_def bit_0)
  have nine': "gap_notice 9 = [0x18, 0x0D, 0x0A] @ as_bytes ''[thther] output gap: 9 bytes unavailable'' @ [0x0D, 0x0A]"
    by (simp add: gap_notice_def nine as_bytes_def)
  show ?thesis
    by (simp add: overlaps_and_gaps_use_absolute_offsets_def accept_all_taken new_output_def reliable_open_sink
        saturating_sub_def accept_seen nine' QUERIES_def suffix_def as_bytes_def)
qed

end
