(* ===== verification/Viewer.thy ===== *)
theory Viewer
  imports Resume
begin

text \<open>
  What the system promises its user, without connections, offsets, buffers or frames: a log
  that grows, and a viewer that shows it from the beginning, in order, by runs of any length,
  and says exactly how much it leaves out when it leaves something out. Theory \<open>Resume\<close>
  refines it by the mapping \<open>view\<close>.
\<close>

section \<open>The specification\<close>

record viewer =
  whole :: bytes
  seen :: nat
  transcript :: bytes
  watching :: bool

definition blank :: "bytes \<Rightarrow> bool \<Rightarrow> viewer" where
  "blank h b = \<lparr>whole = h, seen = 0, transcript = [], watching = b\<rparr>"

inductive viewer_step :: "viewer \<Rightarrow> viewer \<Rightarrow> bool" where
  grow: "viewer_step v (v\<lparr>whole := whole v @ bs\<rparr>)"
| show_next: "watching v \<Longrightarrow> seen v \<le> e \<Longrightarrow> e \<le> length (whole v) \<Longrightarrow>
     viewer_step v (v\<lparr>seen := e,
       transcript := transcript v @ take (e - seen v) (drop (seen v) (whole v))\<rparr>)"
| skip_ahead: "watching v \<Longrightarrow> seen v < a \<Longrightarrow> a \<le> e \<Longrightarrow> e \<le> length (whole v) \<Longrightarrow>
     viewer_step v (v\<lparr>seen := e,
       transcript := transcript v @ gap_notice (a - seen v) @ take (e - a) (drop a (whole v))\<rparr>)"
| open_viewer: "viewer_step v (blank (whole v) True)"
| close_viewer: "viewer_step v (blank (whole v) False)"

section \<open>The refinement mapping\<close>

definition view :: "world \<Rightarrow> viewer" where
  "view w =
     (if alive w
      then \<lparr>whole = hist w, seen = unat (received (screen w)),
            transcript = written (writer (screen w)), watching = True\<rparr>
      else blank (hist w) False)"

lemma view_start: "view (start_world s) = blank [] True"
  by (simp add: view_def start_world_def blank_def new_output_def)

lemma view_same:
  "hist w' = hist w \<Longrightarrow> screen w' = screen w \<Longrightarrow> alive w' = alive w \<Longrightarrow> view w' = view w"
  by (simp add: view_def)

text \<open>The step that shows something: an accepted frame.\<close>

lemma view_deliver:
  assumes w: "world_ok w" and c: "conn w = Some c" and fl: "in_flight c = (off, d) # fs"
    and acc: "accept (screen w) off d = (t', Inr u)"
  shows "viewer_step\<^sup>=\<^sup>= (view w) (view (w\<lparr>screen := t', conn := Some (c\<lparr>in_flight := fs\<rparr>)\<rparr>))"
proof -
  let ?r = "unat (received (screen w))" and ?h = "hist w"
  from w c have rep: "session_rep (sess w) ?h" and al: "alive w" by (auto simp: world_ok_def)
  have sl: "slice ?h off d" using w c fl by (auto simp: world_ok_def conn_ok_def slice_def)
  from slice_end [OF sl session_log.rep_bound [OF rep]] obtain e where
      e: "checked_add off (word_of_nat (length d)) = Some e" "unat e = unat off + length d" by blast
  have le: "unat e \<le> length ?h" and d: "d = take (length d) (drop (unat off) ?h)"
    using sl e(2) by (simp_all add: slice_def)
  show ?thesis
  proof (cases "received (screen w) < e")
    case False
    with accept_old [OF e(1) False] acc have "t' = screen w" by simp
    then show ?thesis by (simp add: view_def al)
  next
    case True
    note new = accept_new [OF e(1) acc True]
    have v': "view (w\<lparr>screen := t', conn := Some (c\<lparr>in_flight := fs\<rparr>)\<rparr>) =
        (view w)\<lparr>seen := unat e, transcript := written (writer t')\<rparr>"
      using al new by (simp add: view_def)
    show ?thesis
    proof (cases "received (screen w) < off")
      case gap: True
      then have r: "?r < unat off" by (simp add: u64_less_iff)
      have "viewer_step (view w) ((view w)\<lparr>seen := unat e,
          transcript := transcript (view w) @ gap_notice (unat off - seen (view w)) @
            take (unat e - unat off) (drop (unat off) (whole (view w)))\<rparr>)"
        using r le e(2) al by (intro viewer_step.skip_ahead) (simp_all add: view_def)
      moreover have "written (writer t') = written (writer (screen w)) @ gap_notice (unat off - ?r) @ d"
        using new gap r by simp
      ultimately show ?thesis unfolding v' using d e(2) al by (simp add: view_def)
    next
      case False
      then have r: "unat off \<le> ?r" by (simp add: u64_less_iff)
      have "viewer_step (view w) ((view w)\<lparr>seen := unat e,
          transcript := transcript (view w) @ take (unat e - seen (view w)) (drop (seen (view w)) (whole (view w)))\<rparr>)"
        using True le al by (intro viewer_step.show_next) (simp_all add: view_def u64_less_iff)
      moreover have "written (writer t') = written (writer (screen w)) @ take (unat e - ?r) (drop ?r ?h)"
        using new False drop_slice [OF sl r] e(2) by simp
      ultimately show ?thesis unfolding v' using al by (simp add: view_def)
    qed
  qed
qed

lemma view_step:
  assumes "step w w'" and "world_ok w"
  shows "viewer_step\<^sup>=\<^sup>= (view w) (view w')"
  using assms(1)
proof cases
  case (shell bs)
  then have "view w' = (view w)\<lparr>whole := whole (view w) @ bs\<rparr>"
    by (simp add: view_def blank_def)
  then show ?thesis using viewer_step.grow [of "view w" bs] by simp
next
  case (client out)
  then have "view w' = blank (whole (view w)) True"
    by (simp add: view_def blank_def new_output_def)
  then show ?thesis using viewer_step.open_viewer [of "view w"] by simp
next
  case (deliver c off d fs t' u)
  then show ?thesis using view_deliver [OF assms(2)] by simp
next
  case (deliver_error c off d fs t' e)
  then have "view w' = blank (whole (view w)) False"
    by (simp add: view_def blank_def)
  then show ?thesis using viewer_step.close_viewer [of "view w"] by simp
qed (use view_same [of w' w] in simp_all)

interpretation viewing: simulation step world_ok viewer_step view
  by unfold_locales (rule view_step)

section \<open>Properties\<close>

text \<open>The whole output path refines the viewer: every step of the system, with its
  connections, resumes, evictions, broken deliveries and takeovers, is either invisible or one
  step of the specification, which starts with an empty log and an empty screen. In particular
  nothing shown is ever taken back or shown again.\<close>

theorem system_refines_viewer:
  assumes "reachable s w" and "step w w'"
  shows "viewer_step\<^sup>=\<^sup>= (view w) (view w') \<and> viewer_step\<^sup>*\<^sup>* (blank [] True) (view w')"
proof -
  from reachable_runs [OF assms(1)] have "viewer_step\<^sup>*\<^sup>* (blank [] True) (view w)"
    unfolding view_start [of s, symmetric] by (blast intro: viewing.simulates_runs start_world_ok)
  with viewing.simulates [OF assms(2) reachable_ok [OF assms(1)]] show ?thesis by auto
qed

theorem system_refines_viewer_witness:
  "\<exists>w w'. step w w' \<and> transcript (view w') = [104, 105] \<and> viewer_step\<^sup>*\<^sup>* (blank [] True) (view w')"
proof -
  from demo_run obtain w where w: "reachable demo_session w" "alive w" "written (writer (screen w)) = [104, 105]"
    by blast
  have "step w (w\<lparr>conn := None\<rparr>)" by (rule step.lose)
  from system_refines_viewer [OF w(1) this] this w(2,3) show ?thesis
    by (intro exI [of _ w] exI [of _ "w\<lparr>conn := None\<rparr>"]) (simp add: view_def)
qed

end
