(* ===== verification/Arrival.thy ===== *)
theory Arrival
  imports Directory
begin

text \<open>
  A TCP connection at the grain of its accesses to shared data. \<open>handle_tcp\<close> (server/daemon.rs)
  waits for the network between its accesses to the registry and the session, without a
  timeout, so anything may happen in between. Run alone, the accesses are \<open>tcp_connect\<close> of
  theory \<open>Connection\<close>. Interleaved, a connection can enter with a key that has been replaced.
\<close>

section \<open>The accesses of a connection\<close>

text \<open>
  \<open>Greeting\<close>: before the client's hello. \<open>Seeking\<close>: before \<open>registry.get\<close>. \<open>Sought\<close>: before
  \<open>is_ended\<close> of the session found. \<open>Keying\<close>: before \<open>current_psk\<close>. \<open>Measuring\<close>: before
  \<open>current_total\<close>, the check of the offset and the reply. \<open>Proving\<close>: before the client's first
  frame and its answer. \<open>Entering\<close> and \<open>Entered\<close>: before the two accesses of \<open>become_active\<close>.
  \<open>Serving\<close>: reader and writer run. \<open>Closed\<close>: the task has returned an error.
\<close>

datatype arrival =
    Greeting bytes sink bytes
  | Seeking client_hello bytes sink bytes
  | Sought client_hello bytes sink bytes nat
  | Keying client_hello bytes sink bytes nat
  | Measuring client_hello bytes sink bytes nat bytes
  | Proving accepted
  | Entering accepted
  | Entered accepted u64
  | Serving accepted u64
  | Closed sink error

definition refusing :: "sink \<Rightarrow> u8 \<Rightarrow> error \<Rightarrow> arrival" where
  "refusing w status e =
     (case (refuse w status e :: sink \<times> (error + unit)) of
        (w', Inl e') \<Rightarrow> Closed w' e'
      | (w', Inr u) \<Rightarrow> Closed w' e)"

definition no_session :: "client_hello \<Rightarrow> sink \<Rightarrow> arrival" where
  "no_session hello w =
     refusing w STATUS_NO_SESSION (Failure (''no such session '' @ hello_session_id hello))"

fun arrival_access :: "(bytes \<Rightarrow> cipher) \<Rightarrow> kdf \<Rightarrow> arrival \<Rightarrow> server \<Rightarrow> server \<times> arrival" where
  "arrival_access mk hkdf (Greeting r w sn) sv =
     (sv, case server_recv r of
            (r1, Inl e) \<Rightarrow> if is_rejection e then refusing w STATUS_VERSION_MISMATCH e else Closed w e
          | (r1, Inr hello) \<Rightarrow> Seeking hello r1 w sn)"
| "arrival_access mk hkdf (Seeking hello r w sn) sv =
     (sv, case reg_get sv (hello_session_id hello) of
            None \<Rightarrow> no_session hello w
          | Some a \<Rightarrow> Sought hello r w sn a)"
| "arrival_access mk hkdf (Sought hello r w sn a) sv =
     (sv, case store sv a of
            None \<Rightarrow> no_session hello w
          | Some s \<Rightarrow> if is_ended s then no_session hello w else Keying hello r w sn a)"
| "arrival_access mk hkdf (Keying hello r w sn a) sv =
     (sv, case store sv a of
            None \<Rightarrow> no_session hello w
          | Some s \<Rightarrow> Measuring hello r w sn a (current_psk s))"
| "arrival_access mk hkdf (Measuring hello r w sn a key) sv =
     (sv, case store sv a of
            None \<Rightarrow> no_session hello w
          | Some s \<Rightarrow>
              if hello_offset hello > current_total s
              then refusing w STATUS_BAD_OFFSET (Failure ''resume offset exceeds session output'')
              else
                (case server_send_ok w sn (current_total s) of
                   (w1, Inl e) \<Rightarrow> Closed w1 e
                 | (w1, Inr u) \<Rightarrow>
                     let k = derive_key hkdf key (hello_nonce hello) sn in
                     Proving \<lparr>at_addr = a, at_link = (w1, new_sealer mk k DIR_SERVER_TO_CLIENT),
                       at_opener = new_opener mk k DIR_CLIENT_TO_SERVER, at_rest = r,
                       at_offset = hello_offset hello\<rparr>))"
| "arrival_access mk hkdf (Proving c) sv =
     (sv, case tcp_auth c of Inl e \<Rightarrow> Closed (fst (at_link c)) e | Inr c1 \<Rightarrow> Entering c1)"
| "arrival_access mk hkdf (Entering c) sv =
     (on_session (at_addr c) (\<lambda>s. fst (bump_epoch s)) sv,
      Entered c (case store sv (at_addr c) of None \<Rightarrow> 0 | Some s \<Rightarrow> snd (bump_epoch s)))"
| "arrival_access mk hkdf (Entered c epoch) sv =
     (on_session (at_addr c) (set_connected True) sv, Serving c epoch)"
| "arrival_access mk hkdf (Serving c epoch) sv = (sv, Serving c epoch)"
| "arrival_access mk hkdf (Closed w e) sv = (sv, Closed w e)"

section \<open>A connection alone\<close>

definition arriving_run :: "(bytes \<Rightarrow> cipher) \<Rightarrow> kdf \<Rightarrow> nat \<Rightarrow> server \<times> arrival \<Rightarrow> server \<times> arrival" where
  "arriving_run mk hkdf k st = ((\<lambda>(sv, t). arrival_access mk hkdf t sv) ^^ k) st"

lemma arriving_0 [simp]: "arriving_run mk hkdf 0 st = st"
  by (simp add: arriving_run_def)

lemma arriving_Suc [simp]: "arriving_run mk hkdf (Suc k) (sv, t) = arriving_run mk hkdf k (arrival_access mk hkdf t sv)"
  by (cases "arrival_access mk hkdf t sv")
    (simp add: arriving_run_def funpow_swap1 [symmetric] funpow_Suc_right del: funpow.simps)

lemma arriving_done [simp]:
  "arriving_run mk hkdf k (sv, Serving c e) = (sv, Serving c e)" "arriving_run mk hkdf k (sv, Closed w er) = (sv, Closed w er)"
  by (induction k) simp_all

lemma arriving_add: "arriving_run mk hkdf (k + l) st = arriving_run mk hkdf l (arriving_run mk hkdf k st)"
  by (simp add: arriving_run_def add.commute [of k] funpow_add)

text \<open>The accesses before the first frame are \<open>tcp_open\<close>, the ones after it \<open>tcp_activate\<close>.\<close>

lemma refuse_error: "\<exists>w' e'. (refuse w status e :: sink \<times> (error + 'a)) = (w', Inl e') \<and> refusing w status e = Closed w' e'"
  by (auto simp: refuse_def refusing_def split: prod.splits sum.splits)

lemma arriving_is_tcp_open:
  "arriving_run mk hkdf 5 (sv, Greeting r w sn) =
     (sv, case tcp_open mk hkdf sv r w sn of (w1, Inl e) \<Rightarrow> Closed w1 e | (w1, Inr c) \<Rightarrow> Proving c)"
proof (cases "server_recv r")
  case (Pair r1 res)
  show ?thesis
  proof (cases res)
    case (Inl e)
    with Pair refuse_error [where 'a = accepted, of w STATUS_VERSION_MISMATCH e] show ?thesis
      by (auto simp: tcp_open_def numeral_eq_Suc)
  next
    case (Inr hello)
    note none = refuse_error [where 'a = accepted, of w STATUS_NO_SESSION
      "Failure (''no such session '' @ hello_session_id hello)"]
    show ?thesis
    proof (cases "live_session sv (hello_session_id hello)")
      case None
      then have "arriving_run mk hkdf 2 (sv, Seeking hello r1 w sn) = (sv, no_session hello w) \<or>
          arrival_access mk hkdf (Seeking hello r1 w sn) sv = (sv, no_session hello w)"
        by (auto simp: live_session_def numeral_eq_Suc split: option.splits if_splits)
      with Pair Inr None none show ?thesis
        by (auto simp: tcp_open_def numeral_eq_Suc no_session_def)
    next
      case (Some as)
      then obtain a s where live: "live_session sv (hello_session_id hello) = Some (a, s)" by (cases as) auto
      then have "reg_get sv (hello_session_id hello) = Some a" "store sv a = Some s" "\<not> is_ended s"
        by (auto simp: live_session_def split: option.splits if_splits)
      with Pair Inr live refuse_error [where 'a = accepted, of w STATUS_BAD_OFFSET
          "Failure ''resume offset exceeds session output''"]
      show ?thesis
        by (auto simp: tcp_open_def numeral_eq_Suc Let_def split: prod.splits sum.splits)
    qed
  qed
qed

lemma on_session_twice: "on_session a f (on_session a g sv) = on_session a (\<lambda>s. f (g s)) sv"
  by (simp add: on_session_def option.map_comp comp_def)

lemma become_active_accesses:
  "become_active s = (set_connected True (fst (bump_epoch s)), snd (bump_epoch s))"
  by (simp add: become_active_def split: prod.split)

lemma arriving_enters:
  assumes "tcp_auth c = Inr c1"
  shows "arriving_run mk hkdf 3 (sv, Proving c) =
    (fst (tcp_activate (at_addr c1) sv), Serving c1 (snd (tcp_activate (at_addr c1) sv)))"
  using assms by (simp add: numeral_eq_Suc tcp_activate_def on_session_twice become_active_accesses split: option.split)

lemma arriving_fails: "tcp_auth c = Inl e \<Longrightarrow> arriving_run mk hkdf 3 (sv, Proving c) = (sv, Closed (fst (at_link c)) e)"
  by (simp add: numeral_eq_Suc)

lemma arriving_is_tcp_connect:
  "arriving_run mk hkdf 8 (sv, Greeting r w sn) =
     (case tcp_connect mk hkdf sv r w sn of
        (sv', Inr (c, e)) \<Rightarrow> (sv', Serving c e)
      | (sv', Inl er) \<Rightarrow> (sv', Closed (case tcp_open mk hkdf sv r w sn of
                                        (w1, Inl e) \<Rightarrow> w1 | (w1, Inr c) \<Rightarrow> fst (at_link c)) er))"
proof -
  have "arriving_run mk hkdf (5 + 3) (sv, Greeting r w sn) =
      arriving_run mk hkdf 3 (arriving_run mk hkdf 5 (sv, Greeting r w sn))" by (rule arriving_add)
  then show ?thesis unfolding arriving_is_tcp_open
    by (auto simp: tcp_connect_def arriving_enters arriving_fails split: prod.splits sum.splits)
qed

section \<open>Properties\<close>

text \<open>C38. A key that has been replaced still opens its session to whoever has begun to connect. If a
  client with the key of an idle session has had its hello accepted, and an attach request is then
  answered with a fresh key, the first client still enters with the old one, as late as it likes,
  holds the session as its current connection, and the next attach request is refused as busy.\<close>

theorem old_key_outlives_rotation:
  assumes "run_reachable sv" and "live_session sv sid = Some (a, s)" and "\<not> is_busy s"
    and "length cn = NONCE_LEN" and "length sn = NONCE_LEN" and "off \<le> current_total s"
    and "\<And>k. cipher_ok (mk k)" and "\<And>k. encrypts (mk k)"
  shows "\<exists>c0 sv1 sv2 c e t.
     arriving_run mk hkdf 5
       (sv, Greeting (client_opening mk hkdf sid (current_psk s) cn sn off @ later) open_sink sn) = (sv, Proving c0) \<and>
     do_attach hx p env sv sid = (sv1, Bootstrap p sid (hx (fresh_key env))) \<and>
     arriving_run mk hkdf 3 (sv1, Proving c0) = (sv2, Serving c e) \<and> at_offset c = off \<and>
     store sv2 a = Some t \<and> is_busy t \<and> is_current t e \<and> current_psk t = fresh_key env \<and>
     do_attach hx p env' sv2 sid = (sv2, ErrResponse ''session busy (already attached)'')"
proof -
  from live_session_SomeD [OF assms(2)] have reg: "reg_get sv sid = Some a" "store sv a = Some s" "\<not> ended s"
    by (simp_all add: reg_get_def)
  have id: "ident s = sid" using server_okD(2) [OF run_reachable_ok [OF assms(1)], of sid a] reg
    by (auto simp: reg_get_def)
  note sid = live_ident_fits [OF run_reachable_runs [OF assms(1)] assms(2)]
  let ?r = "client_opening mk hkdf sid (current_psk s) cn sn off @ later"
  from connection_opens [where mk = mk and hkdf = hkdf and later = later, OF assms(2) sid assms(4-8) refl]
  obtain c where "tcp_connect mk hkdf sv ?r open_sink sn =
      (on_session a (\<lambda>s. fst (become_active s)) sv, Inr (c, snd (become_active s)))"
    and c: "at_addr c = a" "at_offset c = off" by blast
  then obtain w1 c0 where "tcp_open mk hkdf sv ?r open_sink sn = (w1, Inr c0)" and auth: "tcp_auth c0 = Inr c"
    by (auto simp: tcp_connect_def split: prod.splits sum.splits)
  then have five: "arriving_run mk hkdf 5 (sv, Greeting ?r open_sink sn) = (sv, Proving c0)"
    unfolding arriving_is_tcp_open by simp
  let ?sv1 = "on_session a (\<lambda>s. fst (rotate_psk (fresh_key env) s)) sv"
  have att: "do_attach hx p env sv sid = (?sv1, Bootstrap p sid (hx (fresh_key env)))"
    using reg assms(3) id by (simp add: do_attach_def rotate_psk_def is_ended_def on_session_def)
  let ?sv2 = "fst (tcp_activate a ?sv1)" and ?t = "fst (become_active (fst (rotate_psk (fresh_key env) s)))"
  have enter: "arriving_run mk hkdf 3 (?sv1, Proving c0) = (?sv2, Serving c (snd (tcp_activate a ?sv1)))"
    using arriving_enters [OF auth, of mk hkdf ?sv1] c(1) by simp
  have st: "store ?sv2 a = Some ?t" "snd (tcp_activate a ?sv1) = snd (become_active (fst (rotate_psk (fresh_key env) s)))"
    using reg(2) by (simp_all add: tcp_activate_def)
  have t: "is_busy ?t" "is_current ?t (snd (tcp_activate a ?sv1))" "current_psk ?t = fresh_key env" "\<not> is_ended ?t"
    unfolding st(2) using reg(3) by (simp_all add: session_defs)
  moreover have "do_attach hx p env' ?sv2 sid = (?sv2, ErrResponse ''session busy (already attached)'')"
    using st(1) t(1,4) reg(1) reg(2) by (simp add: do_attach_def reg_get_def tcp_activate_def)
  ultimately show ?thesis using five att enter st(1) c(2) by blast
qed

theorem old_key_outlives_rotation_witness:
  "\<exists>r c0 sv1 sv2 c e. arriving_run (\<lambda>_. tag_cipher) (\<lambda>_ _ _ _. []) 5
       (demo_server, Greeting r open_sink (replicate 32 2)) = (demo_server, Proving c0) \<and>
     do_attach string_of_bytes 1 (demo_env\<lparr>fresh_key := [2]\<rparr>) demo_server (hex8 7) =
       (sv1, Bootstrap 1 (hex8 7) (string_of_bytes [2])) \<and>
     arriving_run (\<lambda>_. tag_cipher) (\<lambda>_ _ _ _. []) 3 (sv1, Proving c0) = (sv2, Serving c e)"
proof -
  let ?s = "new_session (hex8 7) ''/bin/sh'' 80 24 16 5 [1]"
  have live: "live_session demo_server (hex8 7) = Some (0, ?s)" "\<not> is_busy ?s" "0 \<le> current_total ?s"
    by (simp_all add: live_session_def reg_get_def demo_server_def Let_def new_session_def is_ended_def is_busy_def)
  have n: "length (replicate 32 1 :: bytes) = NONCE_LEN" "length (replicate 32 2 :: bytes) = NONCE_LEN"
    by (simp_all add: NONCE_LEN_def)
  from old_key_outlives_rotation [where mk = "\<lambda>_. tag_cipher" and hkdf = "\<lambda>_ _ _ _. []" and later = "[]" and
      hx = string_of_bytes and p = 1 and env = "demo_env\<lparr>fresh_key := [2]\<rparr>",
      OF demo_reachable live(1,2) n live(3) tag_cipher_ok tag_cipher_encrypts]
  show ?thesis by simp blast
qed

end
