(* ===== verification/Whole_System.thy ===== *)
theory Whole_System
  imports Viewer Arrival
begin

text \<open>
  The daemon with all its sessions and any number of clients. Theory \<open>Resume\<close> follows one session
  and one client; here the server is the one of theory \<open>Daemon_Run\<close>, with its control requests,
  ends of shells and new sessions; connections arrive access by access as in theory \<open>Arrival\<close>,
  interleaved with all of it and with each other; and each client is a process with its own
  standard output. Seen from one client, every step of the whole is a step of \<open>Resume\<close> or
  none, so what is shown there holds for every client of every session.
\<close>

section \<open>The system and its steps\<close>

text \<open>A client: the session it was given, its standard output, whether it runs, its connection.\<close>

record client =
  session_at :: nat
  display :: session_output
  running :: bool
  link_to :: "conn option"

text \<open>The history of each session, all the output its shell has produced, is a ghost.\<close>

record system =
  server :: server
  hists :: "nat \<Rightarrow> bytes"
  clients :: "nat \<Rightarrow> client option"
  arrivals :: "nat \<Rightarrow> arrival option"

definition set_client :: "nat \<Rightarrow> client \<Rightarrow> system \<Rightarrow> system" where
  "set_client i c w = w\<lparr>clients := (clients w)(i \<mapsto> c)\<rparr>"

text \<open>A client process that has just started (\<open>client_run\<close>): nothing shown, no connection.\<close>

definition new_client :: "nat \<Rightarrow> sink \<Rightarrow> client" where
  "new_client a out = \<lparr>session_at = a, display = new_output out, running = True, link_to = None\<rparr>"

lemma new_client_sel [simp]:
  "session_at (new_client a out) = a" "display (new_client a out) = new_output out"
  "running (new_client a out)" "link_to (new_client a out) = None"
  by (simp_all add: new_client_def)

definition start_system :: system where
  "start_system = \<lparr>server = empty_server, hists = (\<lambda>_. []), clients = (\<lambda>_. None), arrivals = (\<lambda>_. None)\<rparr>"

text \<open>No ring buffer changes.\<close>

definition rings_kept :: "server \<Rightarrow> server \<Rightarrow> bool" where
  "rings_kept sv sv' \<longleftrightarrow> (\<forall>a s. store sv a = Some s \<longrightarrow> (\<exists>s'. store sv' a = Some s' \<and> ring s' = ring s))"

text \<open>
  \<open>prints\<close>: the PTY reader of a session appends output. \<open>works\<close>: the daemon does anything else.
  \<open>opens\<close>: a client process starts, for a session there is. \<open>arrives\<close>: the daemon accepts a
  connection, from anybody. \<open>moves\<close>: the next access of one that is being opened. \<open>joins\<close>: one that
  has become active, for the session of a client and from the offset it has committed, is that
  client's. \<open>serves\<close>: one iteration of that connection's writer. \<open>takes\<close> and \<open>fails\<close>: the client takes the next frame. \<open>loses\<close>: the
  connection breaks.
\<close>

inductive system_step :: "system \<Rightarrow> system \<Rightarrow> bool" where
  prints: "store (server w) a = Some s \<Longrightarrow> length (hists w a) + length bs < 2 ^ 64 \<Longrightarrow>
     system_step w (w\<lparr>server := on_session a (\<lambda>s. pty_output s bs) (server w),
                      hists := (hists w)(a := hists w a @ bs)\<rparr>)"
| works: "run_step (server w) sv \<Longrightarrow> rings_kept (server w) sv \<Longrightarrow> system_step w (w\<lparr>server := sv\<rparr>)"
| opens: "store (server w) a = Some s \<Longrightarrow> written out = [] \<Longrightarrow>
     system_step w (set_client i (new_client a out) w)"
| arrives: "system_step w (w\<lparr>arrivals := (arrivals w)(j \<mapsto> Greeting r lk sn)\<rparr>)"
| moves: "arrivals w j = Some t \<Longrightarrow> arrival_access mk hkdf t (server w) = (sv, t') \<Longrightarrow>
     system_step w (w\<lparr>server := sv, arrivals := (arrivals w)(j \<mapsto> t')\<rparr>)"
| joins: "clients w i = Some c \<Longrightarrow> running c \<Longrightarrow>
     arrivals w j = Some (Serving k e) \<Longrightarrow>
     at_addr k = session_at c \<Longrightarrow> at_offset k = received (display c) \<Longrightarrow>
     system_step w (set_client i
       (c\<lparr>link_to := Some \<lparr>conn_cursor = at_offset k, conn_epoch = e, in_flight = []\<rparr>\<rparr>)
       (w\<lparr>arrivals := (arrivals w)(j := None)\<rparr>))"
| serves: "clients w i = Some c \<Longrightarrow> link_to c = Some k \<Longrightarrow> store (server w) (session_at c) = Some s \<Longrightarrow>
     server_writer log_frame [] (conn_cursor k) (conn_epoch k) [observe s wk] = (fs, cur', stop) \<Longrightarrow>
     system_step w (set_client i
       (c\<lparr>link_to := Some (k\<lparr>conn_cursor := cur', in_flight := in_flight k @ outputs fs\<rparr>)\<rparr>) w)"
| takes: "clients w i = Some c \<Longrightarrow> link_to c = Some k \<Longrightarrow> in_flight k = (off, d) # fs \<Longrightarrow>
     accept (display c) off d = (t', Inr u) \<Longrightarrow>
     system_step w (set_client i (c\<lparr>display := t', link_to := Some (k\<lparr>in_flight := fs\<rparr>)\<rparr>) w)"
| fails: "clients w i = Some c \<Longrightarrow> link_to c = Some k \<Longrightarrow> in_flight k = (off, d) # fs \<Longrightarrow>
     accept (display c) off d = (t', Inl err) \<Longrightarrow>
     system_step w (set_client i (c\<lparr>display := t', running := False, link_to := None\<rparr>) w)"
| loses: "clients w i = Some c \<Longrightarrow> system_step w (set_client i (c\<lparr>link_to := None\<rparr>) w)"

inductive system_reachable :: "system \<Rightarrow> bool" where
  begins: "system_reachable start_system"
| goes_on: "system_reachable w \<Longrightarrow> system_step w w' \<Longrightarrow> system_reachable w'"

section \<open>Nothing the daemon does is left out\<close>

lemma rings_on_session: "(\<And>s. ring (f s) = ring s) \<Longrightarrow> rings_kept sv (on_session a f sv)"
  by (auto simp: rings_kept_def)

lemma rings_refl: "rings_kept sv sv"
  by (simp add: rings_kept_def)

lemma rings_execute:
  assumes "server_ok sv" and "execute_control hx n p env sv req = Some (sv', resp)"
  shows "rings_kept sv sv'"
  using execute_control_cases [OF assms(2)]
proof (elim disjE exE)
  fix cols rows
  assume "do_create hx n p env sv cols rows = Some (sv', resp)"
  from create_frame [OF this assms(1)] show ?thesis by (auto simp: rings_kept_def)
next
  fix sid
  assume "do_attach hx p env sv sid = (sv', resp)"
  then show ?thesis
    by (auto simp: do_attach_def rotate_psk_def rings_kept_def split: option.splits if_splits bind_splits)
next
  fix sid
  assume "do_kill sv sid = (sv', resp)"
  then show ?thesis
    by (auto simp: do_kill_def intro!: rings_on_session rings_refl split: option.splits)
qed (simp add: rings_refl)

text \<open>Every step of the daemon is one of the first two kinds.\<close>

lemma run_step_rings:
  assumes "run_step sv sv'" and "server_ok sv"
  shows "rings_kept sv sv' \<or> (\<exists>a bs. sv' = on_session a (\<lambda>s. pty_output s bs) sv)"
  using assms(1)
proof cases
  case (requests hx n p env req resp)
  with rings_execute [OF assms(2)] show ?thesis by blast
next
  case (connects mk hkdf r w sn res)
  from tcp_connect_cases [OF this] show ?thesis by (auto intro!: rings_on_session rings_refl)
next
  case (inputs a f)
  have "ring (on_frame f s) = ring s" for s by (cases f) simp_all
  with inputs show ?thesis by (simp add: rings_on_session)
next
  case (ends a)
  show ?thesis
  proof (cases "store sv a")
    case None
    then show ?thesis unfolding ends by (simp add: mark_session_ended_def rings_refl)
  next
    case (Some s)
    then show ?thesis unfolding ends
      by (cases "ended s") (auto simp: mark_session_ended_twice mark_session_ended_live rings_kept_def)
  qed
qed (auto simp: tcp_leave_def bump_epoch_def set_connected_def intro!: rings_on_session)

text \<open>A session that appears in a step has produced nothing.\<close>

lemma run_step_new:
  assumes "run_step sv sv'" and "store sv a = None" and "store sv' a = Some s"
  shows "session_rep s []"
proof -
  have created: ?thesis if "do_create hx n p env sv cols rows = Some (sv', resp)" for hx n p env cols rows resp
  proof -
    from that obtain sid where sid: "new_session_id sv (rng env) 0 = Some sid"
      by (auto simp: do_create_def split: option.splits)
    show ?thesis
    proof (cases "spawn_error env")
      case None
      from that do_create_eq [OF sid None] assms(2,3) show ?thesis
        by (auto simp: Let_def session_rep_new split: if_splits)
    next
      case (Some e)
      with that sid assms(2,3) show ?thesis by (simp add: do_create_def spawn_session_eq Let_def)
    qed
  qed
  from assms(1) show ?thesis
  proof cases
    case (requests hx n p env req resp)
    from execute_control_cases [OF this] show ?thesis
      using created assms(2,3)
      by (auto simp: do_attach_def do_kill_def rotate_psk_def split: option.splits if_splits bind_splits)
  next
    case (connects mk hkdf r w sn res)
    from tcp_connect_cases [OF this] assms(2,3) show ?thesis by (auto split: if_splits)
  next
    case (ends b)
    with assms(2,3) show ?thesis
      by (auto simp: mark_session_ended_def reg_remove_def mark_ended_def on_session_def
          split: option.splits if_splits)
  qed (use assms(2,3) in \<open>auto simp: tcp_leave_def split: if_splits\<close>)
qed

text \<open>An access of a connection that is being opened is none to the server, or one of its steps.\<close>

lemma arrival_access_server:
  assumes "arrival_access mk hkdf t sv = (sv', t')"
  shows "sv' = sv \<or> (run_step sv sv' \<and> rings_kept sv sv')"
proof (cases t)
  case (Entering c)
  with assms have "sv' = on_session (at_addr c) (\<lambda>s. fst (bump_epoch s)) sv" by simp
  with run_step.bumps [of sv "at_addr c"] rings_on_session [of "\<lambda>s. fst (bump_epoch s)" sv "at_addr c"]
  show ?thesis by (simp add: bump_epoch_def)
next
  case (Entered c e)
  with assms have "sv' = on_session (at_addr c) (set_connected True) sv" by simp
  then show ?thesis by (auto simp: run_step.flags set_connected_def intro!: rings_on_session)
qed (use assms in simp_all)

text \<open>
  The offset of a connection that has passed its check is within the output of its session,
  however much later it becomes active: the output only grows.
\<close>

fun arrival_ok :: "(nat \<Rightarrow> bytes) \<Rightarrow> arrival \<Rightarrow> bool" where
  "arrival_ok h (Proving c) \<longleftrightarrow> unat (at_offset c) \<le> length (h (at_addr c))"
| "arrival_ok h (Entering c) \<longleftrightarrow> unat (at_offset c) \<le> length (h (at_addr c))"
| "arrival_ok h (Entered c e) \<longleftrightarrow> unat (at_offset c) \<le> length (h (at_addr c))"
| "arrival_ok h (Serving c e) \<longleftrightarrow> unat (at_offset c) \<le> length (h (at_addr c))"
| "arrival_ok h _ \<longleftrightarrow> True"

lemma arrival_ok_grows: "arrival_ok h t \<Longrightarrow> (\<And>a. length (h a) \<le> length (h' a)) \<Longrightarrow> arrival_ok h' t"
  by (cases t) (auto intro: order.trans)

lemma arrival_ok_refusing [simp]: "arrival_ok h (refusing w status e)" "arrival_ok h (no_session hello w)"
  by (auto simp: refusing_def no_session_def split: prod.splits sum.splits)

lemma tcp_auth_same: "tcp_auth c = Inr c1 \<Longrightarrow> at_addr c1 = at_addr c \<and> at_offset c1 = at_offset c"
  by (auto simp: tcp_auth_def split: prod.splits sum.splits frame.splits)

lemma arrival_ok_access:
  assumes "arrival_access mk hkdf t sv = (sv', t')" and "arrival_ok h t"
    and "\<And>a s. store sv a = Some s \<Longrightarrow> session_rep s (h a)"
  shows "arrival_ok h t'"
proof (cases t)
  case (Measuring hello r w sn a key)
  have "unat (current_total s) = length (h a)" if "store sv a = Some s" for s
    using ring_rep_total assms(3) [OF that] by (simp add: session_rep_def current_total_def)
  with assms(1) Measuring show ?thesis
    by (auto simp: Let_def u64_le_iff not_less split: option.splits if_splits prod.splits sum.splits)
next
  case (Proving c)
  with assms(1,2) show ?thesis by (auto dest: tcp_auth_same split: sum.splits)
qed (use assms(1,2) in \<open>auto split: prod.splits sum.splits option.splits if_splits\<close>)

section \<open>One client's view\<close>

text \<open>The world of theory \<open>Resume\<close> that a client of a session lives in.\<close>

definition world_of :: "session \<Rightarrow> bytes \<Rightarrow> client \<Rightarrow> world" where
  "world_of s h c = \<lparr>sess = s, hist = h, screen = display c, alive = running c, conn = link_to c\<rparr>"

lemma world_of_sel [simp]:
  "sess (world_of s h c) = s" "hist (world_of s h c) = h" "screen (world_of s h c) = display c"
  "alive (world_of s h c) = running c" "conn (world_of s h c) = link_to c"
  by (simp_all add: world_of_def)

lemma world_of_upd:
  "(world_of s h c)\<lparr>sess := s'\<rparr> = world_of s' h c"
  "(world_of s h c)\<lparr>hist := h'\<rparr> = world_of s h' c"
  "(world_of s h c)\<lparr>conn := x\<rparr> = world_of s h (c\<lparr>link_to := x\<rparr>)"
  "(world_of s h c)\<lparr>sess := s', conn := x\<rparr> = world_of s' h (c\<lparr>link_to := x\<rparr>)"
  "(world_of s h c)\<lparr>screen := t, conn := x\<rparr> = world_of s h (c\<lparr>display := t, link_to := x\<rparr>)"
  "(world_of s h c)\<lparr>screen := t, alive := b, conn := x\<rparr> =
     world_of s h (c\<lparr>display := t, running := b, link_to := x\<rparr>)"
  by (simp_all add: world_of_def)

text \<open>
  One step of the system in the eyes of one client that keeps its session: a step of its
  world, or nothing.
\<close>

lemma other_step:
  assumes "ring s' = ring s"
  shows "step\<^sup>=\<^sup>= (world_of s h c) (world_of s' h c)"
  using step.upkeep [of s' "world_of s h c"] assms by (simp add: world_of_upd)

lemma client_step:
  assumes "clients w i = Some c" and "session_at c = a" and "store (server w) a = Some s"
    and "clients w' i = Some c'" and "session_at c' = a" and "store (server w') a = Some s'"
    and "system_step w w'" and "session_rep s (hists w a)"
    and "\<And>j t. arrivals w j = Some t \<Longrightarrow> arrival_ok (hists w) t"
  shows "step\<^sup>=\<^sup>= (world_of s (hists w a) c) (world_of s' (hists w' a) c')"
  using assms(7)
proof cases
  case (prints b t bs)
  show ?thesis
  proof (cases "b = a")
    case True
    with prints step.shell [of "world_of s (hists w a) c" bs] assms(1,3,4,6) show ?thesis
      by (simp add: world_of_upd)
  next
    case False
    with prints assms(1,3,4,6) show ?thesis by simp
  qed
next
  case (works sv)
  with assms(1,3,4,6) other_step show ?thesis by (fastforce simp: rings_kept_def)
next
  case (opens b t out j)
  show ?thesis
  proof (cases "j = i")
    case True
    with opens assms(1-6) step.client [OF opens(3), of "world_of s (hists w a) c"] show ?thesis
      by (auto simp: set_client_def world_of_def)
  qed (use opens(1) assms(1,3,4,6) in \<open>simp add: set_client_def\<close>)
next
  case (arrives j r lk sn)
  with assms(1,3,4,6) show ?thesis by simp
next
  case (moves j t mk hkdf sv t')
  have "\<exists>s'. store sv a = Some s' \<and> ring s' = ring s"
    using arrival_access_server [OF moves(3)] assms(3) by (auto simp: rings_kept_def)
  with moves(1) assms(1,4,6) other_step show ?thesis by auto
next
  case (joins j d l k e)
  show ?thesis
  proof (cases "j = i")
    case True
    with joins(1,2) assms(1,4) have d: "d = c"
        "c' = c\<lparr>link_to := Some \<lparr>conn_cursor = at_offset k, conn_epoch = e, in_flight = []\<rparr>\<rparr>"
      by (simp_all add: set_client_def)
    have "s' = s" using joins(1) assms(3,6) by (simp add: set_client_def)
    moreover have "received (display c) \<le> current_total s"
      using assms(9) [OF joins(4)] joins(5,6) d(1) assms(2,8) ring_rep_total [of "ring s"]
      by (simp add: session_rep_def current_total_def u64_le_iff)
    ultimately show ?thesis
      using step.connect [of "world_of s (hists w a) c" e] joins(1,3,6) d by (simp add: set_client_def world_of_upd)
  qed (use joins(1) assms(1,3,4,6) in \<open>simp add: set_client_def\<close>)
next
  case (serves j d k t wk fs cur' stop)
  show ?thesis
  proof (cases "j = i")
    case True
    with serves(1,2) assms(1,4) have d: "d = c"
        "c' = c\<lparr>link_to := Some (k\<lparr>conn_cursor := cur', in_flight := in_flight k @ outputs fs\<rparr>)\<rparr>"
      by (simp_all add: set_client_def)
    have "s' = s" "t = s" using serves(1,4) assms(2,3,6) d by (simp_all add: set_client_def)
    with step.serve [of "world_of s (hists w a) c" k wk fs cur' stop] serves(3,5) d serves(1) show ?thesis
      by (simp add: set_client_def world_of_upd del: server_writer.simps)
  qed (use serves(1) assms(1,3,4,6) in \<open>simp add: set_client_def\<close>)
next
  case (takes j d k off bs fs t' u)
  show ?thesis
  proof (cases "j = i")
    case True
    with takes assms(1-6) step.deliver [of "world_of s (hists w a) c" k off bs fs t' u] show ?thesis
      by (simp add: set_client_def world_of_upd)
  qed (use takes(1) assms(1,3,4,6) in \<open>simp add: set_client_def\<close>)
next
  case (fails j d k off bs fs t' err)
  show ?thesis
  proof (cases "j = i")
    case True
    with fails assms(1-6) step.deliver_error [of "world_of s (hists w a) c" k off bs fs t' err] show ?thesis
      by (simp add: set_client_def world_of_upd)
  qed (use fails(1) assms(1,3,4,6) in \<open>simp add: set_client_def\<close>)
next
  case (loses j d)
  show ?thesis
  proof (cases "j = i")
    case True
    with loses assms(1-6) step.lose [of "world_of s (hists w a) c"] show ?thesis
      by (simp add: set_client_def world_of_upd)
  qed (use loses(1) assms(1,3,4,6) in \<open>simp add: set_client_def\<close>)
qed

section \<open>The invariant\<close>

text \<open>Every ring buffer represents its session's history, and every client's world is in order.\<close>

definition sessions_ok :: "system \<Rightarrow> bool" where
  "sessions_ok w \<longleftrightarrow>
     server_ok (server w) \<and>
     (\<forall>a. (store (server w) a = None \<longrightarrow> hists w a = []) \<and>
          (\<forall>s. store (server w) a = Some s \<longrightarrow> session_rep s (hists w a)))"

definition clients_ok :: "system \<Rightarrow> bool" where
  "clients_ok w \<longleftrightarrow>
     (\<forall>i c. clients w i = Some c \<longrightarrow>
        (\<exists>s. store (server w) (session_at c) = Some s \<and> world_ok (world_of s (hists w (session_at c)) c)))"

definition arrivals_ok :: "system \<Rightarrow> bool" where
  "arrivals_ok w \<longleftrightarrow> (\<forall>j t. arrivals w j = Some t \<longrightarrow> arrival_ok (hists w) t)"

lemma sessions_okD:
  assumes "sessions_ok w"
  shows "server_ok (server w)" and "store (server w) a = None \<Longrightarrow> hists w a = []"
    and "store (server w) a = Some s \<Longrightarrow> session_rep s (hists w a)"
  using assms by (auto simp: sessions_ok_def)

lemma clients_okD:
  assumes "clients_ok w" and "clients w i = Some c"
  shows "\<exists>s. store (server w) (session_at c) = Some s \<and> world_ok (world_of s (hists w (session_at c)) c)"
  using assms by (simp add: clients_ok_def)

lemma sessions_ok_daemon:
  assumes ok: "sessions_ok w" and run: "run_step (server w) sv" and rings: "rings_kept (server w) sv"
    and w': "server w' = sv" "hists w' = hists w"
  shows "sessions_ok w'"
  unfolding sessions_ok_def
proof (intro conjI allI impI)
  show "server_ok (server w')" using run_step_ok [OF run sessions_okD(1) [OF ok]] w'(1) by simp
  fix a
  show "hists w' a = []" if none: "store (server w') a = None"
  proof (cases "store (server w) a")
    case None
    with sessions_okD(2) [OF ok] w'(2) show ?thesis by simp
  next
    case (Some s)
    with rings none w'(1) show ?thesis by (fastforce simp: rings_kept_def)
  qed
  show "session_rep s (hists w' a)" if s: "store (server w') a = Some s" for s
  proof (cases "store (server w) a")
    case None
    with run_step_new [OF run None] s w' sessions_okD(2) [OF ok None] show ?thesis by simp
  next
    case (Some t)
    with rings s w' have "ring s = ring t" by (fastforce simp: rings_kept_def)
    with sessions_okD(3) [OF ok Some] w'(2) show ?thesis by (simp add: session_rep_def)
  qed
qed

lemma sessions_ok_step:
  assumes "system_step w w'" and "sessions_ok w"
  shows "sessions_ok w'"
  using assms(1)
proof cases
  case (prints a s bs)
  have "server_ok (server w')"
    using run_step_ok [OF run_step.prints sessions_okD(1) [OF assms(2)]] prints(1) by simp
  moreover have "session_rep (pty_output s bs) (hists w a @ bs)"
    using session_log.rep_append [OF sessions_okD(3) [OF assms(2) prints(2)] prints(3)] .
  ultimately show ?thesis
    using prints sessions_okD(2,3) [OF assms(2)] by (auto simp: sessions_ok_def)
next
  case (works sv)
  with assms(2) show ?thesis by (auto intro: sessions_ok_daemon)
next
  case (moves j t mk hkdf sv t')
  from arrival_access_server [OF moves(3)] show ?thesis
  proof
    assume "sv = server w"
    with assms(2) moves(1) show ?thesis by (simp add: sessions_ok_def)
  next
    assume "run_step (server w) sv \<and> rings_kept (server w) sv"
    then show ?thesis by (intro sessions_ok_daemon [OF assms(2)]) (simp_all add: moves(1))
  qed
qed (use assms(2) in \<open>auto simp: sessions_ok_def set_client_def\<close>)

text \<open>Where a client comes from: it has just been started, or it was there with the same session.\<close>

lemma client_before:
  assumes "system_step w w'" and "clients w' i = Some c'"
  shows "(\<exists>out s. c' = new_client (session_at c') out \<and> written out = [] \<and>
            store (server w) (session_at c') = Some s) \<or>
         (\<exists>c. clients w i = Some c \<and> session_at c = session_at c')"
  using assms(1)
proof cases
  case (opens a s out j)
  with assms(2) show ?thesis by (cases "j = i") (auto simp: set_client_def)
qed (use assms(2) in \<open>auto simp: set_client_def simp del: server_writer.simps split: if_splits\<close>)

lemma stores_grow:
  assumes "system_step w w'" and "sessions_ok w" and "store (server w) a = Some s"
  shows "\<exists>s'. store (server w') a = Some s'"
  using assms(1)
proof cases
  case (works sv)
  with assms(3) show ?thesis by (auto simp: rings_kept_def)
next
  case (moves j t mk hkdf sv t')
  with assms(3) arrival_access_server [OF moves(3)] show ?thesis by (auto simp: rings_kept_def)
qed (use assms(3) in \<open>auto simp: set_client_def\<close>)

text \<open>A client that has just started is in order.\<close>

lemma new_client_ok:
  assumes "sessions_ok w" and "store (server w) a = Some s" and "written out = []"
  shows "world_ok (world_of s (hists w a) (new_client a out))"
  using sessions_okD(3) [OF assms(1,2)] showing_new [OF assms(3)]
  by (auto simp: world_ok_def screen_ok_def intro!: exI [of _ "[]"])

lemma clients_ok_step:
  assumes step: "system_step w w'" and ok: "sessions_ok w" "clients_ok w" "arrivals_ok w"
  shows "clients_ok w'"
  unfolding clients_ok_def
proof (intro allI impI)
  fix i c'
  assume c': "clients w' i = Some c'"
  let ?a = "session_at c'"
  note ok' = sessions_ok_step [OF step ok(1)]
  from client_before [OF step c']
  show "\<exists>s. store (server w') ?a = Some s \<and> world_ok (world_of s (hists w' ?a) c')"
  proof (elim disjE exE conjE)
    fix out s
    assume new: "c' = new_client ?a out" "written out = []" and s: "store (server w) ?a = Some s"
    from stores_grow [OF step ok(1) s] obtain s' where s': "store (server w') ?a = Some s'" by blast
    with new_client_ok [OF ok' s' new(2)] new(1) show ?thesis by metis
  next
    fix c
    assume c: "clients w i = Some c" "session_at c = ?a"
    from clients_okD [OF ok(2) c(1)] obtain s where
        s: "store (server w) ?a = Some s" "world_ok (world_of s (hists w ?a) c)"
      unfolding c(2) by blast
    from stores_grow [OF step ok(1) s(1)] obtain s' where s': "store (server w') ?a = Some s'" by blast
    have "step\<^sup>=\<^sup>= (world_of s (hists w ?a) c) (world_of s' (hists w' ?a) c')"
      by (rule client_step [OF c s(1) c' refl s' step sessions_okD(3) [OF ok(1) s(1)]])
        (use ok(3) in \<open>simp add: arrivals_ok_def\<close>)
    with s(2) s' step_ok show ?thesis by auto
  qed
qed

lemma arrivals_ok_step:
  assumes "system_step w w'" and "sessions_ok w" and "arrivals_ok w"
  shows "arrivals_ok w'"
  using assms(1)
proof cases
  case (prints a s bs)
  have "arrival_ok (hists w) t \<Longrightarrow> arrival_ok (hists w') t" for t
    by (erule arrival_ok_grows) (simp add: prints(1))
  with assms(3) prints(1) show ?thesis by (simp add: arrivals_ok_def)
next
  case (arrives j r lk sn)
  with assms(3) show ?thesis by (simp add: arrivals_ok_def)
next
  case (moves j t mk hkdf sv t')
  have "arrival_ok (hists w) t'"
    using arrival_ok_access [OF moves(3)] assms(3) moves(2) sessions_okD(3) [OF assms(2)]
    by (simp add: arrivals_ok_def)
  with assms(3) moves(1) show ?thesis by (simp add: arrivals_ok_def)
qed (use assms(3) in \<open>auto simp: arrivals_ok_def set_client_def simp del: server_writer.simps\<close>)

lemma system_reachable_ok: "system_reachable w \<Longrightarrow> sessions_ok w \<and> clients_ok w \<and> arrivals_ok w"
proof (induction rule: system_reachable.induct)
  case begins
  have "store empty_server a = None" for a by (simp add: empty_server_def)
  then show ?case
    by (simp add: sessions_ok_def clients_ok_def arrivals_ok_def start_system_def server_ok_empty)
next
  case (goes_on w w')
  then show ?case using sessions_ok_step clients_ok_step arrivals_ok_step by blast
qed

text \<open>The daemon of a reachable system is one that theory \<open>Daemon_Run\<close> reaches.\<close>

lemma system_reachable_daemon: "system_reachable w \<Longrightarrow> run_reachable (server w)"
proof (induction rule: system_reachable.induct)
  case begins
  show ?case by (simp add: start_system_def run_reachable.started)
next
  case (goes_on w w')
  from goes_on(2) show ?case
  proof cases
    case (prints a s bs)
    with run_reachable.runs [OF goes_on(3) run_step.prints] show ?thesis by simp
  next
    case (works sv)
    with run_reachable.runs [OF goes_on(3)] show ?thesis by simp
  next
    case (moves j t mk hkdf sv t')
    with arrival_access_server [OF moves(3)] goes_on(3) run_reachable.runs show ?thesis by auto
  qed (use goes_on(3) in \<open>simp_all add: set_client_def\<close>)
qed

text \<open>A connection may make any number of its accesses in a row.\<close>

lemma system_reachable_moves:
  "system_reachable w \<Longrightarrow> arrivals w j = Some t \<Longrightarrow> arriving_run mk hkdf k (server w, t) = (sv, t') \<Longrightarrow>
     system_reachable (w\<lparr>server := sv, arrivals := (arrivals w)(j \<mapsto> t')\<rparr>)"
proof (induction k arbitrary: w t)
  case 0
  then have "(arrivals w)(j \<mapsto> t') = arrivals w" and "sv = server w" by (simp_all add: fun_upd_idem)
  with 0(1) show ?case by simp
next
  case (Suc k)
  obtain sv1 t1 where t1: "arrival_access mk hkdf t (server w) = (sv1, t1)" by force
  let ?w = "w\<lparr>server := sv1, arrivals := (arrivals w)(j \<mapsto> t1)\<rparr>"
  have "system_reachable ?w" by (rule system_reachable.goes_on [OF Suc.prems(1) system_step.moves [OF Suc.prems(2) t1]])
  moreover have "arrivals ?w j = Some t1" by simp
  moreover have "arriving_run mk hkdf k (server ?w, t1) = (sv, t')" using Suc.prems(3) t1 by simp
  ultimately have "system_reachable (?w\<lparr>server := sv, arrivals := (arrivals ?w)(j \<mapsto> t')\<rparr>)" by (rule Suc.IH)
  moreover have "?w\<lparr>server := sv, arrivals := (arrivals ?w)(j \<mapsto> t')\<rparr> =
      w\<lparr>server := sv, arrivals := (arrivals w)(j \<mapsto> t')\<rparr>" by (cases w) (simp add: fun_eq_iff)
  ultimately show ?case by (simp only:)
qed

lemma system_reachable_client:
  assumes "system_reachable w" and "clients w i = Some c"
  obtains s where "store (server w) (session_at c) = Some s"
    and "world_ok (world_of s (hists w (session_at c)) c)"
  using clients_okD assms system_reachable_ok by blast

section \<open>A run\<close>

definition demo_client :: client where
  "demo_client = \<lparr>session_at = 0, display = \<lparr>writer = open_sink\<lparr>written := [104, 105]\<rparr>, received = 2\<rparr>,
     running = True, link_to = Some \<lparr>conn_cursor = 2, conn_epoch = 1, in_flight = []\<rparr>\<rparr>"

text \<open>The session there is, its client connects and the shell prints two bytes.\<close>

definition demo_joined_server :: server where
  "demo_joined_server = on_session 0 (\<lambda>s. pty_output s [104, 105])
     (on_session 0 (\<lambda>s. fst (become_active s)) demo_server)"

definition demo_joined_session :: session where
  "demo_joined_session = pty_output (fst (become_active (new_session (hex8 7) ''/bin/sh'' 80 24 16 5 [1]))) [104, 105]"

lemma demo_joined_store: "store demo_joined_server 0 = Some demo_joined_session"
  by (simp add: demo_joined_server_def demo_joined_session_def demo_server_def Let_def)

lemma demo_joined_live: "live_session demo_joined_server (hex8 7) = Some (0, demo_joined_session)"
  by (simp add: demo_joined_server_def demo_joined_session_def demo_server_def Let_def
      live_session_def reg_get_def session_defs new_session_def)

definition demo_opened :: client where
  "demo_opened = (new_client 0 open_sink)\<lparr>link_to := Some \<lparr>conn_cursor = 0, conn_epoch = 1, in_flight = []\<rparr>\<rparr>"

lemma demo_system_served:
  "\<exists>w k. system_reachable w \<and> clients w 0 = Some (new_client 0 open_sink) \<and> hists w 0 = [] \<and>
       server w = on_session 0 (\<lambda>s. fst (become_active s)) demo_server \<and>
       arrivals w 0 = Some (Serving k 1) \<and> at_addr k = 0 \<and> at_offset k = 0"
proof -
  let ?w1 = "start_system\<lparr>server := demo_server\<rparr>"
  have st: "store demo_server 0 = Some (new_session (hex8 7) ''/bin/sh'' 80 24 16 5 [1])"
    by (simp add: demo_server_def Let_def)
  have "rings_kept (server start_system) demo_server"
    by (simp add: rings_kept_def start_system_def empty_server_def)
  with run_step.requests [OF demo_created] have "system_step start_system ?w1"
    by (intro system_step.works) (simp_all add: start_system_def)
  with system_reachable.begins have r1: "system_reachable ?w1" by (rule system_reachable.goes_on)
  let ?w2 = "set_client 0 (new_client 0 open_sink) ?w1"
  have "system_step ?w1 ?w2" by (rule system_step.opens) (simp_all add: st open_sink_def)
  with r1 have r2: "system_reachable ?w2" by (rule system_reachable.goes_on)
  from demo_connects obtain r k where
    k: "tcp_connect (\<lambda>_. tag_cipher) (\<lambda>_ _ _ _. []) demo_server r open_sink (replicate 32 2) =
      (on_session 0 (\<lambda>s. fst (become_active s)) demo_server, Inr (k, 1))" "at_addr k = 0" "at_offset k = 0"
    by blast
  let ?sv3 = "on_session 0 (\<lambda>s. fst (become_active s)) demo_server"
  let ?a = "?w2\<lparr>arrivals := (arrivals ?w2)(0 \<mapsto> Greeting r open_sink (replicate 32 2))\<rparr>"
  from r2 system_step.arrives have ra: "system_reachable ?a" by (rule system_reachable.goes_on)
  have at: "arrivals ?a 0 = Some (Greeting r open_sink (replicate 32 2))" by simp
  have "arriving_run (\<lambda>_. tag_cipher) (\<lambda>_ _ _ _. []) 8 (server ?a, Greeting r open_sink (replicate 32 2)) =
      (?sv3, Serving k 1)"
    using arriving_is_tcp_connect [of "\<lambda>_. tag_cipher" "\<lambda>_ _ _ _. []" demo_server r] k(1)
    by (simp add: set_client_def)
  from system_reachable_moves [OF ra at this]
  have "system_reachable (?a\<lparr>server := ?sv3, arrivals := (arrivals ?a)(0 \<mapsto> Serving k 1)\<rparr>)" .
  then show ?thesis using k(2,3)
    by (intro exI [where x = "?a\<lparr>server := ?sv3, arrivals := (arrivals ?a)(0 \<mapsto> Serving k 1)\<rparr>"] exI [where x = k])
      (simp add: set_client_def start_system_def)
qed

lemma demo_system_joined:
  "\<exists>w. system_reachable w \<and> clients w 0 = Some demo_opened \<and> hists w 0 = [104, 105] \<and>
       server w = demo_joined_server"
proof -
  from demo_system_served obtain w k where w: "system_reachable w" "clients w 0 = Some (new_client 0 open_sink)"
      "hists w 0 = []" "server w = on_session 0 (\<lambda>s. fst (become_active s)) demo_server"
      "arrivals w 0 = Some (Serving k 1)" "at_addr k = 0" "at_offset k = 0" by blast
  let ?w3 = "set_client 0 demo_opened (w\<lparr>arrivals := (arrivals w)(0 := None)\<rparr>)"
  have "system_step w ?w3"
    unfolding demo_opened_def
    by (rule system_step.joins [of w 0 "new_client 0 open_sink" 0 k 1, unfolded w(7), OF w(2) _ w(5)])
      (simp_all add: w(6) new_output_def)
  with w(1) have r3: "system_reachable ?w3" by (rule system_reachable.goes_on)
  let ?w4 = "?w3\<lparr>server := demo_joined_server, hists := (hists ?w3)(0 := hists ?w3 0 @ [104, 105])\<rparr>"
  have "\<exists>s. store (server ?w3) 0 = Some s" by (simp add: set_client_def w(4) demo_server_def Let_def)
  then have "system_step ?w3 ?w4"
    using system_step.prints [of ?w3 0 _ "[104, 105]"] w(3,4)
    by (auto simp: set_client_def demo_joined_server_def)
  with r3 have "system_reachable ?w4" by (rule system_reachable.goes_on)
  then show ?thesis
    by (rule exI [where x = ?w4, OF conjI]) (simp add: set_client_def w(3))
qed

lemma demo_system:
  "\<exists>w. system_reachable w \<and> clients w 0 = Some demo_client \<and> hists w 0 = [104, 105] \<and>
       server w = demo_joined_server"
proof -
  from demo_system_joined obtain w where w: "system_reachable w" "clients w 0 = Some demo_opened"
      "hists w 0 = [104, 105]" "server w = demo_joined_server" by blast
  have st: "store (server w) 0 = Some demo_joined_session" by (simp add: w(4) demo_joined_store)
  have wr: "server_writer log_frame [] 0 1 [observe demo_joined_session DataReady] =
      ([Output 0 [104, 105]], 2, None)"
    by (simp add: demo_joined_session_def observe_def session_defs new_session_def ring_new_def
        ring_append_def ring_read_from_def ring_total_def MAX_OUTPUT_BYTES_def log_frame_fold)
  let ?c = "demo_opened\<lparr>link_to := Some \<lparr>conn_cursor = 2, conn_epoch = 1, in_flight = [(0, [104, 105])]\<rparr>\<rparr>"
  have "system_step w (set_client 0 ?c w)"
    using system_step.serves [of w 0 demo_opened "\<lparr>conn_cursor = 0, conn_epoch = 1, in_flight = []\<rparr>"
        demo_joined_session DataReady "[Output 0 [104, 105]]" 2 None] wr st w(2)
    by (simp add: demo_opened_def del: server_writer.simps)
  with w(1) have r: "system_reachable (set_client 0 ?c w)" by (rule system_reachable.goes_on)
  let ?t = "\<lparr>writer = open_sink\<lparr>written := [104, 105]\<rparr>, received = 2\<rparr>"
  have "accept (display ?c) 0 [104, 105] = (?t, Inr ())"
    by (simp add: demo_opened_def accept_def new_output_def open_sink_def write_all_def checked_add_def
        saturating_sub_def)
  then have "system_step (set_client 0 ?c w) (set_client 0 demo_client (set_client 0 ?c w))"
    using system_step.takes [of "set_client 0 ?c w" 0 ?c _ 0 "[104, 105]" "[]" ?t "()"]
    by (simp add: set_client_def demo_client_def demo_opened_def new_client_def)
  with r have "system_reachable (set_client 0 demo_client (set_client 0 ?c w))"
    by (rule system_reachable.goes_on)
  then show ?thesis using w(3,4)
    by (intro exI [where x = "set_client 0 demo_client (set_client 0 ?c w)"]) (simp add: set_client_def)
qed

section \<open>Properties\<close>

text \<open>C1. Every client sees its own session, exactly once. Whatever requests, connections, ends of
  shells and new sessions the daemon serves, and however the clients' connections break and are
  resumed, what a running client has written to its terminal is the output of its session's
  shell from its beginning to the client's committed offset, each byte once and in order, with
  a notice in the place of every run of bytes that is left out.\<close>

theorem every_client_sees_its_session:
  assumes "system_reachable w" and "clients w i = Some c" and "running c"
  shows "\<exists>s ps. store (server w) (session_at c) = Some s \<and> session_rep s (hists w (session_at c)) \<and>
     written (writer (display c)) = render (hists w (session_at c)) ps \<and>
     tiles 0 ps (unat (received (display c))) \<and>
     unat (received (display c)) \<le> length (hists w (session_at c))"
proof -
  from assms(1,2) obtain s where
      s: "store (server w) (session_at c) = Some s" "world_ok (world_of s (hists w (session_at c)) c)"
    by (rule system_reachable_client)
  with assms(3) show ?thesis by (auto simp: world_ok_def screen_ok_def showing_def)
qed

theorem every_client_sees_its_session_witness:
  "\<exists>w c ps. system_reachable w \<and> clients w 0 = Some c \<and> written (writer (display c)) = [104, 105] \<and>
     render [104, 105] ps = [104, 105] \<and> tiles 0 ps 2"
proof -
  from demo_system obtain w where w: "system_reachable w" "clients w 0 = Some demo_client"
      "hists w 0 = [104, 105]" by blast
  from every_client_sees_its_session [OF w(1,2)] w(3) obtain ps where
      "[104, 105] = render [104, 105] ps" "tiles 0 ps 2" by (auto simp: demo_client_def)
  with w(1,2) show ?thesis
    by (intro exI [of _ w] exI [of _ demo_client] exI [of _ ps]) (simp add: demo_client_def)
qed

text \<open>C4. What a client's user sees does not depend on anybody else: seen from one client, every
  step of the whole, be it of the daemon, of another session or of another client, is a step of
  the viewer that shows one log, or invisible, and the viewer started with an empty screen.\<close>

theorem every_client_is_a_viewer:
  assumes "system_reachable w" and "system_step w w'"
    and "clients w i = Some c" and "clients w' i = Some c'" and "session_at c' = session_at c"
    and "store (server w) (session_at c) = Some s" and "store (server w') (session_at c) = Some s'"
  shows "viewer_step\<^sup>=\<^sup>= (view (world_of s (hists w (session_at c)) c))
           (view (world_of s' (hists w' (session_at c)) c'))"
proof -
  let ?a = "session_at c"
  from assms(1,3) obtain t where "store (server w) ?a = Some t" "world_ok (world_of t (hists w ?a) c)"
    by (rule system_reachable_client)
  with assms(6) have "world_ok (world_of s (hists w ?a) c)" by simp
  moreover have "step\<^sup>=\<^sup>= (world_of s (hists w ?a) c) (world_of s' (hists w' ?a) c')"
    by (rule client_step [OF assms(3) refl assms(6,4,5,7,2)])
      (use system_reachable_ok [OF assms(1)] assms(6) in \<open>auto simp: arrivals_ok_def dest: sessions_okD(3)\<close>)
  ultimately show ?thesis using viewing.simulates by auto
qed

theorem every_client_is_a_viewer_witness:
  "\<exists>w c s. system_reachable w \<and> clients w 0 = Some c \<and> transcript (view (world_of s (hists w 0) c)) = [104, 105] \<and>
     viewer_step\<^sup>=\<^sup>= (view (world_of s (hists w 0) c))
       (view (world_of (pty_output s [33]) [104, 105, 33] c))"
proof -
  from demo_system obtain w where w: "system_reachable w" "clients w 0 = Some demo_client"
      "hists w 0 = [104, 105]" "server w = demo_joined_server" by blast
  have st: "store (server w) 0 = Some demo_joined_session" by (simp add: w(4) demo_joined_store)
  from system_step.prints [OF st, where bs = "[33]"] have "system_step w
      (w\<lparr>server := on_session 0 (\<lambda>s. pty_output s [33]) (server w), hists := (hists w)(0 := hists w 0 @ [33])\<rparr>)"
    by (simp add: w(3))
  from every_client_is_a_viewer [OF w(1) this w(2), of demo_client demo_joined_session] w(2,3) st
  have "viewer_step\<^sup>=\<^sup>= (view (world_of demo_joined_session (hists w 0) demo_client))
      (view (world_of (pty_output demo_joined_session [33]) [104, 105, 33] demo_client))"
    by (simp add: demo_client_def)
  moreover have "transcript (view (world_of demo_joined_session (hists w 0) demo_client)) = [104, 105]"
    by (simp add: demo_client_def view_def)
  ultimately show ?thesis using w(1,2) by blast
qed

text \<open>C6. Every client can catch up: in any reachable state, if the connection of a running client is
  the current one of its session and is not cut, its writer sends, within as many turns as the
  session has bytes of output, frames that the client accepts one and all, after those in flight,
  and then it has committed the whole output; it shows it byte for byte if the ring buffer still
  held it. The other sessions and clients have no part in it.\<close>

theorem every_client_catches_up:
  assumes "system_reachable w" and "clients w i = Some c" and "running c"
    and "reliable (writer (display c))" and "link_to c = Some k"
    and "store (server w) (session_at c) = Some s" and "is_current s (conn_epoch k)"
    and "server_writer log_frame [] (conn_cursor k) (conn_epoch k)
           (replicate (length (hists w (session_at c))) (observe s wk)) = (fs, cur', stop)"
  shows "\<exists>t. feed accept (display c) (in_flight k @ outputs fs) = (t, Inr ()) \<and>
             unat (received t) = length (hists w (session_at c)) \<and>
             (length (hists w (session_at c)) \<le> r_cap (ring s) \<longrightarrow>
                written (writer t) = hists w (session_at c))"
proof -
  from assms(1,2) obtain x where
      "store (server w) (session_at c) = Some x" "world_ok (world_of x (hists w (session_at c)) c)"
    by (rule system_reachable_client)
  with assms(6) have "world_ok (world_of s (hists w (session_at c)) c)" by simp
  from ok_connection_catches_up [OF this, of k wk fs cur' stop] assms(3-5,7,8) show ?thesis by simp
qed

theorem every_client_catches_up_witness:
  "\<exists>w c s fs t. system_reachable w \<and> clients w 0 = Some c \<and> store (server w) 0 = Some s \<and>
     fst (server_writer log_frame [] 0 1 [observe s DataReady, observe s DataReady]) = fs \<and>
     feed accept (display c) (outputs fs) = (t, Inr ()) \<and> written (writer t) = [104, 105]"
proof -
  from demo_system_joined obtain w where w: "system_reachable w" "clients w 0 = Some demo_opened"
      "hists w 0 = [104, 105]" "server w = demo_joined_server" by blast
  have st: "store (server w) 0 = Some demo_joined_session" by (simp add: w(4) demo_joined_store)
  let ?obs = "[observe demo_joined_session DataReady, observe demo_joined_session DataReady]"
  have c: "running demo_opened" "reliable (writer (display demo_opened))" "session_at demo_opened = 0"
      "link_to demo_opened = Some \<lparr>conn_cursor = 0, conn_epoch = 1, in_flight = []\<rparr>"
    by (simp_all add: demo_opened_def new_output_def)
  have s: "is_current demo_joined_session 1" "r_cap (ring demo_joined_session) = 16"
    by (simp_all add: demo_joined_session_def session_defs new_session_def ring_new_def ring_append_def)
  have two: "replicate (length (hists w (session_at demo_opened))) (observe demo_joined_session DataReady) = ?obs"
    by (simp add: c(3) w(3) numeral_2_eq_2)
  obtain fs cur' stop where fs: "server_writer log_frame [] 0 1 ?obs = (fs, cur', stop)"
    by (cases "server_writer log_frame [] 0 1 ?obs") blast
  from every_client_catches_up [OF w(1,2) c(1,2,4), of demo_joined_session DataReady fs cur' stop] st s fs w(3)
  obtain t where "feed accept (display demo_opened) (outputs fs) = (t, Inr ())" "written (writer t) = [104, 105]"
    unfolding two c(3) by (auto simp del: server_writer.simps)
  with w(1,2) st fs show ?thesis
    by (intro exI [of _ w] exI [of _ demo_opened] exI [of _ demo_joined_session] exI [of _ fs] exI [of _ t])
      (simp del: server_writer.simps)
qed

text \<open>C2. A session is delivered from end to end, to any of any number of clients. If a running client
  connects in any reachable state of the system, with its session's key, and the connection holds
  while the shell goes on and until it has ended, then the bytes \<open>handle_tcp\<close> sends make
  \<open>connect_once\<close> return that the session has ended, with the whole output committed, in order on
  the terminal with notices for what the ring buffer had dropped, and byte for byte if it could
  hold it all, whatever the client sends meanwhile.\<close>

theorem session_delivered_to_client:
  assumes "system_reachable w" and "clients w i = Some c" and "running c" and "reliable (writer (display c))"
    and "live_session (server w) sid = Some (session_at c, s)"
    and "length cn = NONCE_LEN" and "length sn = NONCE_LEN"
    and "\<And>k. cipher_ok (mk k)" and "\<And>k. encrypts (mk k)"
    and "held_to_end (r_cap (ring s)) (snd (become_active s)) (hists w (session_at c)) h obs"
    and "length obs + 2 < 2 ^ 64"
    and "v = \<lparr>arriving = client_opening mk hkdf sid (current_psk s) cn sn (received (display c)) @ later,
      reply_to = open_sink, server_nonce = sn, reads = rs, writes = obs\<rparr>"
    and "dial_ok att" and "outgoing att = open_sink" and "our_nonce att = cn" and "\<not> writer_first att"
    and "reader_turns att = replicate m going_turn" and "length obs \<le> m"
  shows "\<exists>sv' l t ps. handle_tcp mk hkdf v (server w) = (sv', Inr l) \<and>
    connect_once mk hkdf sid (current_psk s) (display c) (att\<lparr>incoming := written (fst l)\<rparr>) =
      (t, Some (Inr SessionEnded)) \<and>
    unat (received t) = length h \<and> written (writer t) = render h ps \<and> tiles 0 ps (length h) \<and>
    (length h \<le> r_cap (ring s) \<longrightarrow> written (writer t) = h)"
proof -
  from assms(1,2) obtain x where
      x: "store (server w) (session_at c) = Some x" "world_ok (world_of x (hists w (session_at c)) c)"
    by (rule system_reachable_client)
  with live_session_SomeD [OF assms(5)] have ok: "world_ok (world_of s (hists w (session_at c)) c)" by simp
  then have s: "session_rep s (hists w (session_at c))" by (simp add: world_ok_def)
  have so: "in_order (r_cap (ring s)) (hists w (session_at c)) (display c)"
    using ok assms(3,4) by (auto simp: world_ok_def screen_ok_def in_order_def retained_def)
  note sid = live_ident_fits [OF run_reachable_runs [OF system_reachable_daemon [OF assms(1)]] assms(5)]
  from held_attempt_ends [OF so assms(5) refl s sid assms(6-18)] obtain sv' l t where
      t: "handle_tcp mk hkdf v (server w) = (sv', Inr l)"
        "connect_once mk hkdf sid (current_psk s) (display c) (att\<lparr>incoming := written (fst l)\<rparr>) =
          (t, Some (Inr SessionEnded))" "in_order (r_cap (ring s)) h t" "unat (received t) = length h" by blast
  from in_order_whole [OF t(3,4)] t show ?thesis by blast
qed

theorem session_delivered_to_client_witness:
  "\<exists>w v sv' l t. system_reachable w \<and> hists w 0 = [104, 105] \<and>
     handle_tcp (\<lambda>_. tag_cipher) (\<lambda>_ _ _ _. []) v (server w) = (sv', Inr l) \<and>
     connect_once (\<lambda>_. tag_cipher) (\<lambda>_ _ _ _. []) (hex8 7) [1] (new_output open_sink)
       ((plain_attempt (replicate 32 1) 4)\<lparr>incoming := written (fst l)\<rparr>) = (t, Some (Inr SessionEnded)) \<and>
     written (writer t) = [104, 105]"
proof -
  from demo_system_joined obtain w where w: "system_reachable w" "clients w 0 = Some demo_opened"
      "hists w 0 = [104, 105]" "server w = demo_joined_server" by blast
  have live: "live_session (server w) (hex8 7) = Some (session_at demo_opened, demo_joined_session)"
    by (simp add: w(4) demo_joined_live demo_opened_def)
  have n: "length (replicate 32 1 :: bytes) = NONCE_LEN" "length (replicate 32 2 :: bytes) = NONCE_LEN"
    by (simp_all add: NONCE_LEN_def)
  have c: "running demo_opened" "reliable (writer (display demo_opened))" "session_at demo_opened = 0"
      "display demo_opened = new_output open_sink" "current_psk demo_joined_session = [1]"
      "r_cap (ring demo_joined_session) = 16"
    by (simp_all add: demo_opened_def new_output_def demo_joined_session_def session_defs new_session_def
        ring_new_def ring_append_def)
  have att: "dial_ok (plain_attempt (replicate 32 1) 4)" "outgoing (plain_attempt (replicate 32 1) 4) = open_sink"
    "our_nonce (plain_attempt (replicate 32 1) 4) = replicate 32 1" "\<not> writer_first (plain_attempt (replicate 32 1) 4)"
    "reader_turns (plain_attempt (replicate 32 1) 4) = replicate 4 going_turn"
    by (simp_all add: plain_attempt_def)
  have "session_rep demo_joined_session (hists w 0)"
    using system_reachable_ok [OF w(1)] demo_joined_store w(4) by (auto dest: sessions_okD(3))
  from held_while_idle [OF this] live_session_SomeD [OF live] obtain obs where
      obs: "held_to_end (r_cap (ring demo_joined_session)) (snd (become_active demo_joined_session))
        (hists w (session_at demo_opened)) (hists w 0) obs" "length obs = 4"
    by (auto simp: c(3) w(3) is_ended_def)
  then have "length obs + 2 < 2 ^ 64" "length obs \<le> 4" by simp_all
  from session_delivered_to_client [OF w(1,2) c(1,2) live n tag_cipher_ok tag_cipher_encrypts obs(1) this(1) refl att this(2),
      of "\<lambda>_ _ _ _. []" "[]" "[]"]
  show ?thesis unfolding c(3,4,5) using w(1,3) c(6) by (elim exE conjE) (intro exI conjI, assumption+, simp)
qed

text \<open>C22. The offset a connection was checked for stays valid until it is served. The check against
  the output there is and \<open>become_active\<close> are separated by the authentication, during which anything
  may happen, on other connections too; still, when a connection starts to be served, its
  writer's cursor is within the output of its session.\<close>

theorem served_offset_is_valid:
  assumes "system_reachable w" and "arrivals w j = Some (Serving k e)"
    and "store (server w) (at_addr k) = Some s"
  shows "at_offset k \<le> current_total s"
proof -
  from system_reachable_ok [OF assms(1)] assms(2) have "arrival_ok (hists w) (Serving k e)"
    unfolding arrivals_ok_def by blast
  moreover from system_reachable_ok [OF assms(1)] assms(3) have "session_rep s (hists w (at_addr k))"
    by (blast intro: sessions_okD(3))
  ultimately show ?thesis using ring_rep_total [of "ring s"]
    by (simp add: session_rep_def current_total_def u64_le_iff)
qed

theorem served_offset_is_valid_witness:
  "\<exists>w k s. system_reachable w \<and> arrivals w 0 = Some (Serving k 1) \<and> store (server w) 0 = Some s \<and>
     at_offset k \<le> current_total s"
proof -
  from demo_system_served obtain w k where w: "system_reachable w" "arrivals w 0 = Some (Serving k 1)"
      "at_addr k = 0" "server w = on_session 0 (\<lambda>s. fst (become_active s)) demo_server" by blast
  then obtain s where "store (server w) 0 = Some s" by (auto simp: demo_server_def Let_def)
  with served_offset_is_valid [OF w(1,2), of s] w show ?thesis by auto
qed

end
