(* ===== verification/Typing.thy ===== *)
theory Typing
  imports Delivery
begin

text \<open>
  The keys across reconnects: what is typed into one client after another connection has broken,
  and what of it all the shell's PTY is fed. Connections that are read one after the other
  deliver each key at most once and in order. A superseded connection, however, is still read
  until its writer notices, and then old input can come after new.
\<close>

section \<open>The writer of the client and the reader of the server\<close>

lemma sent_input_prefix: "prefix gs fs \<Longrightarrow> prefix (sent_input gs) (sent_input fs)"
  by (auto simp: prefix_def)

text \<open>
  What a link carries after some frames have been put on it, the last of which may have broken it:
  the beginning of their bytes, or all of them. The input among them begins the keys, or
  (\<open>whole\<close>) is all of the keys, less a prefix byte that is held back.
\<close>

definition carries :: "link \<Rightarrow> link \<Rightarrow> bytes \<Rightarrow> bool \<Rightarrow> bool" where
  "carries l l' keys whole \<longleftrightarrow>
     (\<exists>fs cs sl b. traverse frame_wire (snd l) fs = (sl, Inr cs) \<and> list_all well_formed fs \<and>
        written (fst l') = written (fst l) @ b \<and> prefix b (concat cs) \<and> prefix (sent_input fs) keys \<and>
        (whole \<longrightarrow> b = concat cs \<and> (\<exists>q. sent_input fs @ held q = keys)))"

lemma carries_nothing: "carries l l keys False" "carries l l (held q) True"
  unfolding carries_def by (rule exI [of _ "[]"], simp; blast)+

lemma put_frame_done:
  assumes "put_frame l f = (l1, True)"
  shows "\<exists>c. frame_wire (snd l) f = (snd l1, Inr c) \<and> written (fst l1) = written (fst l) @ c"
  using assms write_frame_InrD [of "fst l" "snd l" f "fst l1" "snd l1"]
  by (auto simp: put_frame_def frame_wire_def write_frame_reliable [OF reliable_open_sink(1)]
      split: prod.splits sum.splits)

lemma put_frame_broken:
  assumes "put_frame l f = (l1, False)"
  shows "written (fst l1) = written (fst l) \<or>
    (\<exists>c b. frame_wire (snd l) f = (snd l1, Inr c) \<and> written (fst l1) = written (fst l) @ b \<and> prefix b c)"
proof -
  have part: "\<exists>b. written w' = written w @ b \<and> prefix b bs \<and> (ok \<longrightarrow> b = bs)" if "write_all w bs = (w', ok)" for w bs w' ok
    using that by (auto simp: write_all_def take_is_prefix split: option.splits if_splits)
  obtain w s where l: "l = (w, s)" by force
  obtain s' r where sl: "seal s (encode f) = (s', r)" by force
  show ?thesis
  proof (cases r)
    case (Inr ct)
    show ?thesis
    proof (cases "length ct > unat MAX_RECORD")
      case False
      then have c: "frame_wire s f = (s', Inr (record_bytes ct))"
        using sl Inr write_frame_reliable [OF reliable_open_sink(1), of s f s' ct]
        by (simp add: frame_wire_def)
      let ?hd = "u32_to_be (word_of_nat (length ct))"
      obtain w1 ok1 where w1: "write_all w ?hd = (w1, ok1)" by force
      obtain w2 ok2 where w2: "write_all w1 ct = (w2, ok2)" by force
      from part [OF w1] obtain b1 where b1: "written w1 = written w @ b1" "prefix b1 ?hd" "ok1 \<longrightarrow> b1 = ?hd" by blast
      from part [OF w2] obtain b2 where b2: "written w2 = written w1 @ b2" "prefix b2 ct" by blast
      have "prefix b1 (record_bytes ct)" using b1(2) by (auto simp: record_bytes_def intro: prefix_prefix)
      moreover have "prefix (?hd @ b2) (record_bytes ct)" using b2(2) by (simp add: record_bytes_def)
      ultimately show ?thesis
        using assms l sl Inr False w1 w2 b1 b2 c
        by (auto simp: put_frame_def write_frame_def split: bool.splits if_splits)
    qed (use assms l sl Inr in \<open>auto simp: put_frame_def write_frame_def\<close>)
  qed (use assms l sl in \<open>auto simp: put_frame_def write_frame_def\<close>)
qed

lemma carries_more:
  assumes "put_frame l f = (l1, True)" and "well_formed f" and "carries l1 l' keys whole"
  shows "carries l l' (sent_input [f] @ keys) whole"
proof -
  from put_frame_done [OF assms(1)] obtain c where
      c: "frame_wire (snd l) f = (snd l1, Inr c)" "written (fst l1) = written (fst l) @ c" by blast
  from assms(3) obtain fs cs sl b where
      h: "traverse frame_wire (snd l1) fs = (sl, Inr cs)" "list_all well_formed fs"
        "written (fst l') = written (fst l1) @ b" "prefix b (concat cs)" "prefix (sent_input fs) keys"
        "whole \<longrightarrow> b = concat cs \<and> (\<exists>q. sent_input fs @ held q = keys)"
    unfolding carries_def by blast
  have "sent_input (f # fs) = sent_input [f] @ sent_input fs" by (cases f) simp_all
  with c h assms(2) show ?thesis
    unfolding carries_def
    by (intro exI [of _ "f # fs"] exI [of _ "c # cs"] exI [of _ sl] exI [of _ "c @ b"]) auto
qed

lemma carries_broken:
  assumes "put_frame l f = (l1, False)" and "well_formed f"
  shows "carries l l1 (sent_input [f] @ keys) False"
  using put_frame_broken [OF assms(1)]
proof (elim disjE exE conjE)
  assume "written (fst l1) = written (fst l)"
  then show ?thesis unfolding carries_def by (intro exI [of _ "[]"]) simp
next
  fix c b
  assume "frame_wire (snd l) f = (snd l1, Inr c)" "written (fst l1) = written (fst l) @ b" "prefix b c"
  with assms(2) show ?thesis
    unfolding carries_def by (intro exI [of _ "[f]"] exI [of _ "[c]"] exI [of _ "snd l1"] exI [of _ b]) auto
qed

lemma carries_turn:
  assumes "put_frame l f = (l1, ok)" and "well_formed f" and "sent_input [f] = []"
    and "ok \<Longrightarrow> carries l1 l' keys whole" and "\<not> ok \<Longrightarrow> l' = l1 \<and> \<not> whole"
  shows "carries l l' keys whole"
  using assms carries_more [of l f l1 l' keys whole] carries_broken [of l f l1 keys] by (cases ok) auto

text \<open>So it is with what the client's writer puts on any link, whatever ends it.\<close>

lemma client_writer_carries:
  "client_writer put_frame l p evs = (l', res) \<Longrightarrow> carries l l' (held p @ typed evs) (res = None)"
proof (induction "put_frame" l p evs arbitrary: l' res rule: client_writer.induct)
  case (3 l p bs evs)
  show ?case
  proof (cases "scan_keys p [] bs")
    case None
    with 3 carries_nothing(1) [of l] show ?thesis by auto
  next
    case (Some r)
    obtain p1 out where r: "r = (p1, out)" by force
    have keys: "held p @ bs @ typed evs = out @ held p1 @ typed evs"
      using scan_keys_transparent [of p "[]" bs p1 out] Some r by simp
    show ?thesis
    proof (cases "out = []")
      case True
      with 3 Some r have "carries l l' (held p1 @ typed evs) (res = None)" by simp
      with keys True show ?thesis by (simp only: typed.simps append_Nil)
    next
      case out: False
      obtain l1 ok where put: "put_frame l (Data out) = (l1, ok)" by (cases "put_frame l (Data out)") blast
      show ?thesis
      proof (cases ok)
        case True
        with 3 Some r out put have "carries l1 l' (held p1 @ typed evs) (res = None)" by simp
        from carries_more [OF _ _ this, of l "Data out"] put True
        have "carries l l' (out @ held p1 @ typed evs) (res = None)" by simp
        with keys show ?thesis by (simp only: typed.simps)
      next
        case False
        with put carries_broken [of l "Data out" l1 "held p1 @ typed evs"]
        have "carries l l1 (out @ held p1 @ typed evs) False" by simp
        moreover have "l' = l1" "res = Some Disconnected" using 3 Some r out put False by auto
        ultimately show ?thesis using keys by (simp only: typed.simps) simp
      qed
    qed
  qed
next
  case (1 l p)
  then show ?case using carries_nothing(2) [of l p] by simp
next
  case (5 l p c r evs)
  obtain l1 ok where put: "put_frame l (Resize c r) = (l1, ok)" by (cases "put_frame l (Resize c r)") blast
  show ?case by (rule carries_turn [OF put]) (use 5 put in \<open>auto split: if_splits\<close>)
next
  case (6 l p wanted evs)
  obtain l1 ok where put: "put_frame l Pong = (l1, ok)" by (cases "put_frame l Pong") blast
  show ?case
  proof (cases wanted)
    case True
    show ?thesis by (rule carries_turn [OF put]) (use 6 put True in \<open>auto split: if_splits\<close>)
  next
    case False
    with 6 have "l' = l" "res \<noteq> None" by auto
    then show ?thesis by (simp only: carries_nothing(1) simp_thms)
  qed
next
  case (7 l p off evs)
  obtain l1 ok where put: "put_frame l (Ack off) = (l1, ok)" by (cases "put_frame l (Ack off)") blast
  obtain l2 ok2 where put2: "put_frame l1 Ping = (l2, ok2)" by (cases "put_frame l1 Ping") blast
  show ?case
  proof (rule carries_turn [OF put])
    assume ok
    show "carries l1 l' (held p @ typed (Tick off # evs)) (res = None)"
      by (rule carries_turn [OF put2]) (use 7 put put2 \<open>ok\<close> in \<open>auto split: if_splits\<close>)
  qed (use 7 put in \<open>auto split: if_splits\<close>)
qed (auto simp: carries_nothing)

text \<open>The server's reader handles frames that were there to be read, whatever ends it.\<close>

lemma server_reader_pulls:
  "server_reader r op s ts = (s', b) \<Longrightarrow>
     \<exists>gs. s' = fold on_frame gs s \<and> prefix gs (pull (length ts) read_frame r op)"
proof (induction ts arbitrary: r op s)
  case Nil
  then show ?case by (intro exI [of _ "[]"]) simp
next
  case (Cons t ts)
  show ?case
  proof (cases "idle t")
    case True
    with Cons.prems show ?thesis by (intro exI [of _ "[]"]) simp
  next
    case False
    obtain r' op' res where rf: "read_frame r op = ((r', op'), res)" by (cases "read_frame r op") auto
    show ?thesis
    proof (cases res)
      case (Inl e)
      with Cons.prems False rf show ?thesis by (intro exI [of _ "[]"]) simp
    next
      case (Inr f)
      have "s' = s \<or> server_reader r' op' (on_frame f s) ts = (s', b)"
        using Cons.prems False rf Inr by (auto split: frame.splits if_splits)
      then show ?thesis
      proof
        assume "s' = s"
        then show ?thesis by (intro exI [of _ "[]"]) simp
      next
        assume "server_reader r' op' (on_frame f s) ts = (s', b)"
        from Cons.IH [OF this] obtain gs where
            "s' = fold on_frame gs (on_frame f s)" "prefix gs (pull (length ts) read_frame r' op')" by blast
        with rf Inr show ?thesis by (intro exI [of _ "f # gs"]) simp
      qed
    qed
  qed
qed

fun pty_input :: "pty_msg list \<Rightarrow> bytes" where
  "pty_input [] = []"
| "pty_input (Input bs # ms) = bs @ pty_input ms"
| "pty_input (ResizeTo c r # ms) = pty_input ms"

lemma pty_input_append [simp]: "pty_input (ms @ ns) = pty_input ms @ pty_input ns"
  by (induction ms rule: pty_input.induct) simp_all

lemma pty_input_msgs [simp]: "pty_input (pty_msgs fs) = sent_input fs"
  by (induction fs rule: pty_msgs.induct) simp_all

text \<open>The thread that feeds the PTY writes all input there is, in order.\<close>

lemma pty_writer_feeds:
  "reliable (fed p) \<Longrightarrow> \<exists>p'. pty_writer p ms = (p', True) \<and> written (fed p') = written (fed p) @ pty_input ms"
proof (induction ms arbitrary: p rule: pty_input.induct)
  case (2 b ms)
  from "2.IH" [of "p\<lparr>fed := (fed p)\<lparr>written := written (fed p) @ b\<rparr>\<rparr>"] "2.prems"
  show ?case by simp
next
  case (3 c r ms)
  from "3.IH" [of "p\<lparr>cols_rows := (c, r)\<rparr>"] "3.prems" show ?case by simp
qed simp

section \<open>Connections one after the other\<close>

text \<open>
  A connection of the client: how much of its bytes the kernel takes, its keys, the beginning
  of its bytes that arrives, and the turns of the server's reader. \<open>stretch_run\<close> is what it does
  to its session, from \<open>become_active\<close> to \<open>leave\<close>.
\<close>

record stretch =
  puts_on :: sink
  seals_with :: sealer
  opens_with :: opener
  happenings :: "writer_event list"
  arrived :: nat
  read_turns :: "serve_turn list"

definition stretch_sent :: "stretch \<Rightarrow> bytes" where
  "stretch_sent x =
     drop (length (written (puts_on x)))
       (written (fst (fst (client_writer put_frame (puts_on x, seals_with x) False (happenings x)))))"

definition stretch_run :: "stretch \<Rightarrow> session \<Rightarrow> session" where
  "stretch_run x s =
     (case become_active s of
        (s1, e) \<Rightarrow>
          leave (fst (server_reader (take (arrived x) (stretch_sent x)) (opens_with x) s1 (read_turns x))) e)"

lemma stretch_run_input:
  assumes "in_sync (seals_with x) (opens_with x)" and "pty_open s"
  shows "\<exists>ms. to_pty (stretch_run x s) = to_pty s @ ms \<and> pty_open (stretch_run x s) \<and>
    prefix (pty_input ms) (typed (happenings x))"
proof -
  obtain s1 e where act: "become_active s = (s1, e)" by force
  then have s1: "to_pty s1 = to_pty s" "pty_open s1" using assms(2) by (auto simp: session_defs)
  have left: "to_pty (leave t e) = to_pty t" "pty_open (leave t e) = pty_open t" for t
    by (simp_all add: session_defs)
  obtain l res where cw: "client_writer put_frame (puts_on x, seals_with x) False (happenings x) = (l, res)"
    by (cases "client_writer put_frame (puts_on x, seals_with x) False (happenings x)") blast
  from client_writer_carries [OF this] cw obtain fs cs sl b where
      fs: "traverse frame_wire (seals_with x) fs = (sl, Inr cs)" "list_all well_formed fs"
        "stretch_sent x = b" "prefix b (concat cs)" "prefix (sent_input fs) (typed (happenings x))"
    by (auto simp: carries_def stretch_sent_def)
  from fs(4) obtain n where n: "b = take n (concat cs)" by (metis append_eq_conv_conj prefix_def)
  obtain s' z where sr: "server_reader (take (arrived x) b) (opens_with x) s1 (read_turns x) = (s', z)" by force
  from server_reader_pulls [OF this] n obtain gs where
      gs: "s' = fold on_frame gs s1"
        "prefix gs (pull (length (read_turns x)) read_frame (take (min (arrived x) n) (concat cs)) (opens_with x))"
    by (auto simp: take_take)
  from frame_stream.pull_prefix [OF assms(1) fs(2,1)] gs(2) have "prefix gs fs" by (blast intro: prefix_order.trans)
  then have "prefix (pty_input (pty_msgs gs)) (typed (happenings x))"
    using sent_input_prefix [of gs fs] fs(5) by simp
  then show ?thesis
    using fold_on_frame_pty [OF s1(2), of gs] gs(1) act sr s1(1) left fs(3)
    by (intro exI [of _ "pty_msgs gs"]) (simp add: stretch_run_def del: server_reader.simps)
qed

lemma stretches_input:
  "\<forall>x \<in> set xs. in_sync (seals_with x) (opens_with x) \<Longrightarrow> pty_open s \<Longrightarrow>
     \<exists>ms. to_pty (fold stretch_run xs s) = to_pty s @ ms \<and>
       subseq (pty_input ms) (concat (map (\<lambda>x. typed (happenings x)) xs))"
proof (induction xs arbitrary: s)
  case Nil
  then show ?case by (intro exI [of _ "[]"]) simp
next
  case (Cons x xs)
  from Cons.prems stretch_run_input [of x s] obtain ms where
      ms: "to_pty (stretch_run x s) = to_pty s @ ms" "pty_open (stretch_run x s)"
        "prefix (pty_input ms) (typed (happenings x))" by auto
  from Cons.IH [OF _ ms(2)] Cons.prems(1) obtain ns where
      ns: "to_pty (fold stretch_run xs (stretch_run x s)) = to_pty (stretch_run x s) @ ns"
        "subseq (pty_input ns) (concat (map (\<lambda>x. typed (happenings x)) xs))" by auto
  from ms(3) ns(2) have "subseq (pty_input (ms @ ns)) (typed (happenings x) @ concat (map (\<lambda>x. typed (happenings x)) xs))"
    by (simp add: list_emb_append_mono prefix_imp_subseq)
  with ms(1) ns(1) show ?case by (intro exI [of _ "ms @ ns"]) simp
qed

section \<open>Properties\<close>

text \<open>C9. No key is typed twice into the shell and none overtakes another, over any number of
  reconnects, as long as each connection is read before the next one is: whatever the keys,
  resizes and pings of each connection, wherever it refuses our bytes or loses them, and whatever
  makes the server stop reading it, the PTY is fed a subsequence of what was typed.\<close>

theorem keystrokes_at_most_once:
  assumes "\<forall>x \<in> set xs. in_sync (seals_with x) (opens_with x)"
    and "pty_open s" and "to_pty s = []" and "reliable (fed p)"
  shows "\<exists>p' bs. pty_writer p (to_pty (fold stretch_run xs s)) = (p', True) \<and>
     written (fed p') = written (fed p) @ bs \<and> subseq bs (concat (map (\<lambda>x. typed (happenings x)) xs))"
  using stretches_input [OF assms(1,2)] pty_writer_feeds [OF assms(4)] assms(3) by fastforce

text \<open>A connection with one key, cut before its end or not, read for two turns.\<close>

definition demo_stretch :: "u8 \<Rightarrow> nat \<Rightarrow> stretch" where
  "demo_stretch b n =
     \<lparr>puts_on = open_sink, seals_with = new_sealer (\<lambda>_. tag_cipher) [] 0, opens_with = new_opener (\<lambda>_. tag_cipher) [] 0,
      happenings = [Keys (Some [b])], arrived = n, read_turns = [taking_turn, taking_turn]\<rparr>"

theorem keystrokes_at_most_once_witness:
  "\<exists>p' bs. pty_writer \<lparr>fed = open_sink, cols_rows = (80, 24)\<rparr>
       (to_pty (fold stretch_run [demo_stretch 104 5, demo_stretch 105 100] (new_session [] [] 80 24 0 0 []))) = (p', True) \<and>
     written (fed p') = bs \<and> subseq bs [104, 105]"
proof -
  have "\<forall>x \<in> set [demo_stretch 104 5, demo_stretch 105 100]. in_sync (seals_with x) (opens_with x)"
    by (simp add: demo_stretch_def new_ends_in_sync tag_cipher_ok)
  moreover have "pty_open (new_session [] [] 80 24 0 0 [])" "to_pty (new_session [] [] 80 24 0 0 []) = []"
      "reliable (fed \<lparr>fed = open_sink, cols_rows = (80, 24)\<rparr>)"
    by (simp_all add: new_session_def)
  ultimately obtain p' bs where
      "pty_writer \<lparr>fed = open_sink, cols_rows = (80, 24)\<rparr>
         (to_pty (fold stretch_run [demo_stretch 104 5, demo_stretch 105 100] (new_session [] [] 80 24 0 0 []))) = (p', True)"
      "written (fed p') = written open_sink @ bs"
      "subseq bs (concat (map (\<lambda>x. typed (happenings x)) [demo_stretch 104 5, demo_stretch 105 100]))"
    using keystrokes_at_most_once by (metis pty.select_convs(1))
  then show ?thesis by (simp add: demo_stretch_def open_sink_def)
qed

text \<open>C39. Keys can overtake each other all the same. \<open>server_reader\<close> does not ask whether its
  connection is still current, and \<open>become_active\<close> wakes nobody, so the reader of a superseded
  connection goes on until that connection's writer happens to wake up. What was typed before a
  reconnect and arrives late is then fed to the shell after what was typed since.\<close>

theorem stale_input_overtakes:
  assumes "in_sync sl0 op0" and "in_sync sl1 op1"
    and "a \<noteq> []" and "DETACH_PREFIX \<notin> set a" and "b \<noteq> []" and "DETACH_PREFIX \<notin> set b"
    and "client_writer put_frame (open_sink, sl0) False [Keys (Some a)] = ((w0, sl0'), None)"
    and "client_writer put_frame (open_sink, sl1) False [Keys (Some b)] = ((w1, sl1'), None)"
    and "become_active s = (s1, e0)" and "become_active s1 = (s2, e1)"
    and "pty_open s" and "to_pty s = []" and "reliable (fed p)"
  shows "\<exists>s3 s4 p'. server_reader (written w1) op1 s2 [taking_turn] = (s3, False) \<and>
     \<not> is_current s3 e0 \<and> server_reader (written w0) op0 s3 [taking_turn] = (s4, False) \<and>
     pty_writer p (to_pty s4) = (p', True) \<and> written (fed p') = written (fed p) @ b @ a"
proof -
  have scan: "scan_keys False out bs = Some (False, out @ bs)" if "DETACH_PREFIX \<notin> set bs" for out bs
    using that by (induction bs arbitrary: out) auto
  have rd: "server_reader (written w) op t [taking_turn] = (send_input t bs, False)"
    if "in_sync sl op" and bs: "bs \<noteq> []" "DETACH_PREFIX \<notin> set bs"
      and "client_writer put_frame (open_sink, sl) False [Keys (Some bs)] = ((w, sl'), None)"
    for sl op bs w sl' t
  proof -
    from that(4) scan [OF bs(2), of "[]"] bs(1) have "put_frame (open_sink, sl) (Data bs) = ((w, sl'), True)"
      by (auto split: prod.splits bool.splits)
    from put_frame_done [OF this] obtain c where "frame_wire sl (Data bs) = (sl', Inr c)" "written w = c" by auto
    then show ?thesis using server_reader_run [OF that(1), of "[Data bs]" sl' "[c]" t] by simp
  qed
  let ?s3 = "send_input s2 b" and ?s4 = "send_input (send_input s2 b) a"
  have "\<not> is_current ?s3 e0" "to_pty ?s4 = [Input b, Input a]"
    using assms(9-12) by (auto simp: session_defs)
  moreover from pty_writer_feeds [OF assms(13), of "[Input b, Input a]"] obtain p' where
      "pty_writer p [Input b, Input a] = (p', True)" "written (fed p') = written (fed p) @ b @ a" by auto
  ultimately show ?thesis
    using rd [OF assms(2,5,6,8), of s2] rd [OF assms(1,3,4,7), of ?s3] by metis
qed

theorem stale_input_overtakes_witness:
  "\<exists>s4 p'. pty_writer \<lparr>fed = open_sink, cols_rows = (80, 24)\<rparr> (to_pty s4) = (p', True) \<and>
     written (fed p') = [105, 104] \<and>
     (\<exists>r0 r1. s4 = fst (server_reader r0 (new_opener (\<lambda>_. tag_cipher) [] 0)
        (fst (server_reader r1 (new_opener (\<lambda>_. tag_cipher) [] 0)
          (fst (become_active (fst (become_active (new_session [] [] 80 24 0 0 [])))))
          [taking_turn])) [taking_turn]))"
proof -
  let ?sl = "new_sealer (\<lambda>_. tag_cipher) [] 0" and ?op = "new_opener (\<lambda>_. tag_cipher) [] 0"
  let ?s = "new_session [] [] 80 24 0 0 []"
  have sync: "in_sync ?sl ?op" by (rule new_ends_in_sync) (rule tag_cipher_ok)
  have wire: "\<exists>w sl'. client_writer put_frame (open_sink, ?sl) False [Keys (Some [k])] = ((w, sl'), None)"
    if "k \<noteq> DETACH_PREFIX" for k
    using that by (simp add: put_frame_def write_frame_reliable [OF reliable_open_sink(1)]
        seal_def new_sealer_def tag_cipher_def checked_add_def MAX_RECORD_def)
  obtain w0 sl0 where w0: "client_writer put_frame (open_sink, ?sl) False [Keys (Some [104])] = ((w0, sl0), None)"
    using wire [of 104] by (auto simp: DETACH_PREFIX_def)
  obtain w1 sl1 where w1: "client_writer put_frame (open_sink, ?sl) False [Keys (Some [105])] = ((w1, sl1), None)"
    using wire [of 105] by (auto simp: DETACH_PREFIX_def)
  have k: "[104::u8] \<noteq> []" "DETACH_PREFIX \<notin> set [104]" "[105::u8] \<noteq> []" "DETACH_PREFIX \<notin> set [105]"
    by (simp_all add: DETACH_PREFIX_def)
  obtain s1 e0 where s1: "become_active ?s = (s1, e0)" by force
  obtain s2 e1 where s2: "become_active s1 = (s2, e1)" by force
  have s: "pty_open ?s" "to_pty ?s = []" "reliable (fed \<lparr>fed = open_sink, cols_rows = (80, 24)\<rparr>)"
    by (simp_all add: new_session_def)
  from stale_input_overtakes [OF sync sync k w0 w1 s1 s2 s] obtain s3 s4 p' where
      "server_reader (written w1) ?op s2 [taking_turn] = (s3, False)"
      "server_reader (written w0) ?op s3 [taking_turn] = (s4, False)"
      "pty_writer \<lparr>fed = open_sink, cols_rows = (80, 24)\<rparr> (to_pty s4) = (p', True)"
      "written (fed p') = [105, 104]"
    by (auto simp: open_sink_def simp del: server_reader.simps)
  with s1 s2 show ?thesis by (intro exI [of _ s4] exI [of _ p']) (metis fst_conv)
qed

end
