(* ===== verification/Reconnecting.thy ===== *)
theory Reconnecting
  imports Delivery Client_Run
begin

text \<open>
  A whole interactive session across broken connections. The client makes one attempt after the
  other; \<open>handle_tcp\<close> answers some of them, and the network cuts what it sends at any byte. Theory
  \<open>Delivery\<close> is about one attempt that is not cut; here is what a cut one does to the client,
  and what a run of them followed by one that holds comes to.
\<close>

section \<open>Answers that are cut\<close>

lemma read_exact_cut:
  assumes "read_exact n s = Inr (a, b)"
  shows "read_exact n (take k s) = (if n \<le> k then Inr (a, take (k - n) b) else Inl UnexpectedEof)"
  using read_exact_InrD [OF assms] by (auto simp: read_exact_def)

lemma client_recv_cut:
  assumes "client_recv s = (rest, Inr x)"
  shows "client_recv (take k s) = ([], Inl UnexpectedEof) \<or> (\<exists>j. client_recv (take k s) = (take j rest, Inr x))"
proof -
  from assms obtain status r1 nonce r2 tot where
      1: "read_exact 1 s = Inr (status, r1)" "hd status = STATUS_OK"
    and 2: "read_exact NONCE_LEN r1 = Inr (nonce, r2)" and 3: "read_exact 8 r2 = Inr (tot, rest)"
    and x: "x = (nonce, u64_of_be tot)"
    by (auto simp: client_recv_def Let_def split: sum.splits prod.splits if_splits)
  show ?thesis
    using 1(2)
    by (simp add: client_recv_def Let_def x read_exact_cut [OF 1(1), unfolded One_nat_def] read_exact_cut [OF 2]
        read_exact_cut [OF 3]) auto
qed

lemma read_frame_cut:
  assumes "read_frame s op0 = ((rest, op1), Inr f)"
  shows "(\<exists>z. read_frame (take k s) op0 = (z, Inl UnexpectedEof)) \<or>
         (\<exists>j. read_frame (take k s) op0 = ((take j rest, op1), Inr f))"
proof -
  from assms obtain len_buf r1 ct pt where
      1: "read_exact 4 s = Inr (len_buf, r1)" "\<not> (u32_of_be len_buf = 0 \<or> u32_of_be len_buf > MAX_RECORD)"
    and 2: "read_exact (unat (u32_of_be len_buf)) r1 = Inr (ct, rest)"
    and 3: "open_record op0 ct = (op1, Inr pt)" "decode pt = Inr f"
    by (auto simp: read_frame_def Let_def split: sum.splits prod.splits if_splits)
  show ?thesis
    using 1(2) 3 by (auto simp: read_frame_def Let_def read_exact_cut [OF 1(1)] read_exact_cut [OF 2])
qed

text \<open>The errors of writing do not end the reconnect loop once a connection has been made.\<close>

lemma sending_errors_pass:
  "client_send w sid nonce off = (w', Inl e) \<Longrightarrow> goes_on (Inl e)"
  "write_frame w s f = (l, Inl e) \<Longrightarrow> goes_on (Inl e)"
  by (auto simp: client_send_def send_flushed_def write_frame_def seal_def Let_def
      split: if_splits prod.splits bool.splits sum.splits option.splits)

section \<open>The client's reader on an answer that is cut\<close>

lemma client_reader_cut:
  "prefix (pull (length ts) read_frame r op) fs \<Longrightarrow> list_all served_frame fs \<Longrightarrow> reliable (writer so) \<Longrightarrow>
   slices h c (outputs fs) e \<Longrightarrow> length h < 2 ^ 64 \<Longrightarrow> client_reader r op so ts = (so', res) \<Longrightarrow>
     \<exists>gs. prefix gs (outputs fs) \<and> feed accept so gs = (so', Inr ()) \<and> reliable (writer so') \<and>
          (\<forall>err. res \<noteq> Some (Inl err))"
proof (induction ts arbitrary: r op so fs c)
  case Nil
  then show ?case by (auto intro!: exI [of _ "[]"])
next
  case (Cons t ts)
  have stop: ?case if "so' = so" and "\<forall>err. res \<noteq> Some (Inl err)"
    using that Cons.prems(3) by (auto intro!: exI [of _ "[]"])
  obtain r1 op1 rf where rf: "read_frame r op = ((r1, op1), rf)" by (metis prod.exhaust)
  show ?case
  proof (cases "stop_first t \<or> isl rf")
    case True
    with Cons.prems(6) rf stop show ?thesis by (cases "stop_first t"; cases rf) auto
  next
    case False
    then obtain f where f: "rf = Inr f" "\<not> stop_first t" by (cases rf) auto
    with Cons.prems(1) rf obtain gs where fs: "fs = f # gs" "prefix (pull (length ts) read_frame r1 op1) gs"
      by (cases fs) auto
    with Cons.prems(2) have ok: "served_frame f" "list_all served_frame gs" by auto
    show ?thesis
    proof (cases "\<exists>off d. f = Output off d")
      case True
      then obtain off d where od: "f = Output off d" by blast
      have sl: "slice h off d" "slices h (unat off + length d) (outputs gs) e"
        using Cons.prems(4) fs(1) od by (auto simp: slice_def)
      from accept_reliable [OF Cons.prems(3) sl(1) Cons.prems(5)] obtain so1 where
          so1: "accept so off d = (so1, Inr ())" "reliable (writer so1)" by blast
      have "client_reader r1 op1 so1 ts = (so', res)" using Cons.prems(6) rf f od so1(1) by simp
      from Cons.IH [OF fs(2) ok(2) so1(2) sl(2) Cons.prems(5) this] obtain hs where
          "prefix hs (outputs gs)" "feed accept so1 hs = (so', Inr ())" "reliable (writer so')"
          "\<forall>err. res \<noteq> Some (Inl err)" by blast
      with so1(1) fs(1) od show ?thesis by (intro exI [of _ "(off, d) # hs"]) simp
    next
      case no: False
      then have out: "outputs fs = outputs gs" using fs(1) by (cases f) auto
      have go: ?thesis if "client_reader r1 op1 so ts = (so', res)"
        using Cons.IH [OF fs(2) ok(2) Cons.prems(3) _ Cons.prems(5) that] Cons.prems(4) out by simp
      from no ok(1) consider "f = Ended" | "f = Ping" | "f = Pong" by (cases f) auto
      then show ?thesis
        using Cons.prems(6) rf f stop go by cases (auto split: pong_request.splits)
    qed
  qed
qed

section \<open>An attempt whose connection is cut\<close>

text \<open>The client's half: what it reads is a beginning of the answer, what it sends may be lost.\<close>

lemma connect_once_cut:
  assumes run: "connect_once mk hkdf sid key so att = (so', res)"
    and inc: "incoming att = take n bytes"
    and k: "k = derive_key hkdf key (our_nonce att) sn"
    and recv: "client_recv bytes = (r, Inr (sn, tot))" "received so \<le> tot"
    and hello: "read_frame r (new_opener mk k DIR_SERVER_TO_CLIENT) = ((concat cs, op), Inr Hello)"
    and wire: "in_sync sl op" "list_all well_formed fs" "traverse frame_wire sl fs = (sl', Inr cs)"
    and served: "list_all served_frame fs" and rel: "reliable (writer so)"
    and sl: "slices h c (outputs fs) e" "length h < 2 ^ 64"
  shows "\<exists>gs. prefix gs (outputs fs) \<and> feed accept so gs = (so', Inr ()) \<and> reliable (writer so') \<and>
              (\<forall>err. res = Some (Inl err) \<longrightarrow> goes_on (Inl err))"
proof -
  have quit: ?thesis if "so' = so" and "\<forall>err. res = Some (Inl err) \<longrightarrow> goes_on (Inl err)"
    using that rel by (auto intro!: exI [of _ "[]"])
  have halves: ?thesis if "run_halves att so (take j (concat cs)) op l = (so', res)" for j l
  proof -
    obtain t ro where ro: "client_reader (take j (concat cs)) op so (reader_turns att) = (t, ro)" by force
    from client_reader_cut [OF frame_stream.pull_prefix [OF wire] served rel sl ro] obtain gs where
        gs: "prefix gs (outputs fs)" "feed accept so gs = (t, Inr ())" "reliable (writer t)"
          "\<forall>err. ro \<noteq> Some (Inl err)" by blast
    have "so' = t" and "\<forall>err. res \<noteq> Some (Inl err)"
      using that ro gs(4) by (auto simp: run_halves_def split: if_splits prod.splits option.splits sum.splits)
    with gs(1-3) show ?thesis by blast
  qed
  obtain w s1 where s1: "client_send (outgoing att) sid (our_nonce att) (received so) = (w, s1)" by force
  show ?thesis
  proof (cases "dial_ok att \<and> \<not> isl s1")
    case False
    with run s1 sending_errors_pass(1) [of "outgoing att" sid] quit show ?thesis
      by (cases s1) (auto simp: connect_once_def Let_def split: if_splits)
  next
    case True
    then obtain u where ok: "dial_ok att" "s1 = Inr u" by (cases s1) auto
    obtain l s2 where s2: "write_frame w (new_sealer mk k DIR_CLIENT_TO_SERVER) Hello = (l, s2)"
      by (meson surj_pair)
    from client_recv_cut [OF recv(1), of n] show ?thesis
    proof (elim disjE exE)
      assume "client_recv (take n bytes) = ([], Inl UnexpectedEof)"
      with run s1 ok inc quit show ?thesis by (auto simp: connect_once_def Let_def)
    next
      fix i
      assume r1: "client_recv (take n bytes) = (take i r, Inr (sn, tot))"
      show ?thesis
      proof (cases s2)
        case (Inl err)
        with run s1 s2 ok inc r1 recv(2) sending_errors_pass(2) [OF s2 [unfolded Inl]] quit show ?thesis
          by (auto simp: connect_once_def Let_def k [symmetric] leD)
      next
        case (Inr u2)
        note go = run s1 s2 [unfolded Inr] ok inc r1 leD [OF recv(2)]
        from read_frame_cut [OF hello, of i] show ?thesis
        proof (elim disjE exE)
          fix z
          assume "read_frame (take i r) (new_opener mk k DIR_SERVER_TO_CLIENT) = (z, Inl UnexpectedEof)"
          with go quit show ?thesis
            by (cases z) (auto simp: connect_once_def Let_def k [symmetric])
        next
          fix j
          assume r2: "read_frame (take i r) (new_opener mk k DIR_SERVER_TO_CLIENT) = ((take j (concat cs), op), Inr Hello)"
          show ?thesis
          proof (cases "term_size att")
            case None
            with go r2 halves show ?thesis by (simp add: connect_once_def Let_def k [symmetric])
          next
            case (Some sz)
            obtain cols rows where "sz = (cols, rows)" by force
            moreover obtain l2 s3 where s3: "write_frame (fst l) (snd l) (Resize cols rows) = (l2, s3)"
              by (meson surj_pair)
            ultimately show ?thesis
              using go r2 halves quit Some sending_errors_pass(2) [of "fst l" "snd l" "Resize cols rows" l2]
              by (cases s3) (auto simp: connect_once_def Let_def k [symmetric])
          qed
        qed
      qed
    qed
  qed
qed

text \<open>
  An attempt of a client whose session has put out \<open>h0\<close>: it does not get through, or a connection
  serves it while the output grows to \<open>h\<close>, and of what that sends some first bytes arrive.
\<close>

inductive cut_attempt ::
  "(bytes \<Rightarrow> cipher) \<Rightarrow> kdf \<Rightarrow> string \<Rightarrow> bytes \<Rightarrow> nat \<Rightarrow> session_output \<Rightarrow> bytes \<Rightarrow> bytes \<Rightarrow> attempt \<Rightarrow> bool"
  for mk hkdf sid key cap so where
  unanswered: "\<not> dial_ok att \<Longrightarrow> prefix h0 h \<Longrightarrow> cut_attempt mk hkdf sid key cap so h0 h att"
| answered: "live_session sv sid = Some (a, s) \<Longrightarrow> current_psk s = key \<Longrightarrow> session_rep s h1 \<Longrightarrow> prefix h0 h1 \<Longrightarrow>
     length (our_nonce att) = NONCE_LEN \<Longrightarrow> length sn = NONCE_LEN \<Longrightarrow>
     watched cap h1 h obs \<Longrightarrow> length obs + 2 < 2 ^ 64 \<Longrightarrow>
     v = \<lparr>arriving = client_opening mk hkdf sid key (our_nonce att) sn (received so) @ later,
       reply_to = open_sink, server_nonce = sn, reads = rs, writes = obs\<rparr> \<Longrightarrow>
     handle_tcp mk hkdf v sv = (sv', Inr l) \<Longrightarrow> incoming att = take n (written (fst l)) \<Longrightarrow>
     cut_attempt mk hkdf sid key cap so h0 h att"

text \<open>It leaves the terminal in order and gives the reconnect loop no reason to stop.\<close>

lemma cut_attempt_passes:
  assumes cut: "cut_attempt mk hkdf sid key cap so h0 h att" and so: "in_order cap h0 so"
    and sid: "length sid = SESSION_ID_LEN" "valid_utf8 (as_bytes sid)"
    and cipher: "\<And>k. cipher_ok (mk k)" "\<And>k. encrypts (mk k)"
    and run: "connect_once mk hkdf sid key so att = (so', res)"
  shows "in_order cap h so' \<and> prefix h0 h \<and> (\<forall>err. res = Some (Inl err) \<longrightarrow> goes_on (Inl err))"
  using cut
proof cases
  case unanswered
  with run so show ?thesis by (auto simp: connect_once_def intro: in_order_grows)
next
  case (answered sv a s h1 sn obs v later rs sv' l n)
  have so1: "in_order cap h1 so" by (rule in_order_grows [OF so answered(4)])
  note le = in_order_received [OF so1]
  then have off: "received so \<le> current_total s"
    using session_rep_current [OF answered(3)] by (simp add: u64_le_iff)
  obtain fs cur' stop where w: "server_writer log_frame [] (received so) (snd (become_active s)) obs = (fs, cur', stop)"
    using prod_cases3 by blast
  define k where "k = derive_key hkdf key (our_nonce att) sn"
  from handle_tcp_answer [where mk = mk and hkdf = hkdf and k = k, OF answered(1) sid answered(5,6) off cipher _
      watched_reps [OF answered(7)] answered(8) _ w, of v later rs] answered(2,9,10) obtain r op sl sl' cs where
      ans: "client_recv (written (fst l)) = (r, Inr (sn, current_total s))"
        "read_frame r (new_opener mk k DIR_SERVER_TO_CLIENT) = ((concat cs, op), Inr Hello)"
        "in_sync sl op" "list_all well_formed fs" "traverse frame_wire sl fs = (sl', Inr cs)"
    by (auto simp: k_def)
  note wf = watched_frames [OF answered(7) le w]
  have len: "length h < 2 ^ 64" using answered(7) by (simp add: watched_def)
  from connect_once_cut [OF run answered(11) k_def ans(1) off ans(2-5) server_writer_served [OF w] _
      conjunct1 [OF wf] len] so1 obtain gs where
      gs: "prefix gs (outputs fs)" "feed accept so gs = (so', Inr ())" "reliable (writer so')"
        "\<forall>err. res = Some (Inl err) \<longrightarrow> goes_on (Inl err)" by (auto simp: in_order_def)
  have "prefix h0 h" using answered(4) watched_prefix [OF answered(7)] by (rule prefix_order.trans)
  moreover have "in_order cap h so'"
    using in_order_feed [OF in_order_grows [OF so1 watched_prefix [OF answered(7)]] conjunct1 [OF wf] gs(1) _ len gs(2,3)]
      wf by blast
  ultimately show ?thesis using gs(4) by blast
qed

section \<open>Attempt after attempt\<close>

text \<open>
  Attempts that are cut, none of which ends the reconnect loop: each is disconnected or, once a
  connection has been made, fails. The loop's state is the terminal and that flag.
\<close>

inductive weathers ::
  "(bytes \<Rightarrow> cipher) \<Rightarrow> kdf \<Rightarrow> string \<Rightarrow> bytes \<Rightarrow> nat \<Rightarrow>
     session_output \<Rightarrow> bytes \<Rightarrow> bool \<Rightarrow> attempt list \<Rightarrow> session_output \<Rightarrow> bytes \<Rightarrow> bool \<Rightarrow> bool"
  for mk hkdf sid key cap where
  calm: "prefix h h' \<Longrightarrow> weathers mk hkdf sid key cap so h est [] so h' est"
| storm: "cut_attempt mk hkdf sid key cap so h h1 att \<Longrightarrow>
     connect_once mk hkdf sid key so att = (so1, Some res) \<Longrightarrow> res = Inr Disconnected \<or> isl res \<and> est \<Longrightarrow>
     weathers mk hkdf sid key cap so1 h1 (est \<or> res = Inr Disconnected) as so' h' est' \<Longrightarrow>
     weathers mk hkdf sid key cap so h est (att # as) so' h' est'"

lemma weathers_drive:
  assumes "weathers mk hkdf sid key cap so h est as so' h' est'" and "in_order cap h so"
    and sid: "length sid = SESSION_ID_LEN" "valid_utf8 (as_bytes sid)"
    and cipher: "\<And>k. cipher_ok (mk k)" "\<And>k. encrypts (mk k)"
  shows "in_order cap h' so' \<and>
    drive_session mk hkdf sid key so est (as @ bs) = drive_session mk hkdf sid key so' est' bs"
  using assms(1,2)
proof (induction rule: weathers.induct)
  case (calm h h' so est)
  then show ?case by (simp add: in_order_grows)
next
  case (storm so h h1 att so1 res est as so' h' est')
  from cut_attempt_passes [OF storm.hyps(1) storm.prems sid cipher storm.hyps(2)]
  have ok: "in_order cap h1 so1" "\<And>err. res = Inl err \<Longrightarrow> goes_on (Inl err)" by auto
  from storm.IH [OF ok(1)] storm.hyps(2,3) ok(2) show ?case by (cases res) auto
qed

section \<open>A run\<close>

text \<open>A session with two bytes of output, and an attempt that is cut right after the server's hello.\<close>

definition demo_live :: session where
  "demo_live = pty_output (new_session ''0000000a'' ''/bin/sh'' 80 24 16 0 [1]) [104, 105]"

definition demo_holder :: server where
  "demo_holder = \<lparr>store = [0 \<mapsto> demo_live], next_addr = 1, registry = [''0000000a'' \<mapsto> 0]\<rparr>"

lemma demo_live_facts:
  "live_session demo_holder ''0000000a'' = Some (0, demo_live)" "current_psk demo_live = [1]"
  "session_rep demo_live [104, 105]" "r_cap (ring demo_live) = 16" "current_total demo_live = 2"
  "length ''0000000a'' = SESSION_ID_LEN" "valid_utf8 (as_bytes ''0000000a'')"
  "length (replicate 32 b :: bytes) = NONCE_LEN"
proof -
  show "live_session demo_holder ''0000000a'' = Some (0, demo_live)" "current_psk demo_live = [1]"
    "r_cap (ring demo_live) = 16" "current_total demo_live = 2"
    by (simp_all add: live_session_def reg_get_def demo_holder_def demo_live_def session_defs new_session_def
        current_psk_def is_ended_def ring_new_def ring_append_def current_total_def ring_total_def)
  show "session_rep demo_live [104, 105]"
    using session_log.rep_append [OF session_rep_new, of "[104, 105]"] by (simp add: demo_live_def)
  show "length ''0000000a'' = SESSION_ID_LEN" "length (replicate 32 b :: bytes) = NONCE_LEN"
    by (simp_all add: SESSION_ID_LEN_def NONCE_LEN_def)
  show "valid_utf8 (as_bytes ''0000000a'')" by code_simp
qed

lemma demo_cut:
  "\<exists>att. cut_attempt (\<lambda>_. tag_cipher) (\<lambda>_ _ _ _. []) ''0000000a'' [1] 16 (new_output open_sink) [104, 105] [104, 105] att \<and>
     connect_once (\<lambda>_. tag_cipher) (\<lambda>_ _ _ _. []) ''0000000a'' [1] (new_output open_sink) att =
       (new_output open_sink, Some (Inr Disconnected))"
proof -
  let ?mk = "\<lambda>_ :: bytes. tag_cipher" and ?kdf = "\<lambda>_ _ _ _. [] :: bytes" and ?so = "new_output open_sink"
  let ?cn = "replicate 32 1 :: bytes" and ?sn = "replicate 32 2 :: bytes" and ?sid = "''0000000a''"
  let ?v = "\<lparr>arriving = client_opening ?mk ?kdf ?sid [1] ?cn ?sn (received ?so) @ [],
      reply_to = open_sink, server_nonce = ?sn, reads = [], writes = []\<rparr>"
  define k where "k = derive_key ?kdf [1] ?cn ?sn"
  have off: "received ?so = 0" by (simp add: new_output_def)
  then have le: "received ?so \<le> current_total demo_live" by simp
  have w: "server_writer log_frame [] (received ?so) (snd (become_active demo_live)) [] = ([], received ?so, None)"
    by simp
  from handle_tcp_answer [where mk = ?mk and hkdf = ?kdf and k = k and sid = ?sid and cn = ?cn and sn = ?sn,
      OF demo_live_facts(1,6,7,8,8) le tag_cipher_ok tag_cipher_encrypts _ _ _ _ w, of ?v "[]" "[]"] demo_live_facts(2)
  obtain sv' l cw ch r op sl sl' where
      ans: "handle_tcp ?mk ?kdf ?v demo_holder = (sv', Inr l)"
        "client_send open_sink ?sid ?cn (received ?so) = (cw, Inr ())" "reliable cw"
        "frame_wire (new_sealer ?mk k DIR_CLIENT_TO_SERVER) Hello =
          ((new_sealer ?mk k DIR_CLIENT_TO_SERVER)\<lparr>s_counter := 1\<rparr>, Inr ch)"
        "client_recv (written (fst l)) = (r, Inr (?sn, current_total demo_live))"
        "read_frame r (new_opener ?mk k DIR_SERVER_TO_CLIENT) = (([], op), Inr Hello)"
    by (auto simp: k_def)
  let ?att = "(plain_attempt ?cn 1)\<lparr>incoming := written (fst l)\<rparr>"
  have "cut_attempt ?mk ?kdf ?sid [1] 16 ?so [104, 105] [104, 105] ?att"
  proof (rule cut_attempt.answered [OF demo_live_facts(1-3)])
    show "?v = \<lparr>arriving = client_opening ?mk ?kdf ?sid [1] (our_nonce ?att) ?sn (received ?so) @ [],
        reply_to = open_sink, server_nonce = ?sn, reads = [], writes = []\<rparr>" by (simp add: plain_attempt_def)
    show "prefix [104, 105] [104, 105 :: u8]" by simp
    show "watched 16 [104, 105] [104, 105] []" by (simp add: watched_def)
    show "handle_tcp ?mk ?kdf ?v demo_holder = (sv', Inr l)" by (rule ans(1))
    show "incoming ?att = take (length (written (fst l))) (written (fst l))" by simp
  qed (simp_all add: plain_attempt_def NONCE_LEN_def)
  moreover have "connect_once ?mk ?kdf ?sid [1] ?so ?att = client_reader [] op ?so (reader_turns ?att)"
    using ans(2-6) le
    by (intro connect_once_reads [where cn = ?cn and sn = ?sn and k = k])
      (auto simp: plain_attempt_def k_def tag_cipher_ok tag_cipher_encrypts)
  then have "connect_once ?mk ?kdf ?sid [1] ?so ?att = (?so, Some (Inr Disconnected))"
    by (simp add: plain_attempt_def going_turn_def read_frame_def read_exact_def)
  ultimately show ?thesis by blast
qed

section \<open>Properties\<close>

text \<open>C7. No cut ends a session that has been established. Whatever part of a connection's answer reaches
  the client, whatever happens to what it sends, and whatever the session puts out meanwhile, the
  attempt leaves the terminal with the session's output in order, and if it fails, the reconnect
  loop goes on with the next.\<close>

theorem cut_attempt_is_retried:
  assumes "cut_attempt mk hkdf sid key cap so h0 h att" and "in_order cap h0 so"
    and "length sid = SESSION_ID_LEN" and "valid_utf8 (as_bytes sid)"
    and "\<And>k. cipher_ok (mk k)" and "\<And>k. encrypts (mk k)"
    and "connect_once mk hkdf sid key so att = (so', res)"
  shows "in_order cap h so' \<and>
    (\<forall>err. res = Some (Inl err) \<longrightarrow>
       drive_session mk hkdf sid key so True (att # as) = drive_session mk hkdf sid key so' True as)"
  using cut_attempt_passes [OF assms] assms(7) by auto

theorem cut_attempt_is_retried_witness:
  "\<exists>att so' res. connect_once (\<lambda>_. tag_cipher) (\<lambda>_ _ _ _. []) ''0000000a'' [1] (new_output open_sink) att =
       (so', Some res) \<and> in_order 16 [104, 105] so'"
proof -
  from demo_cut obtain att where att:
      "cut_attempt (\<lambda>_. tag_cipher) (\<lambda>_ _ _ _. []) ''0000000a'' [1] 16 (new_output open_sink) [104, 105] [104, 105] att"
      "connect_once (\<lambda>_. tag_cipher) (\<lambda>_ _ _ _. []) ''0000000a'' [1] (new_output open_sink) att =
         (new_output open_sink, Some (Inr Disconnected))" by blast
  have "in_order 16 [104, 105] (new_output open_sink)"
    using showing_new [of open_sink "[104, 105]"] by (auto simp: in_order_def new_output_def intro!: exI [of _ "[]"])
  from cut_attempt_is_retried [OF att(1) this demo_live_facts(6,7) tag_cipher_ok tag_cipher_encrypts att(2)] att(2)
  show ?thesis by blast
qed

text \<open>C3. An interactive session survives its connections. Start a client on any session, let its first
  attempt, if it is not the last one, be connected and then cut at any byte (if it does not get
  through, the client gives up), let any number of further attempts be cut at any
  byte or not get through, with the session's output growing all the
  time, and let the last connection hold until the session ends. Then \<open>run_interactive\<close>
  returns without an error, the terminal out of raw mode if it can be; on standard output is the
  whole output of the session, each byte once and in order, with a notice in the place of every
  run of bytes that is left out and none if the ring buffer could hold all of it.\<close>

theorem session_survives_reconnects:
  assumes "weathers mk hkdf sid key cap (new_output out) h0 False as so h1 est"
    and "written out = []" and "reliable out"
    and "length sid = SESSION_ID_LEN" and "valid_utf8 (as_bytes sid)"
    and "\<And>k. cipher_ok (mk k)" and "\<And>k. encrypts (mk k)"
    and "live_session sv sid = Some (a, s)" and "current_psk s = key" and "session_rep s h1"
    and "length cn = NONCE_LEN" and "length sn = NONCE_LEN"
    and "held_to_end cap (snd (become_active s)) h1 h obs" and "length obs + 2 < 2 ^ 64"
    and "v = \<lparr>arriving = client_opening mk hkdf sid key cn sn (received so) @ later,
      reply_to = open_sink, server_nonce = sn, reads = rs, writes = obs\<rparr>"
    and "dial_ok att" and "outgoing att = open_sink" and "our_nonce att = cn" and "\<not> writer_first att"
    and "reader_turns att = replicate m going_turn" and "length obs \<le> m"
    and "raw_failure calls = None" and "winch_failure calls = None"
  shows "\<exists>sv' l c' out' ps. handle_tcp mk hkdf v sv = (sv', Inr l) \<and>
    run_interactive mk hkdf sid key calls (as @ [att\<lparr>incoming := written (fst l)\<rparr>]) c out =
      Some (c', out', Inr ()) \<and>
    raw_mode c' = (\<not> restores calls) \<and>
    written out' = render h ps @ [0x0A] \<and> tiles 0 ps (length h) \<and>
    (length h \<le> cap \<longrightarrow> written out' = h @ [0x0A])"
proof -
  have "in_order cap h0 (new_output out)"
    using assms(2,3) showing_new [of out h0] by (auto simp: in_order_def new_output_def intro!: exI [of _ "[]"])
  note run = weathers_drive [OF assms(1) this assms(4-7)]
  from held_attempt_ends [OF conjunct1 [OF run] assms(8-10) assms(4,5,11,12) assms(6,7) assms(13-21)]
  obtain sv' l t where
      t: "handle_tcp mk hkdf v sv = (sv', Inr l)"
        "connect_once mk hkdf sid key so (att\<lparr>incoming := written (fst l)\<rparr>) = (t, Some (Inr SessionEnded))"
        "in_order cap h t" "unat (received t) = length h" by blast
  from in_order_whole [OF t(3,4)] obtain ps where
      "written (writer t) = render h ps" "tiles 0 ps (length h)" "length h \<le> cap \<longrightarrow> written (writer t) = h" by blast
  moreover have "reliable (writer t)" using t(3) by (simp add: in_order_def)
  moreover have "drive_session mk hkdf sid key (new_output out) False (as @ [att\<lparr>incoming := written (fst l)\<rparr>]) =
      (t, Some (Finished SessionEnded))"
    using conjunct2 [OF run, of "[att\<lparr>incoming := written (fst l)\<rparr>]"] t(2) by simp
  ultimately show ?thesis
    using t(1) assms(22,23) by (auto simp: run_interactive_def)
qed

theorem session_survives_reconnects_witness:
  "\<exists>as c' out'. run_interactive (\<lambda>_. tag_cipher) (\<lambda>_ _ _ _. []) ''0000000a'' [1]
       \<lparr>raw_failure = None, winch_failure = None, restores = True\<rparr> as \<lparr>raw_mode = False, error_text = []\<rparr> open_sink =
         Some (c', out', Inr ()) \<and>
     length as = 2 \<and> \<not> raw_mode c' \<and> written out' = [104, 105, 10]"
proof -
  let ?mk = "\<lambda>_ :: bytes. tag_cipher" and ?kdf = "\<lambda>_ _ _ _. [] :: bytes" and ?h = "[104, 105] :: bytes"
  let ?calls = "\<lparr>raw_failure = None, winch_failure = None, restores = True\<rparr>"
  from demo_cut obtain att where att:
      "cut_attempt ?mk ?kdf ''0000000a'' [1] 16 (new_output open_sink) ?h ?h att"
      "connect_once ?mk ?kdf ''0000000a'' [1] (new_output open_sink) att =
         (new_output open_sink, Some (Inr Disconnected))" by blast
  have run: "weathers ?mk ?kdf ''0000000a'' [1] 16 (new_output open_sink) ?h False [att] (new_output open_sink) ?h True"
    by (rule weathers.storm [OF att]) (auto intro: weathers.calm)
  from held_while_idle [OF demo_live_facts(3)] live_session_SomeD [OF demo_live_facts(1)] obtain obs where
      obs: "held_to_end 16 (snd (become_active demo_live)) ?h ?h obs" "length obs = 4"
    by (auto simp: demo_live_facts(4) is_ended_def)
  have p: "dial_ok (plain_attempt (replicate 32 1) 4)" "outgoing (plain_attempt (replicate 32 1) 4) = open_sink"
      "our_nonce (plain_attempt (replicate 32 1) 4) = replicate 32 1" "\<not> writer_first (plain_attempt (replicate 32 1) 4)"
      "reader_turns (plain_attempt (replicate 32 1) 4) = replicate 4 going_turn"
    by (simp_all add: plain_attempt_def)
  have c: "raw_failure ?calls = None" "winch_failure ?calls = None" "length obs + 2 < 2 ^ 64" "length obs \<le> 4"
    using obs(2) by simp_all
  from session_survives_reconnects [where later = "[]" and rs = "[]" and
      sn = "replicate 32 2" and c = "\<lparr>raw_mode = False, error_text = []\<rparr>", OF run reliable_open_sink(2,1) demo_live_facts(6,7) tag_cipher_ok tag_cipher_encrypts
      demo_live_facts(1-3,8) demo_live_facts(8) obs(1) c(3) refl p c(4,1,2)]
  obtain l :: link and c' out' where
      "run_interactive ?mk ?kdf ''0000000a'' [1] ?calls ([att] @ [(plain_attempt (replicate 32 1) 4)\<lparr>incoming := written (fst l)\<rparr>])
         \<lparr>raw_mode = False, error_text = []\<rparr> open_sink = Some (c', out', Inr ())"
      "\<not> raw_mode c'" "written out' = ?h @ [0x0A]"
    by (elim exE conjE) (rule that, assumption, simp_all)
  then show ?thesis
    by (intro exI [of _ "[att] @ [(plain_attempt (replicate 32 1) 4)\<lparr>incoming := written (fst l)\<rparr>]"]) auto
qed

end
