(* ===== verification/Daemon_Start.thy ===== *)
theory Daemon_Start
  imports Startup "HOL-Library.Sublist"
begin

text \<open>
  The start of one daemon, \<open>run\<close> of server/daemon.rs up to its accept loops, with every call it
  makes of the operating system and every error it returns. Theory \<open>Startup\<close> has many starts
  at once, at the grain of what they share; this is the code of one of them, and it is shown to
  take the steps given there.
\<close>

section \<open>Logging\<close>

text \<open>
  \<open>init_daemon_tracing\<close> of main.rs: the filter of the daemon's log, given the variable \<open>THTHER_LOG\<close>
  and the library's two ways of reading a filter, one that rejects and one that does not. A
  logger that cannot be installed is ignored.
\<close>

definition init_daemon_tracing :: "(string \<Rightarrow> 'f option) \<Rightarrow> (string \<Rightarrow> 'f) \<Rightarrow> string option \<Rightarrow> 'f" where
  "init_daemon_tracing try_filter filter_new log_var =
     (case log_var of
        None \<Rightarrow> filter_new ''info''
      | Some s \<Rightarrow> (case try_filter s of None \<Rightarrow> filter_new ''info'' | Some f \<Rightarrow> f))"

section \<open>The calls\<close>

datatype call =
    SetSid
  | IgnoreSighup
  | MakeDir string
  | SetMode string nat
  | OpenLock string nat
  | LockFile
  | Probe string
  | BindPort u16
  | Unlink string
  | BindSocket string
  | ReleaseLock

text \<open>The modes 0700 and 0600.\<close>

definition owner_dir :: nat where "owner_dir = 7 * 8 * 8"
definition owner_file :: nat where "owner_file = 6 * 8 * 8"

text \<open>The permissions of the files there are.\<close>

type_synonym permissions = "string \<Rightarrow> nat option"

text \<open>\<open>set_mode\<close>: an error is ignored.\<close>

definition set_mode :: "(string \<Rightarrow> bool) \<Rightarrow> string \<Rightarrow> nat \<Rightarrow> permissions \<Rightarrow> permissions" where
  "set_mode can_chmod path mode perms = (if can_chmod path then perms(path \<mapsto> mode) else perms)"

text \<open>The loop around \<open>flock\<close>: \<open>None\<close> when it still waits.\<close>

datatype flock_try = Granted | Interrupted | LockFailed error

fun take_lock :: "flock_try list \<Rightarrow> (error_chain + unit) option" where
  "take_lock [] = None"
| "take_lock (Granted # tries) = Some (Inr ())"
| "take_lock (Interrupted # tries) = take_lock tries"
| "take_lock (LockFailed e # tries) = Some (Inl (Context ''lock daemon startup'' (Root e)))"

text \<open>
  What the operating system answers: the variables \<open>HOME\<close> and \<open>XDG_RUNTIME_DIR\<close>, the configuration
  file, the errors of the calls that may fail, whether the control socket answers, and the
  mode that the process's mask gives a new socket.
\<close>

record start_env =
  start_home :: "string option"
  start_runtime :: "string option"
  parse_config :: "string \<Rightarrow> error + config"
  config_read :: file_result
  mkdir_error :: "error option"
  lock_error :: "error option"
  flock_tries :: "flock_try list"
  daemon_answers :: bool
  port_free :: "u16 \<Rightarrow> bool"
  unlinks :: bool
  socket_error :: "error option"
  new_mode :: nat
  can_chmod :: "string \<Rightarrow> bool"

datatype start_result = StartFailed error_chain | SteppedAside | ServingOn u16

text \<open>
  Up to the lock, \<open>None\<close> when it still waits for that; with the lock; and both. Each returns the
  calls it makes and the permissions it leaves.
\<close>

definition prepare ::
  "start_env \<Rightarrow> u16 option \<Rightarrow> permissions \<Rightarrow> call list \<times> permissions \<times> (error_chain + config) option" where
  "prepare env p perms =
     (let calls = [SetSid, IgnoreSighup] in
      case load_config (parse_config env) (start_home env) (config_read env) of
        Inl e \<Rightarrow> (calls, perms, Some (Inl e))
      | Inr loaded \<Rightarrow>
          let cfg = loaded\<lparr>port := option_or p (port loaded)\<rparr>;
              dir = runtime_dir (start_runtime env) (start_home env);
              calls = calls @ [MakeDir dir] in
          (case mkdir_error env of
             Some e \<Rightarrow> (calls, perms, Some (Inl (Context (''mkdir '' @ dir) (Root e))))
           | None \<Rightarrow>
               let perms = set_mode (can_chmod env) dir owner_dir perms;
                   path = path_join dir ''daemon.lock'';
                   calls = calls @ [SetMode dir owner_dir, OpenLock path owner_file] in
               (case lock_error env of
                  Some e \<Rightarrow> (calls, perms, Some (Inl (Context (''open startup lock '' @ path) (Root e))))
                | None \<Rightarrow>
                    let calls = calls @ [LockFile] in
                    (case take_lock (flock_tries env) of
                       None \<Rightarrow> (calls, perms, None)
                     | Some (Inl e) \<Rightarrow> (calls, perms, Some (Inl e))
                     | Some (Inr u) \<Rightarrow> (calls, perms, Some (Inr cfg))))))"

definition publish :: "start_env \<Rightarrow> config \<Rightarrow> permissions \<Rightarrow> call list \<times> permissions \<times> start_result" where
  "publish env cfg perms =
     (let sock_path = control_socket_path (start_runtime env) (start_home env);
          calls = [Probe sock_path] in
      if daemon_answers env then (calls, perms, SteppedAside)
      else
        (case bind_tcp (port_free env) cfg of
           Inl e \<Rightarrow> (calls, perms, StartFailed (Root e))
         | Inr q \<Rightarrow>
             let perms = (if unlinks env then perms(sock_path := None) else perms);
                 calls = calls @ [BindPort q, Unlink sock_path, BindSocket sock_path] in
             (case socket_error env of
                Some e \<Rightarrow> (calls, perms, StartFailed (Context (''bind control socket '' @ sock_path) (Root e)))
              | None \<Rightarrow>
                  let perms = set_mode (can_chmod env) sock_path owner_file (perms(sock_path \<mapsto> new_mode env));
                      calls = calls @ [SetMode sock_path owner_file, ReleaseLock] in
                  (calls, perms, ServingOn q))))"

definition daemon_start ::
  "start_env \<Rightarrow> u16 option \<Rightarrow> permissions \<Rightarrow> call list \<times> permissions \<times> start_result option" where
  "daemon_start env p perms =
     (case prepare env p perms of
        (calls, perms, None) \<Rightarrow> (calls, perms, None)
      | (calls, perms, Some (Inl e)) \<Rightarrow> (calls, perms, Some (StartFailed e))
      | (calls, perms, Some (Inr cfg)) \<Rightarrow>
          (case publish env cfg perms of
             (later, perms, res) \<Rightarrow> (calls @ later, perms, Some res)))"

section \<open>The order of the calls\<close>

definition lock_calls :: "start_env \<Rightarrow> call list" where
  "lock_calls env =
     (let dir = runtime_dir (start_runtime env) (start_home env) in
      [SetSid, IgnoreSighup, MakeDir dir, SetMode dir owner_dir,
       OpenLock (path_join dir ''daemon.lock'') owner_file, LockFile])"

definition publish_calls :: "start_env \<Rightarrow> u16 \<Rightarrow> call list" where
  "publish_calls env q =
     (let sock_path = control_socket_path (start_runtime env) (start_home env) in
      [Probe sock_path, BindPort q, Unlink sock_path, BindSocket sock_path,
       SetMode sock_path owner_file, ReleaseLock])"

lemma take_lock_granted:
  "take_lock tries = Some (Inr u) \<longleftrightarrow> (\<exists>n later. tries = replicate n Interrupted @ Granted # later)"
proof (induction tries rule: take_lock.induct)
  case (3 tries)
  have "Interrupted # tries = replicate n Interrupted @ Granted # later \<longleftrightarrow>
      (\<exists>m. n = Suc m \<and> tries = replicate m Interrupted @ Granted # later)" for n later
    by (cases n) auto
  with 3 show ?case by auto
qed (auto simp: Cons_eq_append_conv Cons_replicate_eq)

lemma prepare_outcome:
  assumes "prepare env p perms = (calls, perms', res)"
  shows "prefix calls (lock_calls env) \<and>
    (\<forall>cfg. res = Some (Inr cfg) \<longrightarrow> calls = lock_calls env \<and>
       perms' = set_mode (can_chmod env) (runtime_dir (start_runtime env) (start_home env)) owner_dir perms)"
proof (cases "load_config (parse_config env) (start_home env) (config_read env)")
  case (Inl e)
  with assms show ?thesis by (auto simp: prepare_def lock_calls_def Let_def)
next
  case (Inr c)
  with assms show ?thesis
    by (auto simp: prepare_def lock_calls_def Let_def split: option.splits sum.splits)
qed

lemma publish_outcome:
  assumes "publish env cfg perms = (calls, perms', res)"
  shows "\<exists>q. prefix calls (publish_calls env q) \<and>
    (res = ServingOn q \<longleftrightarrow> calls = publish_calls env q) \<and> (\<forall>r. res = ServingOn r \<longrightarrow> r = q)"
proof (cases "bind_tcp (port_free env) cfg")
  case (Inl e)
  with assms show ?thesis by (auto simp: publish_def publish_calls_def Let_def split: if_splits)
next
  case (Inr q)
  with assms show ?thesis
    by (intro exI [of _ q]) (auto simp: publish_def publish_calls_def Let_def split: if_splits option.splits)
qed

lemma socket_in_dir: "control_socket_path xdg home \<noteq> runtime_dir xdg home"
  by (simp add: control_socket_path_def path_join_def)

lemma publish_permissions:
  assumes "publish env cfg perms = (calls, perms', ServingOn q)"
  shows "\<forall>path. path \<noteq> control_socket_path (start_runtime env) (start_home env) \<longrightarrow> perms' path = perms path"
    and "can_chmod env (control_socket_path (start_runtime env) (start_home env)) \<Longrightarrow>
      perms' (control_socket_path (start_runtime env) (start_home env)) = Some owner_file"
  using assms
  by (auto simp: publish_def Let_def set_mode_def split: if_splits sum.splits option.splits)

section \<open>The steps it takes among other starts\<close>

text \<open>What a start that makes these calls does to the socket file.\<close>

definition left_socket :: "start_env \<Rightarrow> nat \<Rightarrow> start_result \<Rightarrow> call list \<Rightarrow> nat option \<Rightarrow> nat option" where
  "left_socket env i res calls before =
     (case res of
        ServingOn q \<Rightarrow> Some i
      | _ \<Rightarrow>
          if unlinks env \<and> Unlink (control_socket_path (start_runtime env) (start_home env)) \<in> set calls
          then None else before)"

fun final_stage :: "start_result \<Rightarrow> stage" where
  "final_stage (ServingOn q) = Serving q"
| "final_stage res = Exited"

lemma five_times: "(f ^^ 5) x = f (f (f (f (f x))))"
  by (simp add: eval_nat_numeral)

lemma advance_exited [simp]: "stages w i = Exited \<Longrightarrow> advance f cfg r u i w = w"
  by (simp add: advance_def)

lemma publish_advances:
  assumes "publish env cfg perms = (calls, perms', res)"
    and "stages w i = Locked" and "lock_holder w = Some i" and "answers w = daemon_answers env"
    and "socket w \<noteq> None \<Longrightarrow> \<not> unlinks env \<Longrightarrow> socket_error env \<noteq> None"
  shows "(advance (port_free env) cfg (unlinks env) (socket_error env = None) i ^^ 5) w =
    \<lparr>lock_holder = None, socket = left_socket env i res calls (socket w),
     stages = (stages w)(i := final_stage res)\<rparr>"
proof -
  let ?step = "advance (port_free env) cfg (unlinks env) (socket_error env = None) i"
  note defs = publish_def Let_def left_socket_def leave_host_def enter_def
  show ?thesis
  proof (cases "daemon_answers env")
    case True
    have "?step w = leave_host i w" using assms(2,4) True by (simp add: advance_def)
    with assms(1,3) True show ?thesis by (auto simp: five_times defs)
  next
    case False
    then have 1: "?step w = enter i Checked w" using assms(2,4) by (simp add: advance_def)
    show ?thesis
    proof (cases "bind_tcp (port_free env) cfg")
      case (Inl e)
      then have "?step (enter i Checked w) = leave_host i (enter i Checked w)" by (simp add: advance_def)
      with assms(1,3) False Inl 1 show ?thesis by (auto simp: five_times defs)
    next
      case (Inr q)
      let ?w3 = "(enter i (Cleared q) w)\<lparr>socket := (if unlinks env then None else socket w)\<rparr>"
      have "?step (enter i Checked w) = enter i (Bound q) w" by (simp add: advance_def Inr enter_def)
      moreover have "?step (enter i (Bound q) w) = ?w3" by (simp add: advance_def enter_def)
      ultimately have 3: "?step (?step (?step w)) = ?w3" using 1 by simp
      show ?thesis
      proof (cases "socket_error env")
        case None
        with assms(5) have "?step (?step ?w3) =
            \<lparr>lock_holder = None, socket = Some i, stages = (stages w)(i := Serving q)\<rparr>"
          using assms(3) by (cases "unlinks env") (auto simp: advance_def enter_def)
        with assms(1) False Inr None 3 show ?thesis by (auto simp: five_times defs)
      next
        case (Some e)
        then have "?step ?w3 = leave_host i ?w3" by (simp add: advance_def)
        with assms(1,3) False Inr Some 3 show ?thesis by (auto simp: five_times defs)
      qed
    qed
  qed
qed

lemma lock_calls_no_unlink: "Unlink path \<notin> set (lock_calls env)"
  by (simp add: lock_calls_def Let_def)

lemma advances_run: "host_step\<^sup>*\<^sup>* w ((advance f cfg r u i ^^ n) w)"
  by (induction n) (auto intro: host_step.advances rtranclp.rtrancl_into_rtrancl)

section \<open>Some starts\<close>

text \<open>A start that is interrupted once while it waits for the lock, with no daemon there.\<close>

definition demo_start :: start_env where
  "demo_start =
     \<lparr>start_home = Some ''/home/u'', start_runtime = Some ''/run/user/1'', parse_config = (\<lambda>_. Inr default_config),
      config_read = FileMissing, mkdir_error = None, lock_error = None, flock_tries = [Interrupted, Granted],
      daemon_answers = False, port_free = (\<lambda>_. True), unlinks = True, socket_error = None, new_mode = 511,
      can_chmod = (\<lambda>_. True)\<rparr>"

lemma demo_publish:
  assumes "\<not> daemon_answers env" and "port_free env = (\<lambda>_. True)" and "socket_error env = None"
  shows "\<exists>perms'. publish env default_config perms = (publish_calls env 60000, perms', ServingOn 60000)"
proof -
  have "bind_tcp (port_free env) default_config = Inr 60000" unfolding assms(2) by (rule default_bind)
  with assms(1,3) show ?thesis by (simp add: publish_def publish_calls_def Let_def)
qed

lemma demo_prepare:
  assumes "config_read env = FileMissing" and "mkdir_error env = None" and "lock_error env = None"
    and "take_lock (flock_tries env) = Some (Inr ())"
  shows "prepare env None perms = (lock_calls env,
    set_mode (can_chmod env) (runtime_dir (start_runtime env) (start_home env)) owner_dir perms, Some (Inr default_config))"
proof -
  have "default_config\<lparr>port := option_or None (port default_config)\<rparr> = default_config"
    by (simp add: default_config_def)
  with assms show ?thesis by (simp add: prepare_def lock_calls_def Let_def load_config_def)
qed

lemma demo_started:
  "\<exists>perms'. daemon_start demo_start None perms =
     (lock_calls demo_start @ publish_calls demo_start 60000, perms', Some (ServingOn 60000))"
proof -
  have env: "config_read demo_start = FileMissing" "mkdir_error demo_start = None" "lock_error demo_start = None"
      "take_lock (flock_tries demo_start) = Some (Inr ())" "\<not> daemon_answers demo_start"
      "port_free demo_start = (\<lambda>_. True)" "socket_error demo_start = None"
    by (simp_all add: demo_start_def)
  note prep = demo_prepare [OF env(1-4), of perms]
  from demo_publish [OF env(5-7)] obtain perms' where "publish demo_start default_config
      (set_mode (can_chmod demo_start) (runtime_dir (start_runtime demo_start) (start_home demo_start)) owner_dir perms) =
      (publish_calls demo_start 60000, perms', ServingOn 60000)" by blast
  with prep show ?thesis by (simp add: daemon_start_def)
qed

text \<open>An error of \<open>set_mode\<close> is ignored. Without \<open>HOME\<close> and \<open>XDG_RUNTIME_DIR\<close> the directory is
  \<open>/tmp/.thther\<close>; if another user has made it, for everybody to write to, the daemon serves its
  control socket there all the same.\<close>

theorem mode_errors_ignored:
  "\<exists>calls perms'. daemon_start (demo_start\<lparr>start_home := None, start_runtime := None, can_chmod := (\<lambda>_. False)\<rparr>)
       None [''/tmp/.thther'' \<mapsto> 511] = (calls, perms', Some (ServingOn 60000)) \<and>
     perms' ''/tmp/.thther'' = Some 511"
proof -
  let ?env = "demo_start\<lparr>start_home := None, start_runtime := None, can_chmod := (\<lambda>_. False)\<rparr>"
  have dir: "runtime_dir None None = ''/tmp/.thther''" by (simp add: runtime_dir_def base_dir_def)
  have env: "config_read ?env = FileMissing" "mkdir_error ?env = None" "lock_error ?env = None"
      "take_lock (flock_tries ?env) = Some (Inr ())" "\<not> daemon_answers ?env"
      "port_free ?env = (\<lambda>_. True)" "socket_error ?env = None"
    by (simp_all add: demo_start_def)
  from demo_publish [OF env(5-7)] obtain perms' where
      pub: "publish ?env default_config [''/tmp/.thther'' \<mapsto> 511] = (publish_calls ?env 60000, perms', ServingOn 60000)"
    by blast
  have "perms' ''/tmp/.thther'' = Some 511"
    using publish_permissions(1) [OF pub] not_sym [OF socket_in_dir [of None None]] by (auto simp: dir)
  moreover have "daemon_start ?env None [''/tmp/.thther'' \<mapsto> 511] =
      (lock_calls ?env @ publish_calls ?env 60000, perms', Some (ServingOn 60000))"
    using demo_prepare [OF env(1-4), of "[''/tmp/.thther'' \<mapsto> 511]"] pub
    by (simp add: daemon_start_def set_mode_def)
  ultimately show ?thesis by blast
qed

section \<open>Properties\<close>

text \<open>C28. A daemon announces itself last and in private. The calls a start makes are always the beginning
  of one sequence, all of it exactly if the daemon serves: it detaches, reads its
  configuration, makes its directory accessible to the owner only, takes the lock, looks for a live
  daemon, binds its TCP port, and only then replaces the control socket, restricts that, and
  releases the lock. When it serves, directory and socket have these modes if they can be changed.\<close>

theorem socket_published_last:
  assumes "daemon_start env p perms = (calls, perms', res)"
  shows "\<exists>q. prefix calls (lock_calls env @ publish_calls env q) \<and>
    (res = Some (ServingOn q) \<longleftrightarrow> calls = lock_calls env @ publish_calls env q) \<and>
    (\<forall>r. res = Some (ServingOn r) \<longrightarrow> r = q \<and>
       (can_chmod env (runtime_dir (start_runtime env) (start_home env)) \<longrightarrow>
          perms' (runtime_dir (start_runtime env) (start_home env)) = Some owner_dir) \<and>
       (can_chmod env (control_socket_path (start_runtime env) (start_home env)) \<longrightarrow>
          perms' (control_socket_path (start_runtime env) (start_home env)) = Some owner_file))"
proof -
  obtain c1 perms1 r1 where prep: "prepare env p perms = (c1, perms1, r1)" using prod_cases3 by blast
  note out = prepare_outcome [OF prep]
  have short: "\<exists>q. prefix c1 (lock_calls env @ publish_calls env q) \<and> c1 \<noteq> lock_calls env @ publish_calls env q"
    using out by (auto simp: publish_calls_def Let_def intro!: exI [of _ 0] dest: prefix_length_le)
  show ?thesis
  proof (cases "\<exists>cfg. r1 = Some (Inr cfg)")
    case False
    then have "calls = c1" and "res \<noteq> Some (ServingOn r)" for r
      using assms prep by (auto simp: daemon_start_def split: option.splits sum.splits)
    with short show ?thesis by auto
  next
    case True
    then obtain cfg where cfg: "r1 = Some (Inr cfg)" by blast
    obtain c2 perms2 r2 where pub: "publish env cfg perms1 = (c2, perms2, r2)" using prod_cases3 by blast
    have res: "calls = c1 @ c2" "perms' = perms2" "res = Some r2"
      using assms prep pub cfg by (auto simp: daemon_start_def)
    from out cfg have c1: "c1 = lock_calls env"
      and dir: "perms1 = set_mode (can_chmod env) (runtime_dir (start_runtime env) (start_home env)) owner_dir perms"
      by simp_all
    from publish_outcome [OF pub] obtain q where
        q: "prefix c2 (publish_calls env q)" "r2 = ServingOn q \<longleftrightarrow> c2 = publish_calls env q"
          "\<forall>r. r2 = ServingOn r \<longrightarrow> r = q" by blast
    have "can_chmod env (runtime_dir (start_runtime env) (start_home env)) \<longrightarrow>
        perms2 (runtime_dir (start_runtime env) (start_home env)) = Some owner_dir"
      if "r2 = ServingOn r" for r
      using publish_permissions(1) [OF pub [unfolded that]] not_sym [OF socket_in_dir] by (simp add: dir set_mode_def)
    moreover have "can_chmod env (control_socket_path (start_runtime env) (start_home env)) \<longrightarrow>
        perms2 (control_socket_path (start_runtime env) (start_home env)) = Some owner_file"
      if "r2 = ServingOn r" for r
      using publish_permissions(2) [OF pub [unfolded that]] by blast
    ultimately show ?thesis
      unfolding res c1 using q by (intro exI [of _ q]) simp
  qed
qed

theorem socket_published_last_witness:
  "\<exists>calls perms'. daemon_start demo_start None (\<lambda>_. None) = (calls, perms', Some (ServingOn 60000)) \<and>
     calls = lock_calls demo_start @ publish_calls demo_start 60000 \<and>
     perms' ''/run/user/1/thther'' = Some owner_dir \<and> perms' ''/run/user/1/thther/control.sock'' = Some owner_file"
proof -
  from demo_started obtain perms' where run: "daemon_start demo_start None (\<lambda>_. None) =
      (lock_calls demo_start @ publish_calls demo_start 60000, perms', Some (ServingOn 60000))" by blast
  have "runtime_dir (Some ''/run/user/1'') h = ''/run/user/1/thther''"
    and "control_socket_path (Some ''/run/user/1'') h = ''/run/user/1/thther/control.sock''" for h
    by (simp_all add: runtime_dir_def control_socket_path_def path_join_def)
  with socket_published_last [OF run] run show ?thesis by (auto simp: demo_start_def)
qed

text \<open>C29. What the code of one start does is what the starts of theory \<open>Startup\<close> do, so that at most one
  daemon owns the socket among any number of them: alone with the lock free, it takes steps
  given there, returns the lock, ends up serving or exited as its result says, and touches the socket file
  only after it has found no daemon and has bound its TCP port.\<close>

theorem start_takes_startup_steps:
  assumes "daemon_start env p perms = (calls, perms', res)"
    and "stages w i = Starting" and "lock_holder w = None" and "answers w = daemon_answers env"
    and "socket w \<noteq> None \<longrightarrow> \<not> unlinks env \<longrightarrow> socket_error env \<noteq> None"
  shows "\<exists>w'. host_step\<^sup>*\<^sup>* w w' \<and>
    (case res of
       None \<Rightarrow> w' = w
     | Some r \<Rightarrow> w' = \<lparr>lock_holder = None, socket = left_socket env i r calls (socket w),
                        stages = (stages w)(i := final_stage r)\<rparr>)"
proof -
  obtain c1 perms1 r1 where prep: "prepare env p perms = (c1, perms1, r1)" using prod_cases3 by blast
  note out = prepare_outcome [OF prep]
  show ?thesis
  proof (cases r1)
    case None
    with assms(1) prep show ?thesis by (auto simp: daemon_start_def)
  next
    case (Some r)
    show ?thesis
    proof (cases r)
      case (Inl e)
      with assms(1) prep Some have res: "calls = c1" "res = Some (StartFailed e)" by (auto simp: daemon_start_def)
      have "Unlink path \<notin> set calls" for path
        using out lock_calls_no_unlink [of path env] res(1) by (auto simp: prefix_def)
      then have "leave_host i w = \<lparr>lock_holder = None, socket = left_socket env i (StartFailed e) calls (socket w),
          stages = (stages w)(i := Exited)\<rparr>"
        using assms(3) by (simp add: leave_host_def enter_def left_socket_def)
      with res(2) host_step.dies [of w i] show ?thesis by (auto intro: r_into_rtranclp)
    next
      case (Inr cfg)
      obtain c2 perms2 r2 where pub: "publish env cfg perms1 = (c2, perms2, r2)" using prod_cases3 by blast
      have res: "calls = c1 @ c2" "res = Some r2" using assms(1) prep pub Some Inr by (auto simp: daemon_start_def)
      let ?step = "advance (port_free env) cfg (unlinks env) (socket_error env = None) i"
      let ?w1 = "(enter i Locked w)\<lparr>lock_holder := Some i\<rparr>"
      have first: "?step w = ?w1" using assms(2,3) by (simp add: advance_def)
      have "answers ?w1 = daemon_answers env"
        using assms(2,4) by (auto simp: answers_def split: option.splits)
      from publish_advances [OF pub _ _ this] assms(5) have
        "(?step ^^ 5) (?step w) = \<lparr>lock_holder = None, socket = left_socket env i r2 c2 (socket w),
           stages = (stages w)(i := final_stage r2)\<rparr>" unfolding first by (simp add: enter_def)
      moreover have "left_socket env i r2 calls = left_socket env i r2 c2"
        using out Some Inr res(1) lock_calls_no_unlink by (auto simp: left_socket_def split: start_result.splits)
      moreover have "host_step\<^sup>*\<^sup>* w ((?step ^^ 5) (?step w))"
        by (rule converse_rtranclp_into_rtranclp [OF host_step.advances advances_run])
      ultimately show ?thesis using res(2) by auto
    qed
  qed
qed

theorem start_takes_startup_steps_witness:
  "\<exists>calls perms'. daemon_start demo_start None (\<lambda>_. None) = (calls, perms', Some (ServingOn 60000)) \<and>
     host_step\<^sup>*\<^sup>* (fresh_host (Some 8))
       \<lparr>lock_holder = None, socket = Some 3, stages = (\<lambda>_. Starting)(3 := Serving 60000)\<rparr>"
proof -
  from demo_started obtain perms' where run: "daemon_start demo_start None (\<lambda>_. None) =
      (lock_calls demo_start @ publish_calls demo_start 60000, perms', Some (ServingOn 60000))" by blast
  have "answers (fresh_host (Some 8)) = daemon_answers demo_start"
    and "socket (fresh_host (Some 8)) \<noteq> None \<longrightarrow> \<not> unlinks demo_start \<longrightarrow> socket_error demo_start \<noteq> None"
    by (simp_all add: answers_def fresh_host_def demo_start_def)
  from start_takes_startup_steps [OF run _ _ this, of 3] run show ?thesis
    by (auto simp: fresh_host_def left_socket_def)
qed

end
