(* ===== verification/Replay_Test.thy ===== *)
theory Replay_Test
  imports Unit_Tests Session_Threads
begin

text \<open>
  The test \<open>real_pty_replay_uses_absolute_offsets_across_tcp_reconnects\<close> of server/daemon.rs, run
  on the model: a shell whose output overflows the ring buffer, two connections that are
  refused, and three that are accepted one after the other, each read by the test's own client
  up to a pong. What the shell prints is an argument; that it prints the marker and the query
  once, near its end, is a hypothesis.
\<close>

section \<open>The test\<close>

text \<open>How many \<open>windows\<close> of the bytes equal the pattern, which is not empty.\<close>

fun occurrences :: "bytes \<Rightarrow> bytes \<Rightarrow> nat" where
  "occurrences pat [] = 0"
| "occurrences pat (b # bs) = (if take (length pat) (b # bs) = pat then 1 else 0) + occurrences pat bs"

definition output_marker :: bytes where
  "output_marker = [0x0D, 0x0A] @ as_bytes ''__OUTPUT_DONE__'' @ [0x0D, 0x0A]"

definition colour_query :: bytes where
  "colour_query = [0x1B] @ as_bytes '']10;?'' @ [0x07]"

text \<open>The command that is typed: a thousand digits, three queries and the marker.\<close>

definition test_input :: bytes where
  "test_input =
     (let quote = [0x27]; octal = (\<lambda>digits. 0x5C # as_bytes digits); newline = [0x5C, 0x6E] in
      as_bytes ''stty -echo; printf '' @ quote @ as_bytes ''%01024d'' @ quote @ as_bytes '' 0; printf '' @
      quote @ octal ''033'' @ as_bytes '']10;?'' @ octal ''007'' @ octal ''033'' @ as_bytes ''[6n'' @
      octal ''033'' @ as_bytes ''[?12$p'' @ newline @ as_bytes ''__OUTPUT_DONE__'' @ newline @ quote @ [0x0A])"

text \<open>A connection that must be refused: the reply, and the server after it.\<close>

definition refused_with ::
  "(bytes \<Rightarrow> cipher) \<Rightarrow> kdf \<Rightarrow> bytes \<Rightarrow> bytes \<Rightarrow> server \<Rightarrow> rejection \<Rightarrow> bool" where
  "refused_with mk hkdf sent sn sv r \<longleftrightarrow>
     (case tcp_open mk hkdf sv sent open_sink sn of
        (w, res) \<Rightarrow> snd (client_recv (written w)) = Inl (Rejected r))"

definition after_visit :: "(bytes \<Rightarrow> cipher) \<Rightarrow> kdf \<Rightarrow> bytes \<Rightarrow> bytes \<Rightarrow> server \<Rightarrow> server" where
  "after_visit mk hkdf sent sn sv =
     fst (handle_tcp mk hkdf
       \<lparr>arriving = sent, reply_to = open_sink, server_nonce = sn, reads = [], writes = []\<rparr> sv)"

text \<open>The client's loop up to the pong, over at most \<open>n\<close> frames: the cursor and the output.\<close>

fun until_pong :: "nat \<Rightarrow> bool \<Rightarrow> u64 \<Rightarrow> bytes \<Rightarrow> opener \<Rightarrow> bytes \<Rightarrow> (u64 \<times> bytes) option" where
  "until_pong 0 first cursor r op out = None"
| "until_pong (Suc n) first cursor r op out =
     (case read_frame r op of
        (_, Inl e) \<Rightarrow> None
      | ((r', op'), Inr f) \<Rightarrow>
          (case f of
             Output offset data \<Rightarrow>
               if length data \<le> MAX_OUTPUT_BYTES \<and>
                  (if first \<and> cursor = 0 then offset > 0 else offset = cursor)
               then until_pong n first (offset + word_of_nat (length data)) r' op' (out @ data)
               else None
           | Pong \<Rightarrow> Some (cursor, out)
           | Ping \<Rightarrow> until_pong n first cursor r' op' out
           | _ \<Rightarrow> None))"

text \<open>The ping the client seals after its hello.\<close>

definition client_ping :: "(bytes \<Rightarrow> cipher) \<Rightarrow> bytes \<Rightarrow> bytes" where
  "client_ping mk k =
     (case traverse frame_wire (new_sealer mk k DIR_CLIENT_TO_SERVER) [Hello, Ping] of
        (s, Inr cs) \<Rightarrow> concat (drop 1 cs)
      | (s, Inl e) \<Rightarrow> [])"

text \<open>
  The connections, each with the nonces of the client and of the server. The server's writer runs while
  the shell is idle, and is woken by the pong that the ping asks for.
\<close>

fun replay_connections ::
  "(bytes \<Rightarrow> cipher) \<Rightarrow> kdf \<Rightarrow> string \<Rightarrow> bytes \<Rightarrow> bool \<Rightarrow> u64 \<Rightarrow> nat \<Rightarrow> (bytes \<times> bytes) list \<Rightarrow> server \<Rightarrow> bool" where
  "replay_connections mk hkdf sid key first cursor query_count [] sv \<longleftrightarrow> True"
| "replay_connections mk hkdf sid key first cursor query_count ((cn, sn) # conns) sv \<longleftrightarrow>
     (case live_session sv sid of
        None \<Rightarrow> False
      | Some (a, s) \<Rightarrow>
          let v = \<lparr>arriving = client_opening mk hkdf sid key cn sn cursor @
                     client_ping mk (derive_key hkdf key cn sn),
                   reply_to = open_sink, server_nonce = sn, reads = [taking_turn],
                   writes = replicate 2 (observe (fst (become_active s)) (PongAsked True))\<rparr> in
          (case handle_tcp mk hkdf v sv of
             (sv', Inl e) \<Rightarrow> False
           | (sv', Inr l) \<Rightarrow>
               (case client_recv (written (fst l)) of
                  (r, Inl e) \<Rightarrow> False
                | (r, Inr (their_nonce, their_total)) \<Rightarrow>
                    let k = derive_key hkdf key cn their_nonce in
                    (case read_frame r (new_opener mk k DIR_SERVER_TO_CLIENT) of
                       ((r1, op1), Inr Hello) \<Rightarrow>
                         (case until_pong (length r1) first cursor r1 op1 [] of
                            None \<Rightarrow> False
                          | Some (cursor', out) \<Rightarrow>
                              let query_count' = query_count + occurrences colour_query out in
                              query_count' = 1 \<and> (first \<or> out = []) \<and>
                              replay_connections mk hkdf sid key False cursor' query_count' conns sv')
                     | _ \<Rightarrow> False))))"

definition real_pty_replay_uses_absolute_offsets_across_tcp_reconnects ::
  "(bytes \<Rightarrow> cipher) \<Rightarrow> kdf \<Rightarrow> daemon_env \<Rightarrow> bytes list \<Rightarrow> bytes \<Rightarrow> bytes \<Rightarrow> (bytes \<times> bytes) list \<Rightarrow> bool" where
  "real_pty_replay_uses_absolute_offsets_across_tcp_reconnects mk hkdf env printed cn sn nonces \<longleftrightarrow>
     (let sid = ''12345678'' in
      case spawn_session env sid ''/bin/sh'' 80 24 256 empty_server of
        (sv, Inl e) \<Rightarrow> False
      | (sv, Inr (a, shell)) \<Rightarrow>
          let sv = on_session a (\<lambda>s. foldl pty_output (send_input s test_input) printed) sv in
          (case store sv a of
             None \<Rightarrow> False
           | Some session \<Rightarrow>
               let key_before = current_psk session;
                   old = MAGIC @ [1];
                   invalid = written (fst (client_send open_sink sid cn (- 1))) in
               0 < occurrences output_marker (snd (session_read_from session 0)) \<and>
               current_total session > 256 \<and>
               refused_with mk hkdf old sn sv VersionMismatch \<and>
               (let sv = after_visit mk hkdf old sn sv in
                refused_with mk hkdf invalid sn sv BadOffset \<and>
                (let sv = after_visit mk hkdf invalid sn sv in
                 (case store sv a of None \<Rightarrow> False | Some s \<Rightarrow> current_psk s = key_before \<and> \<not> is_busy s) \<and>
                 replay_connections mk hkdf sid key_before True 0 0 nonces sv))))"

section \<open>It holds\<close>

lemma pull_one:
  assumes "in_sync sl op" and "well_formed f" and "traverse frame_wire sl (f # fs) = (sl', Inr cs)"
  shows "\<exists>s1 op1 c cs'. cs = c # cs' \<and> 0 < length c \<and> in_sync s1 op1 \<and>
    traverse frame_wire s1 fs = (sl', Inr cs') \<and> read_frame (concat cs) op = ((concat cs', op1), Inr f)"
proof -
  from assms(3) obtain s1 c cs' where
      c: "frame_wire sl f = (s1, Inr c)" "traverse frame_wire s1 fs = (sl', Inr cs')" "cs = c # cs'"
    by (auto split: prod.splits sum.splits)
  from frame_stream.put_get [OF assms(1,2) c(1)] obtain op1 where
      "in_sync s1 op1" "\<And>rest. read_frame (c @ rest) op = ((rest, op1), Inr f)" by blast
  moreover from frame_wire_InrD [OF c(1)] obtain ct where "c = record_bytes ct" by blast
  then have "0 < length c" unfolding \<open>c = _\<close> length_record_bytes by simp
  ultimately show ?thesis using c by (intro exI [of _ s1] exI [of _ op1] exI [of _ c] exI [of _ cs']) simp
qed

lemma until_pong_at_pong:
  assumes "in_sync sl op" and "traverse frame_wire sl (Pong # fs) = (sl', Inr cs)" and "0 < n"
  shows "until_pong n first cursor (concat cs) op out = Some (cursor, out)"
proof -
  have "well_formed Pong" by simp
  from pull_one [OF assms(1) this assms(2)] assms(3) show ?thesis by (cases n) auto
qed

lemma until_pong_after_output:
  assumes "in_sync sl op" and "well_formed (Output off d)"
    and "traverse frame_wire sl (Output off d # Pong # fs) = (sl', Inr cs)"
    and "if first \<and> cursor = 0 then off > 0 else off = cursor"
  shows "until_pong (length (concat cs)) first cursor (concat cs) op [] =
    Some (off + word_of_nat (length d), d)"
proof -
  from pull_one [OF assms(1-3)] obtain s1 op1 c cs' where
      c: "cs = c # cs'" "0 < length c" "in_sync s1 op1" "traverse frame_wire s1 (Pong # fs) = (sl', Inr cs')"
        "read_frame (concat cs) op = ((concat cs', op1), Inr (Output off d))" by blast
  have "well_formed Pong" by simp
  from pull_one [OF c(3) this c(4)] have "0 < length (concat cs')" by auto
  moreover have "length (concat cs) = length c + length (concat cs')" using c(1) by simp
  ultimately have "length (concat cs) = Suc (length (concat cs) - 1)" "0 < length (concat cs) - 1"
    using c(2) by linarith+
  then obtain n where n: "length (concat cs) = Suc n" "0 < n" by blast
  with until_pong_at_pong [OF c(3,4) n(2)] assms(2,4) c(5) show ?thesis by simp
qed

text \<open>What the writer sends while the shell is idle and the client asks for a pong.\<close>

lemma writer_at_end:
  assumes "session_rep s h" and "is_current s e" and "\<not> is_ended s" and "unat cursor = length h"
  shows "server_writer log_frame fs cursor e (replicate n (observe s (PongAsked True))) =
    (fs @ replicate n Pong, cursor, None)"
proof -
  obtain off d where rd: "session_read_from s cursor = (off, d)" by force
  with session_log.read_end [OF assms(1,4) rd] assms(2,3) show ?thesis
    by (induction n arbitrary: fs) (auto simp: observe_def log_frame_fold)
qed

lemma writer_from_start:
  assumes rep: "session_rep s h" and cap: "r_cap (ring s) = 256" and "is_current s e" and "\<not> is_ended s"
    and len: "256 < length h"
  shows "\<exists>off. server_writer log_frame [] 0 e (replicate 2 (observe s (PongAsked True))) =
      ([Output off (drop (length h - 256) h), Pong], word_of_nat (length h), None) \<and>
    0 < off \<and> off + 256 = word_of_nat (length h)"
proof -
  let ?d = "drop (length h - 256) h"
  obtain off d where rd: "session_read_from s 0 = (off, d)" by force
  have h64: "length h < 2 ^ 64" by (rule session_log.rep_bound [OF rep])
  from rep have "ring_rep (ring s) h" by (simp add: session_rep_def)
  then have st: "unat (r_start (ring s)) = length h - 256" using cap by (simp add: ring_rep_def)
  have "h \<noteq> []" and "max 0 (r_start (ring s)) = r_start (ring s)" using len by (auto simp: max_def)
  with rd ring_rep_read [OF \<open>ring_rep (ring s) h\<close>, of 0] len cap have
      od: "off = r_start (ring s)" "d = ?d"
    by (simp_all add: session_read_from_def MAX_OUTPUT_BYTES_def)
  have off: "unat (off + 256) = length h"
    using st od(1) len h64 by (subst unat_add_exact) simp_all
  then have eq: "off + 256 = word_of_nat (length h)"
    by (simp only: word_unat_eq_iff unat_of_nat_len [OF h64])
  have "0 < off" using st od(1) len by (simp add: word_less_nat_alt)
  have "length d = 256" using od(2) len by simp
  then have "server_writer log_frame [] 0 e (replicate 2 (observe s (PongAsked True))) =
      server_writer log_frame [Output off d] (word_of_nat (length h)) e (replicate 1 (observe s (PongAsked True)))"
    using rd assms(3) eq by (auto simp: numeral_2_eq_2 observe_def log_frame_fold Let_def)
  also have "\<dots> = ([Output off d] @ replicate 1 Pong, word_of_nat (length h), None)"
    using h64 by (intro writer_at_end [OF rep assms(3,4)]) (simp add: unat_of_nat_len)
  finally show ?thesis using od(2) \<open>0 < off\<close> eq by (intro exI [of _ off]) simp
qed

text \<open>One connection, the first or a later one, and the server after it.\<close>

definition lone_session :: "server \<Rightarrow> string \<Rightarrow> bytes \<Rightarrow> bytes \<Rightarrow> bool" where
  "lone_session sv sid key h \<longleftrightarrow>
     (\<exists>a s. live_session sv sid = Some (a, s) \<and> (\<forall>x. store sv x \<noteq> None \<longrightarrow> x = a) \<and>
        session_rep s h \<and> r_cap (ring s) = 256 \<and> current_psk s = key)"

lemma lone_session_after:
  assumes "lone_session sv sid key h"
  shows "lone_session (fst (handle_tcp mk hkdf v sv)) sid key h"
proof -
  from assms obtain a s where s: "live_session sv sid = Some (a, s)" "\<forall>x. store sv x \<noteq> None \<longrightarrow> x = a"
      "session_rep s h" "r_cap (ring s) = 256" "current_psk s = key" by (auto simp: lone_session_def)
  note live = live_session_SomeD [OF s(1)]
  obtain sv' res where run: "handle_tcp mk hkdf v sv = (sv', res)" by force
  show ?thesis
  proof (cases res)
    case (Inl e)
    with run handle_tcp_outcome [where mk = mk and hkdf = hkdf and v = v and sv = sv] assms show ?thesis by simp
  next
    case (Inr l)
    with run handle_tcp_outcome [where mk = mk and hkdf = hkdf and v = v and sv = sv] obtain b t q where
        b: "store sv b = Some t" "sv' = sv\<lparr>store := (store sv)(b \<mapsto>
          t\<lparr>active_epoch := active_epoch t + 1, connected := False, to_pty := to_pty t @ q\<rparr>)\<rparr>" by auto
    with s(2) have "b = a" by auto
    with b live have "t = s" by simp
    let ?s = "s\<lparr>active_epoch := active_epoch s + 1, connected := False, to_pty := to_pty s @ q\<rparr>"
    have sv': "sv' = sv\<lparr>store := (store sv)(a \<mapsto> ?s)\<rparr>" using b(2) \<open>b = a\<close> \<open>t = s\<close> by simp
    have "live_session sv' sid = Some (a, ?s)"
      using live by (simp add: sv' live_session_def reg_get_def is_ended_def)
    moreover have "session_rep ?s h" "r_cap (ring ?s) = 256" "current_psk ?s = key"
      using s(3-5) by (simp_all add: session_rep_def current_psk_def)
    moreover have "\<forall>x. store sv' x \<noteq> None \<longrightarrow> x = a" using s(2) by (simp add: sv')
    ultimately have "lone_session sv' sid key h" unfolding lone_session_def by blast
    with run show ?thesis by simp
  qed
qed

definition replay_point :: "bool \<Rightarrow> u64 \<Rightarrow> nat \<Rightarrow> bytes \<Rightarrow> bool" where
  "replay_point first cursor query_count h \<longleftrightarrow>
     (if first then cursor = 0 \<and> query_count = 0 \<and> occurrences colour_query (drop (length h - 256) h) = 1
      else unat cursor = length h \<and> query_count = 1)"

lemma replay_one:
  assumes "lone_session sv sid key h" and "256 < length h" and "length h + 2 < 2 ^ 64"
    and sid: "length sid = SESSION_ID_LEN" "valid_utf8 (as_bytes sid)"
    and nonces: "length cn = NONCE_LEN" "length sn = NONCE_LEN"
    and cipher: "\<And>k. cipher_ok (mk k)" "\<And>k. encrypts (mk k)"
    and pt: "replay_point first cursor query_count h"
    and rest: "\<And>sv'. lone_session sv' sid key h \<Longrightarrow>
      replay_connections mk hkdf sid key False (word_of_nat (length h)) 1 conns sv'"
  shows "replay_connections mk hkdf sid key first cursor query_count ((cn, sn) # conns) sv"
proof -
  from assms(1) obtain a s where live: "live_session sv sid = Some (a, s)" and rep: "session_rep s h"
    and cap: "r_cap (ring s) = 256" and key: "current_psk s = key" by (auto simp: lone_session_def)
  let ?s1 = "fst (become_active s)" and ?e = "snd (become_active s)"
  let ?obs = "replicate 2 (observe ?s1 (PongAsked True))"
  let ?ping = "client_ping mk (derive_key hkdf key cn sn)"
  let ?v = "\<lparr>arriving = client_opening mk hkdf sid key cn sn cursor @ ?ping, reply_to = open_sink,
      server_nonce = sn, reads = [taking_turn], writes = ?obs\<rparr>"
  have s1: "session_rep ?s1 h" "r_cap (ring ?s1) = 256" "is_current ?s1 ?e" "\<not> is_ended ?s1"
    using rep cap live_session_SomeD [OF live] by (simp_all add: session_rep_def session_defs is_ended_def)
  have h64: "length h < 2 ^ 64" using assms(3) by simp
  have off: "cursor \<le> current_total s"
    using pt session_rep_current [OF rep] by (auto simp: replay_point_def u64_le_iff split: if_splits)
  have reps: "\<forall>ob \<in> set ?obs. \<exists>h. session_rep (seen_ring ob) h" using s1(1) by (auto simp: observe_def)
  define fs where "fs = fst (server_writer log_frame [] cursor ?e ?obs)"
  obtain cur' stop where w: "server_writer log_frame [] cursor ?e ?obs = (fs, cur', stop)"
    by (cases "server_writer log_frame [] cursor ?e ?obs") (simp add: fs_def)
  define k where "k = derive_key hkdf key cn sn"
  from handle_tcp_answer [where mk = mk and hkdf = hkdf and k = k and v = ?v,
      OF live sid nonces off cipher _ reps _ _ w] key obtain sv' l r op sl sl' cs where
      ans: "handle_tcp mk hkdf ?v sv = (sv', Inr l)"
        "client_recv (written (fst l)) = (r, Inr (sn, current_total s))"
        "read_frame r (new_opener mk k DIR_SERVER_TO_CLIENT) = ((concat cs, op), Inr Hello)"
      and wire: "in_sync sl op" "traverse frame_wire sl fs = (sl', Inr cs)" "list_all well_formed fs"
    by (auto simp: k_def)
  have "lone_session sv' sid key h" using lone_session_after [OF assms(1), where mk = mk and hkdf = hkdf and v = ?v] ans(1) by simp
  note rest = rest [OF this]
  have "\<exists>out. until_pong (length (concat cs)) first cursor (concat cs) op [] = Some (word_of_nat (length h), out) \<and>
      query_count + occurrences colour_query out = 1 \<and> (first \<or> out = [])"
  proof (cases first)
    case True
    then have p: "cursor = 0" "query_count = 0" "occurrences colour_query (drop (length h - 256) h) = 1"
      using pt by (auto simp: replay_point_def)
    from writer_from_start [OF s1 assms(2)] w p(1) obtain o1 where
        o1: "fs = [Output o1 (drop (length h - 256) h), Pong]" "0 < o1" "o1 + 256 = word_of_nat (length h)" by auto
    from until_pong_after_output [OF wire(1), of o1 "drop (length h - 256) h" "[]" sl' cs first cursor] wire(2,3) o1 p True
    show ?thesis using assms(2) by simp
  next
    case False
    then have p: "unat cursor = length h" "query_count = 1" using pt by (auto simp: replay_point_def)
    then have cur: "cursor = word_of_nat (length h)" by (simp only: word_unat_eq_iff unat_of_nat_len [OF h64])
    have fs: "fs = [Pong, Pong]" using writer_at_end [OF s1(1,3,4) p(1), of "[]" 2] w by (simp add: numeral_2_eq_2)
    have "0 < length (concat cs)" using pull_one [OF wire(1) _ wire(2) [unfolded fs]] by auto
    from until_pong_at_pong [OF wire(1) wire(2) [unfolded fs] this] p(2) cur show ?thesis
      by simp
  qed
  then obtain out where out: "until_pong (length (concat cs)) first cursor (concat cs) op [] = Some (word_of_nat (length h), out)"
      "query_count + occurrences colour_query out = 1" "first \<or> out = []" by blast
  show ?thesis
    using live ans out rest by (simp add: Let_def k_def)
qed

lemma replay_all:
  assumes "256 < length h" and "length h + 2 < 2 ^ 64"
    and "length sid = SESSION_ID_LEN" "valid_utf8 (as_bytes sid)"
    and "\<And>k. cipher_ok (mk k)" "\<And>k. encrypts (mk k)"
  shows "\<forall>(cn, sn) \<in> set conns. length cn = NONCE_LEN \<and> length sn = NONCE_LEN \<Longrightarrow>
    lone_session sv sid key h \<Longrightarrow> replay_point first cursor query_count h \<Longrightarrow>
      replay_connections mk hkdf sid key first cursor query_count conns sv"
proof (induction conns arbitrary: sv first cursor query_count)
  case (Cons c conns)
  obtain cn sn where c: "c = (cn, sn)" by force
  have next_point: "replay_point False (word_of_nat (length h)) 1 h"
    using assms(2) by (simp add: replay_point_def unat_of_nat_len)
  show ?case unfolding c
    by (rule replay_one [OF Cons.prems(2) assms(1-4) _ _ assms(5,6) Cons.prems(3)])
      (use Cons.prems(1) Cons.IH [OF _ _ next_point] c in auto)
qed simp

lemma pty_outputs_keep:
  "r_cap (ring (foldl pty_output s chunks)) = r_cap (ring s)" "psk (foldl pty_output s chunks) = psk s"
  "connected (foldl pty_output s chunks) = connected s"
  by (induction chunks arbitrary: s) (simp_all add: pty_output_def notify_def)

text \<open>The two connections that are refused, and the whole test.\<close>

lemma refused_visit:
  assumes "tcp_open mk hkdf sv sent open_sink sn = (w, Inl e)"
  shows "after_visit mk hkdf sent sn sv = sv"
  using assms by (simp add: after_visit_def handle_tcp_def tcp_connect_def)

lemma old_version_refused:
  "\<exists>w e. tcp_open mk hkdf sv (MAGIC @ [1]) open_sink sn = (w, Inl e) \<and>
     snd (client_recv (written w)) = Inl (Rejected VersionMismatch)"
proof -
  have "server_recv (MAGIC @ [1]) = ([], Inl (Rejected VersionMismatch))"
    by (rule server_recv_other_version) (simp add: VERSION_def)
  then show ?thesis
    by (simp add: tcp_open_def refuse_def server_send_err_def client_recv_status status_bytes)
qed

lemma bad_offset_refused:
  assumes "live_session sv sid = Some (a, s)" and "length sid = SESSION_ID_LEN" and "valid_utf8 (as_bytes sid)"
    and "length cn = NONCE_LEN" and "current_total s < - 1"
  shows "\<exists>w e. tcp_open mk hkdf sv (written (fst (client_send open_sink sid cn (- 1)))) open_sink sn = (w, Inl e) \<and>
     snd (client_recv (written w)) = Inl (Rejected BadOffset)"
proof -
  have "server_recv (MAGIC @ [VERSION] @ as_bytes sid @ cn @ u64_to_be (- 1)) =
      ([], Inr \<lparr>hello_session_id = sid, hello_nonce = cn, hello_offset = - 1\<rparr>)"
    using server_recv_hello [OF assms(2-4), of "- 1" "[]"] by simp
  with assms(1,2,5) show ?thesis
    by (simp add: client_send_def tcp_open_def refuse_def server_send_err_def client_recv_status status_bytes)
qed

lemma read_last:
  assumes "session_rep s h" and "r_cap (ring s) = 256" and "256 < length h"
  shows "snd (session_read_from s 0) = drop (length h - 256) h"
proof -
  have "h \<noteq> []" using assms(3) by auto
  then show ?thesis
    using ring_rep_read [of "ring s" h 0] assms by (simp add: session_read_from_def session_rep_def MAX_OUTPUT_BYTES_def)
qed

lemma replay_test:
  assumes "spawn_error env = None"
    and "256 < length (concat printed)" and "length (concat printed) + 2 < 2 ^ 64"
    and "0 < occurrences output_marker (drop (length (concat printed) - 256) (concat printed))"
    and "occurrences colour_query (drop (length (concat printed) - 256) (concat printed)) = 1"
    and "length cn = NONCE_LEN" and "\<forall>(cn, sn) \<in> set nonces. length cn = NONCE_LEN \<and> length sn = NONCE_LEN"
    and "\<And>k. cipher_ok (mk k)" and "\<And>k. encrypts (mk k)"
  shows "real_pty_replay_uses_absolute_offsets_across_tcp_reconnects mk hkdf env printed cn sn nonces"
proof -
  let ?sid = "''12345678''" and ?h = "concat printed"
  obtain sv0 s0 where sp: "spawn_session env ?sid ''/bin/sh'' 80 24 256 empty_server =
        (sv0, Inr (0, shell_command_for env ''/bin/sh''))"
      "sv0 = \<lparr>store = [0 \<mapsto> s0], next_addr = 1, registry = [?sid \<mapsto> 0]\<rparr>"
      "s0 = new_session ?sid ''/bin/sh'' 80 24 256 (clock env) (fresh_key env)"
    using assms(1) by (simp add: spawn_session_eq alloc_def reg_insert_def empty_server_def new_session_def fun_upd_def)
  let ?s = "foldl pty_output (send_input s0 test_input) printed"
  define sv1 where "sv1 = on_session 0 (\<lambda>s. foldl pty_output (send_input s test_input) printed) sv0"
  have sv: "sv1 = \<lparr>store = [0 \<mapsto> ?s], next_addr = 1, registry = [?sid \<mapsto> 0]\<rparr>"
    by (simp add: sv1_def sp(2) on_session_def fun_eq_iff)
  have "session_rep (send_input s0 test_input) []" using session_rep_new by (simp add: sp(3) session_rep_def)
  from pty_outputs(1) [OF this, of printed] assms(3) have rep: "session_rep ?s ?h" by simp
  have s: "r_cap (ring ?s) = 256" "psk ?s = fresh_key env" "\<not> ended ?s" "\<not> connected ?s"
    by (simp_all add: pty_outputs_keep pty_outputs(3)) (simp_all add: sp(3) session_defs new_session_def ring_new_def)
  have live: "live_session sv1 ?sid = Some (0, ?s)"
    by (simp only: sv) (simp add: live_session_def reg_get_def is_ended_def s(3))
  have tot: "unat (current_total ?s) = length ?h" by (rule session_rep_current [OF rep])
  have idok: "length ?sid = SESSION_ID_LEN" "valid_utf8 (as_bytes ?sid)"
    by (simp add: SESSION_ID_LEN_def, code_simp)
  have "snd (session_read_from ?s 0) = drop (length ?h - 256) ?h" by (rule read_last [OF rep s(1) assms(2)])
  moreover have "current_total ?s > 256" using tot assms(2) by (simp add: word_less_nat_alt)
  moreover have "unat (- 1 :: u64) = 2 ^ 64 - 1" by (simp add: unsigned_minus_1_eq_mask mask_eq_exp_minus_1)
  then have "current_total ?s < - 1" unfolding word_less_nat_alt tot using assms(3) by linarith
  moreover from old_version_refused [where mk = mk and hkdf = hkdf and sv = sv1 and sn = sn]
  have "refused_with mk hkdf (MAGIC @ [1]) sn sv1 VersionMismatch" "after_visit mk hkdf (MAGIC @ [1]) sn sv1 = sv1"
    by (auto simp: refused_with_def intro: refused_visit)
  moreover from bad_offset_refused [where mk = mk and hkdf = hkdf and sn = sn, OF live idok assms(6) calculation(3)]
  have "refused_with mk hkdf (written (fst (client_send open_sink ?sid cn (- 1)))) sn sv1 BadOffset"
    "after_visit mk hkdf (written (fst (client_send open_sink ?sid cn (- 1)))) sn sv1 = sv1"
    by (auto simp: refused_with_def intro: refused_visit)
  moreover have "lone_session sv1 ?sid (current_psk ?s) ?h"
    unfolding lone_session_def using live rep s(1) by (intro exI [of _ 0] exI [of _ ?s]) (simp add: sv)
  then have "replay_connections mk hkdf ?sid (current_psk ?s) True 0 0 nonces sv1"
    using replay_all [OF assms(2,3) idok assms(8,9) assms(7)] assms(5) by (simp add: replay_point_def)
  moreover have "store sv1 0 = Some ?s" "\<not> is_busy ?s" using sv s(4) by (simp_all add: is_busy_def)
  ultimately show ?thesis
    unfolding real_pty_replay_uses_absolute_offsets_across_tcp_reconnects_def Let_def sp(1) prod.case sum.case
      sv1_def [symmetric] using assms(4) by simp
qed

text \<open>What a shell that echoes nothing prints makes the test pass.\<close>

definition shell_prints :: bytes where
  "shell_prints = replicate 1024 0x30 @ colour_query @ [0x1B] @ as_bytes ''[6n'' @ [0x1B] @ as_bytes ''[?12$p'' @ output_marker"

lemma occurrences_other: "b \<noteq> hd pat \<Longrightarrow> pat \<noteq> [] \<Longrightarrow> occurrences pat (replicate n b @ bs) = occurrences pat bs"
  by (induction n) (cases pat; auto)+

lemma occurrences_last: "pat \<noteq> [] \<Longrightarrow> 0 < occurrences pat (bs @ pat)"
  by (induction bs) (cases pat; auto)+

lemma replay_test_applies:
  "real_pty_replay_uses_absolute_offsets_across_tcp_reconnects (\<lambda>_. tag_cipher) (\<lambda>_ _ _ _. [])
     (plain_env\<lparr>fresh_key := [7]\<rparr>) [shell_prints] (replicate 32 1) (replicate 32 2)
     (replicate 3 (replicate 32 3, replicate 32 4))"
proof (rule replay_test)
  let ?later = "colour_query @ [0x1B] @ as_bytes ''[6n'' @ [0x1B] @ as_bytes ''[?12$p''"
  have last: "drop (length (concat [shell_prints]) - 256) (concat [shell_prints]) =
      replicate (256 - length (?later @ output_marker)) 0x30 @ ?later @ output_marker"
    by (simp add: shell_prints_def colour_query_def output_marker_def)
  show "0 < occurrences output_marker (drop (length (concat [shell_prints]) - 256) (concat [shell_prints]))"
    unfolding last append_assoc [symmetric] by (rule occurrences_last) (simp add: output_marker_def)
  show "occurrences colour_query (drop (length (concat [shell_prints]) - 256) (concat [shell_prints])) = 1"
    unfolding last by (subst occurrences_other)
      (simp_all add: colour_query_def output_marker_def as_bytes_def)
  show "256 < length (concat [shell_prints])" "length (concat [shell_prints]) + 2 < 2 ^ 64"
    by (simp_all add: shell_prints_def colour_query_def output_marker_def)
qed (simp_all add: NONCE_LEN_def tag_cipher_ok tag_cipher_encrypts)

end
