(* ===== verification/Client_Tests.thy ===== *)
theory Client_Tests
  imports Unit_Tests
begin

text \<open>
  The tests of client/session/tests.rs that turn on what the client does rather than on how tokio
  polls it: standard output that fails, a frame that is cut, a reader that is stopped, and the
  path of the keys up to the detach key. As in \<open>Unit_Tests\<close> each is a predicate that holds for
  every cipher that decrypts what it has encrypted. The writer that holds a write back until the
  test releases it has no counterpart, for \<open>accept\<close> is not interrupted.
\<close>

section \<open>Standard output\<close>

text \<open>\<open>FailingWriter\<close>: every write fails, or only the flush.\<close>

definition failing_writer :: "bool \<Rightarrow> sink" where
  "failing_writer flush = \<lparr>written = [], room = (if flush then None else Some 0), flush_ok = False\<rparr>"

definition stdout_errors_are_fatal_and_never_commit_the_frame :: bool where
  "stdout_errors_are_fatal_and_never_commit_the_frame \<longleftrightarrow>
     list_all (\<lambda>flush.
       case accept (new_output (failing_writer flush)) 0 QUERIES of
         (so, Inr u) \<Rightarrow> False
       | (so, Inl e) \<Rightarrow> is_fatal e \<and> received so = 0) [False, True]"

lemma queries_length: "length QUERIES = 26"
  by (simp add: QUERIES_def)

lemma stdout_test: "stdout_errors_are_fatal_and_never_commit_the_frame"
  by (simp add: stdout_errors_are_fatal_and_never_commit_the_frame_def accept_def new_output_def
      failing_writer_def checked_add_def write_all_def saturating_sub_def output_failed_def queries_length)

section \<open>The reader\<close>

text \<open>The bytes of the one frame that a test's peer writes.\<close>

definition queries_frame :: "(bytes \<Rightarrow> cipher) \<Rightarrow> bytes \<Rightarrow> error + bytes" where
  "queries_frame mk key =
     (case write_frame open_sink (new_sealer mk key DIR_SERVER_TO_CLIENT) (Output 0 QUERIES) of
        ((wire, sealer), Inl e) \<Rightarrow> Inl e
      | ((wire, sealer), Inr u) \<Rightarrow> Inr (written wire))"

definition a_truncated_encrypted_frame_never_reaches_stdout :: "(bytes \<Rightarrow> cipher) \<Rightarrow> bool" where
  "a_truncated_encrypted_frame_never_reaches_stdout mk \<longleftrightarrow>
     (let key = replicate 32 6 in
      case queries_frame mk key of
        Inl e \<Rightarrow> False
      | Inr wire \<Rightarrow>
          (case client_reader (take (length wire - 3) wire) (new_opener mk key DIR_SERVER_TO_CLIENT)
             (new_output open_sink) [going_turn] of
             (so, res) \<Rightarrow> res = Some (Inr Disconnected) \<and> written (writer so) = [] \<and> received so = 0))"

text \<open>The reader takes the frame and is then told to stop.\<close>

definition stopping_reader_finishes_partial_writes_and_flush_before_committing :: "(bytes \<Rightarrow> cipher) \<Rightarrow> bool" where
  "stopping_reader_finishes_partial_writes_and_flush_before_committing mk \<longleftrightarrow>
     (let key = replicate 32 9 in
      case queries_frame mk key of
        Inl e \<Rightarrow> False
      | Inr wire \<Rightarrow>
          (case client_reader wire (new_opener mk key DIR_SERVER_TO_CLIENT) (new_output open_sink)
             [going_turn, going_turn\<lparr>stop_first := True\<rparr>] of
             (so, res) \<Rightarrow>
               res = Some (Inr Disconnected) \<and> received so = word_of_nat (length QUERIES) \<and>
               written (writer so) = QUERIES \<and>
               (case accept so 0 QUERIES of
                  (so', Inl e) \<Rightarrow> False
                | (so', Inr u) \<Rightarrow> written (writer so') = QUERIES)))"

lemma queries_frame_sent:
  assumes "\<And>k. cipher_ok (mk k)" and "\<And>k. encrypts (mk k)"
  obtains sl wire where "queries_frame mk key = Inr wire"
    "frame_wire (new_sealer mk key DIR_SERVER_TO_CLIENT) (Output 0 QUERIES) = (sl, Inr wire)"
proof -
  let ?s = "new_sealer mk key DIR_SERVER_TO_CLIENT"
  have "sendable (Output 0 QUERIES)"
    by (simp add: sendable_def MAX_RECORD_def MAX_OUTPUT_BYTES_def queries_length)
  from frame_wire_succeeds [of ?s, OF _ _ _ this] assms obtain c where
      c: "frame_wire ?s (Output 0 QUERIES) = (?s\<lparr>s_counter := 1\<rparr>, Inr c)" by (auto simp: new_sealer_def)
  from that [OF _ c] write_frame_wire [OF c reliable_open_sink(1)] show thesis by (simp add: queries_frame_def)
qed

lemma reader_tests:
  assumes "\<And>k. cipher_ok (mk k)" and "\<And>k. encrypts (mk k)"
  shows "a_truncated_encrypted_frame_never_reaches_stdout mk"
    and "stopping_reader_finishes_partial_writes_and_flush_before_committing mk"
proof -
  have sync: "in_sync (new_sealer mk key DIR_SERVER_TO_CLIENT) (new_opener mk key DIR_SERVER_TO_CLIENT)" for key
    by (rule new_ends_in_sync) (rule assms(1))
  obtain sl wire where w: "queries_frame mk (replicate 32 6) = Inr wire"
      "frame_wire (new_sealer mk (replicate 32 6) DIR_SERVER_TO_CLIENT) (Output 0 QUERIES) = (sl, Inr wire)"
    by (rule queries_frame_sent [OF assms])
  from frame_wire_InrD [OF w(2)] obtain ct where "wire = record_bytes ct" by blast
  then have "0 < length wire" by (simp only: length_record_bytes)
  then have "length wire - 3 < length wire" by simp
  from frame_wire_cut [OF sync w(2) this] w(1)
  show "a_truncated_encrypted_frame_never_reaches_stdout mk"
    by (simp add: a_truncated_encrypted_frame_never_reaches_stdout_def Let_def new_output_def going_turn_def)
next
  have sync: "in_sync (new_sealer mk key DIR_SERVER_TO_CLIENT) (new_opener mk key DIR_SERVER_TO_CLIENT)" for key
    by (rule new_ends_in_sync) (rule assms(1))
  obtain sl wire where w: "queries_frame mk (replicate 32 9) = Inr wire"
      "frame_wire (new_sealer mk (replicate 32 9) DIR_SERVER_TO_CLIENT) (Output 0 QUERIES) = (sl, Inr wire)"
    by (rule queries_frame_sent [OF assms])
  have "well_formed (Output 0 QUERIES)" by (simp add: MAX_OUTPUT_BYTES_def queries_length)
  from frame_stream.put_get [OF sync this w(2)] obtain op where
      "read_frame wire (new_opener mk (replicate 32 9) DIR_SERVER_TO_CLIENT) = (([], op), Inr (Output 0 QUERIES))"
    by (metis append_Nil2)
  moreover have "accept (new_output open_sink) 0 QUERIES =
      (\<lparr>writer = open_sink\<lparr>written := QUERIES\<rparr>, received = 26\<rparr>, Inr ())"
    by (subst accept_all_taken) (simp_all add: new_output_def queries_length saturating_sub_def)
  moreover have "accept \<lparr>writer = open_sink\<lparr>written := QUERIES\<rparr>, received = 26\<rparr> 0 QUERIES =
      (\<lparr>writer = open_sink\<lparr>written := QUERIES\<rparr>, received = 26\<rparr>, Inr ())"
    by (rule accept_seen) (simp_all add: queries_length)
  ultimately show "stopping_reader_finishes_partial_writes_and_flush_before_committing mk"
    using w(1) by (simp add: stopping_reader_finishes_partial_writes_and_flush_before_committing_def Let_def
        going_turn_def queries_length)
qed

section \<open>The writer\<close>

definition test_keys :: bytes where
  "test_keys =
     [0x1B] @ as_bytes ''[A'' @ [0x1B] @ as_bytes ''[200~echo hello'' @ [0x1B] @ as_bytes ''[201~'' @
     [0x1B] @ as_bytes '']10;rgb:ffff/ffff/ffff'' @ [0x07, 0x1B] @ as_bytes ''[2;3R'' @
     [0x1B] @ as_bytes ''[?12;2$y''"

text \<open>The payload of the first data frame among some.\<close>

fun first_data :: "frame list \<Rightarrow> bytes option" where
  "first_data [] = None"
| "first_data (Data d # fs) = Some d"
| "first_data (f # fs) = first_data fs"

text \<open>
  The timer ticks once, at the start, which may be before or after any of the three inputs. The
  peer reads three frames at most: an acknowledgement, a ping and the keys.
\<close>

definition input_preserves_queries_keys_and_paste_with_split_detach_prefix :: "(bytes \<Rightarrow> cipher) \<Rightarrow> bool" where
  "input_preserves_queries_keys_and_paste_with_split_detach_prefix mk \<longleftrightarrow>
     (let key = replicate 32 4;
          inputs = map (Keys \<circ> Some) [test_keys, [DETACH_PREFIX], [DETACH_KEY]] in
      list_all (\<lambda>ticks_after.
        case client_writer put_frame (open_sink, new_sealer mk key DIR_CLIENT_TO_SERVER) False
               (take ticks_after inputs @ [Tick 0] @ drop ticks_after inputs) of
          (l, res) \<Rightarrow>
            first_data (pull 3 read_frame (written (fst l)) (new_opener mk key DIR_CLIENT_TO_SERVER)) = Some test_keys \<and>
            res = Some Detached) [0, 1, 2, 3])"

lemma test_keys_scanned:
  "scan_keys False [] test_keys = Some (False, test_keys)" "scan_keys False [] [DETACH_PREFIX] = Some (True, [])"
  "scan_keys True [] [DETACH_KEY] = None"
  by (simp_all add: test_keys_def as_bytes_def DETACH_PREFIX_def DETACH_KEY_def)

lemma put_three:
  assumes "cipher_ok (s_cipher sl)" and "encrypts (s_cipher sl)" and "s_counter sl = 0"
    and "list_all sendable [f, g, h]"
  shows "\<exists>l1 l2 l3. put_frame (open_sink, sl) f = (l1, True) \<and> put_frame l1 g = (l2, True) \<and>
    put_frame l2 h = (l3, True) \<and> on_wire (open_sink, sl) [f] l1 \<and> on_wire (open_sink, sl) [f, g, h] l3"
proof -
  let ?l = "(open_sink, sl)"
  have room: "wire_room ?l (Suc (length fs))" if "length fs \<le> 2" for fs :: "frame list"
    using assms(1-3) that by (simp add: wire_room_def)
  have s: "sendable f" "sendable g" "sendable h" using assms(4) by simp_all
  have "on_wire ?l [] ?l" by (rule on_wire_Nil) simp
  from on_wire_put [OF this room s(1)] obtain l1 where l1: "put_frame ?l f = (l1, True)" "on_wire ?l [f] l1" by auto
  from on_wire_put [OF l1(2) room s(2)] obtain l2 where l2: "put_frame l1 g = (l2, True)" "on_wire ?l [f, g] l2" by auto
  from on_wire_put [OF l2(2) room s(3)] obtain l3 where "put_frame l2 h = (l3, True)" "on_wire ?l [f, g, h] l3" by auto
  with l1 l2 show ?thesis by blast
qed

lemma pull_on_wire:
  assumes "on_wire (open_sink, sl) fs l" and "in_sync sl op" and "list_all sendable fs" and "length fs \<le> n"
  shows "pull n read_frame (written (fst l)) op = fs"
proof -
  from assms(1) obtain cs where "traverse frame_wire sl fs = (snd l, Inr cs)" "written (fst l) = concat cs"
    by (auto simp: on_wire_def)
  moreover have "list_all well_formed fs" using assms(3) by (auto simp: list_all_iff sendable_def)
  ultimately show ?thesis using frame_stream.pull_all [OF assms(2)] assms(4) by simp
qed

lemma input_test:
  assumes "\<And>k. cipher_ok (mk k)" and "\<And>k. encrypts (mk k)"
  shows "input_preserves_queries_keys_and_paste_with_split_detach_prefix mk"
proof -
  let ?sl = "new_sealer mk (replicate 32 4) DIR_CLIENT_TO_SERVER"
  have "in_sync ?sl (new_opener mk (replicate 32 4) DIR_CLIENT_TO_SERVER)"
    by (rule new_ends_in_sync) (rule assms(1))
  note read = pull_on_wire [OF _ this]
  have ok: "cipher_ok (s_cipher ?sl)" "encrypts (s_cipher ?sl)" "s_counter ?sl = 0"
    using assms by (simp_all add: new_sealer_def)
  have s: "sendable (Data test_keys)" "sendable (Ack 0)" "sendable Ping"
    by (simp_all add: sendable_def MAX_RECORD_def test_keys_def)
  have full: "test_keys \<noteq> []" by (simp add: test_keys_def)
  from put_three [OF ok, of "Data test_keys" "Ack 0" Ping] s obtain l1 l2 l3 where
      keys_first: "put_frame (open_sink, ?sl) (Data test_keys) = (l1, True)" "put_frame l1 (Ack 0) = (l2, True)"
        "put_frame l2 Ping = (l3, True)" "on_wire (open_sink, ?sl) [Data test_keys] l1"
        "on_wire (open_sink, ?sl) [Data test_keys, Ack 0, Ping] l3" by auto
  from put_three [OF ok, of "Ack 0" Ping "Data test_keys"] s obtain m1 m2 m3 where
      tick_first: "put_frame (open_sink, ?sl) (Ack 0) = (m1, True)" "put_frame m1 Ping = (m2, True)"
        "put_frame m2 (Data test_keys) = (m3, True)" "on_wire (open_sink, ?sl) [Ack 0, Ping, Data test_keys] m3" by auto
  have "first_data (pull 3 read_frame (written (fst l))
      (new_opener mk (replicate 32 4) DIR_CLIENT_TO_SERVER)) = Some test_keys" if "l \<in> {l1, l3, m3}" for l
    using that read [OF keys_first(4), of 3] read [OF keys_first(5), of 3] read [OF tick_first(4), of 3] s
    by (auto simp del: pull.simps)
  with keys_first(1-3) tick_first(1-3) full show ?thesis
    by (simp add: input_preserves_queries_keys_and_paste_with_split_detach_prefix_def Let_def test_keys_scanned
        numeral_2_eq_2 del: pull.simps scan_keys.simps)
qed

end
