(* ===== verification/Crowd.thy ===== *)
theory Crowd
  imports Arrival Interleaving
begin

text \<open>
  The daemon at the grain of its accesses to shared data: any number of requests (theory
  \<open>Interleaving\<close>), of connections from their hello to the end of \<open>leave\<close> (theory \<open>Arrival\<close>), and
  the threads of the sessions, in any order. What is shown here holds under every interleaving,
  with the exceptions named; theories \<open>Takeover\<close> and \<open>Interleaving\<close> have a run for each of them.
\<close>

section \<open>Accesses\<close>

text \<open>
  A connection up to the end of its task: \<open>Coming\<close> as in \<open>Arrival\<close>; \<open>Departing\<close> when the epoch
  check of \<open>leave\<close> has succeeded and the flag is not yet cleared; \<open>Departed\<close>.
\<close>

datatype conn = Coming arrival | Departing nat u64 | Departed

fun conn_access :: "(bytes \<Rightarrow> cipher) \<Rightarrow> kdf \<Rightarrow> conn \<Rightarrow> server \<Rightarrow> server \<times> conn" where
  "conn_access mk hkdf (Coming (Serving c epoch)) sv =
     (sv, case store sv (at_addr c) of
            None \<Rightarrow> Departed
          | Some s \<Rightarrow> if is_current s epoch then Departing (at_addr c) epoch else Departed)"
| "conn_access mk hkdf (Coming t) sv = (case arrival_access mk hkdf t sv of (sv', t') \<Rightarrow> (sv', Coming t'))"
| "conn_access mk hkdf (Departing a epoch) sv = (on_session a (set_connected False) sv, Departed)"
| "conn_access mk hkdf Departed sv = (sv, Departed)"

text \<open>
  \<open>mark_ended\<close> in two accesses: the swap of the flag (with the notification), and the removal
  from the registry by the one caller whose swap was the first.
\<close>

definition swap_ended :: "nat \<Rightarrow> server \<Rightarrow> server" where
  "swap_ended a sv = on_session a (\<lambda>s. fst (mark_ended s)) sv"

definition unlist :: "nat \<Rightarrow> server \<Rightarrow> server" where
  "unlist a sv = (case store sv a of None \<Rightarrow> sv | Some s \<Rightarrow> reg_remove (ident s) sv)"

lemma mark_ended_accesses:
  assumes "store sv a = Some s" and "\<not> ended s"
  shows "unlist a (swap_ended a sv) = mark_session_ended a sv"
  using assms
  by (simp add: unlist_def swap_ended_def mark_session_ended_live reg_remove_def on_session_def mark_ended_def)

record crowd =
  shared_server :: server
  asking :: "nat \<Rightarrow> task"
  conns :: "nat \<Rightarrow> conn"
  unlisting :: "nat set"

definition ends_at :: "nat \<Rightarrow> crowd \<Rightarrow> crowd" where
  "ends_at a w = w\<lparr>shared_server := swap_ended a (shared_server w), unlisting := insert a (unlisting w)\<rparr>"

definition unlists_at :: "nat \<Rightarrow> crowd \<Rightarrow> crowd" where
  "unlists_at a w = w\<lparr>shared_server := unlist a (shared_server w), unlisting := unlisting w - {a}\<rparr>"

definition prints_at :: "nat \<Rightarrow> bytes \<Rightarrow> crowd \<Rightarrow> crowd" where
  "prints_at a bs w = w\<lparr>shared_server := on_session a (\<lambda>s. pty_output s bs) (shared_server w)\<rparr>"

definition asks_at :: "(bytes \<Rightarrow> string) \<Rightarrow> nat \<Rightarrow> u16 \<Rightarrow> nat \<Rightarrow> crowd \<Rightarrow> crowd" where
  "asks_at hx n p i w =
     (case task_access hx n p (asking w i) (shared_server w) of
        (sv, t) \<Rightarrow> w\<lparr>shared_server := sv, asking := (asking w)(i := t)\<rparr>)"

definition connects_at :: "(bytes \<Rightarrow> cipher) \<Rightarrow> kdf \<Rightarrow> nat \<Rightarrow> crowd \<Rightarrow> crowd" where
  "connects_at mk hkdf i w =
     (case conn_access mk hkdf (conns w i) (shared_server w) of
        (sv, c) \<Rightarrow> w\<lparr>shared_server := sv, conns := (conns w)(i := c)\<rparr>)"

text \<open>
  One access: of a request, of a connection (the end of whose service may come at any time), of
  the reader of a connection that is served, of a kill request, of the threads of a session.
\<close>

inductive crowd_step ::
  "(bytes \<Rightarrow> string) \<Rightarrow> nat \<Rightarrow> u16 \<Rightarrow> (bytes \<Rightarrow> cipher) \<Rightarrow> kdf \<Rightarrow> crowd \<Rightarrow> crowd \<Rightarrow> bool"
  for hx n p mk hkdf where
  asks: "crowd_step hx n p mk hkdf w (asks_at hx n p i w)"
| connects: "crowd_step hx n p mk hkdf w (connects_at mk hkdf i w)"
| handles: "conns w i = Coming (Serving c e) \<Longrightarrow> crowd_step hx n p mk hkdf w
    (w\<lparr>shared_server := on_session (at_addr c) (on_frame f) (shared_server w)\<rparr>)"
| kills: "crowd_step hx n p mk hkdf w (w\<lparr>shared_server := on_session a kill (shared_server w)\<rparr>)"
| prints: "crowd_step hx n p mk hkdf w (prints_at a bs w)"
| drains: "crowd_step hx n p mk hkdf w
    (w\<lparr>shared_server := on_session a (\<lambda>s. s\<lparr>to_pty := q, pty_open := b\<rparr>) (shared_server w)\<rparr>)"
| ends: "store (shared_server w) a = Some s \<Longrightarrow> \<not> ended s \<Longrightarrow> crowd_step hx n p mk hkdf w (ends_at a w)"
| unlists: "a \<in> unlisting w \<Longrightarrow> crowd_step hx n p mk hkdf w (unlists_at a w)"

definition crowd_start :: "crowd \<Rightarrow> bool" where
  "crowd_start w \<longleftrightarrow>
     shared_server w = empty_server \<and> unlisting w = {} \<and> (\<forall>i. starting (asking w i)) \<and>
     (\<forall>i. \<exists>r out sn. conns w i = Coming (Greeting r out sn))"

section \<open>What always holds\<close>

definition crowd_ok :: "crowd \<Rightarrow> bool" where
  "crowd_ok w \<longleftrightarrow>
     (\<forall>a. next_addr (shared_server w) \<le> a \<longrightarrow> store (shared_server w) a = None) \<and>
     (\<forall>sid a. registry (shared_server w) sid = Some a \<longrightarrow>
        (\<exists>s. store (shared_server w) a = Some s \<and> ident s = sid)) \<and>
     (\<forall>i a. asking w i = Spawned a \<longrightarrow> store (shared_server w) a \<noteq> None)"

lemma crowd_okD:
  assumes "crowd_ok w"
  shows "next_addr (shared_server w) \<le> a \<Longrightarrow> store (shared_server w) a = None"
    and "registry (shared_server w) sid = Some a \<Longrightarrow> \<exists>s. store (shared_server w) a = Some s \<and> ident s = sid"
    and "asking w i = Spawned a \<Longrightarrow> store (shared_server w) a \<noteq> None"
  using assms unfolding crowd_ok_def by blast+

lemma crowd_ok_start: "crowd_start w \<Longrightarrow> crowd_ok w"
proof -
  assume start: "crowd_start w"
  then have "asking w i \<noteq> Spawned a" for i a
    using start unfolding crowd_start_def by (metis starting.simps(4))
  with start show ?thesis by (simp add: crowd_start_def crowd_ok_def empty_server_def)
qed

text \<open>Accesses that only change sessions, and keep their identity and their end.\<close>

lemma crowd_ok_acts:
  assumes "crowd_ok w" and "\<And>s. ident (f s) = ident s"
  shows "crowd_ok (w\<lparr>shared_server := on_session a f (shared_server w)\<rparr>)"
  unfolding crowd_ok_def
proof (intro conjI allI impI)
  let ?w = "w\<lparr>shared_server := on_session a f (shared_server w)\<rparr>"
  show "\<exists>s. store (shared_server ?w) b = Some s \<and> ident s = sid"
    if "registry (shared_server ?w) sid = Some b" for sid b
    using crowd_okD(2) [OF assms(1), of sid b] that assms(2) by auto
  show "store (shared_server ?w) b \<noteq> None" if "asking ?w i = Spawned b" for i b
    using crowd_okD(3) [OF assms(1), of i b] that by auto
qed (use crowd_okD(1) [OF assms(1)] in auto)

lemma crowd_ok_conns [simp]: "crowd_ok (w\<lparr>conns := x\<rparr>) = crowd_ok w" "crowd_ok (w\<lparr>unlisting := y\<rparr>) = crowd_ok w"
  by (simp_all add: crowd_ok_def)

text \<open>What an access of a connection does to the server.\<close>

lemma conn_access_cases:
  obtains (idles) c' where "conn_access mk hkdf c sv = (sv, c')" and "\<And>x e. c' \<noteq> Coming (Serving x e)"
      and "\<And>x e. c' \<noteq> Coming (Entered x e)" and "\<And>x. c \<noteq> Coming (Entering x)"
      and "\<And>a e. c' = Departing a e \<Longrightarrow> \<exists>x s. c = Coming (Serving x e) \<and> at_addr x = a \<and>
             store sv a = Some s \<and> is_current s e"
  | (bumps) x e where "c = Coming (Entering x)" and "e = (case store sv (at_addr x) of None \<Rightarrow> 0 | Some s \<Rightarrow> snd (bump_epoch s))"
      and "conn_access mk hkdf c sv = (on_session (at_addr x) (\<lambda>s. fst (bump_epoch s)) sv, Coming (Entered x e))"
  | (flags) x e where "c = Coming (Entered x e)"
      and "conn_access mk hkdf c sv = (on_session (at_addr x) (set_connected True) sv, Coming (Serving x e))"
  | (clears) a e where "c = Departing a e"
      and "conn_access mk hkdf c sv = (on_session a (set_connected False) sv, Departed)"
proof (cases c)
  case (Coming t)
  have quiet: ?thesis if "arrival_access mk hkdf t sv = (sv, t')" "\<forall>x e. t \<noteq> Serving x e" "\<forall>x e. t' \<noteq> Serving x e"
      "\<forall>x e. t' \<noteq> Entered x e" "\<forall>x. t \<noteq> Entering x" for t'
  proof -
    have "conn_access mk hkdf c sv = (sv, Coming t')"
      using that(1,2) Coming by (cases t) auto
    then show ?thesis using that Coming by (intro idles [of "Coming t'"]) auto
  qed
  have closed: "refusing w st er \<noteq> Serving x e" "refusing w st er \<noteq> Entered x e" for w st er x e
    by (auto simp: refusing_def split: prod.splits sum.splits)
  show ?thesis
  proof (cases t)
    case (Entering x)
    with Coming show ?thesis by (intro bumps) auto
  next
    case (Entered x e)
    with Coming show ?thesis by (intro flags) auto
  next
    case (Serving x e)
    with Coming show ?thesis by (intro idles) (auto split: option.splits if_splits)
  qed (auto intro!: quiet simp: closed no_session_def Let_def
      split: prod.splits sum.splits option.splits if_splits)
next
  case (Departing a e)
  then show ?thesis by (intro clears) auto
next
  case Departed
  then show ?thesis by (intro idles) auto
qed

lemma crowd_ok_asks:
  assumes "crowd_ok w"
  shows "crowd_ok (asks_at hx n p i w)"
proof (rule task_access_cases [of hx n p "asking w i" "shared_server w"])
  fix t'
  assume acc: "task_access hx n p (asking w i) (shared_server w) = (shared_server w, t')" "\<not> is_spawned t'"
  then have "asks_at hx n p i w = w\<lparr>asking := (asking w)(i := t')\<rparr>" by (simp add: asks_at_def)
  moreover have "t' \<noteq> Spawned a" for a using acc(2) by auto
  ultimately show ?thesis using assms by (simp add: crowd_ok_def)
next
  fix a k resp
  assume "task_access hx n p (asking w i) (shared_server w) =
      (on_session a (\<lambda>s. s\<lparr>psk := k\<rparr>) (shared_server w), Replied resp)"
  then have eq: "asks_at hx n p i w =
      (w\<lparr>shared_server := on_session a (\<lambda>s. s\<lparr>psk := k\<rparr>) (shared_server w)\<rparr>)\<lparr>asking := (asking w)(i := Replied resp)\<rparr>"
    by (simp add: asks_at_def)
  have "crowd_ok (w\<lparr>shared_server := on_session a (\<lambda>s. s\<lparr>psk := k\<rparr>) (shared_server w)\<rparr>)"
    by (rule crowd_ok_acts [OF assms]) simp
  then show ?thesis unfolding eq by (simp add: crowd_ok_def)
next
  fix s sv a
  assume acc: "task_access hx n p (asking w i) (shared_server w) = (sv, Spawned a)"
    "alloc s (shared_server w) = (sv, a)"
  then have "asks_at hx n p i w = w\<lparr>shared_server := sv, asking := (asking w)(i := Spawned a)\<rparr>"
    by (simp add: asks_at_def)
  moreover have "registry (shared_server w) x \<noteq> Some (next_addr (shared_server w))" for x
    using crowd_okD(1,2) [OF assms] by fastforce
  ultimately show ?thesis using assms acc(2) unfolding crowd_ok_def alloc_def by (auto split: if_splits)
next
  fix a
  assume acc: "task_access hx n p (asking w i) (shared_server w) = (reg_insert a (shared_server w), Listed a)"
  then have "asks_at hx n p i w = w\<lparr>shared_server := reg_insert a (shared_server w), asking := (asking w)(i := Listed a)\<rparr>"
    by (simp add: asks_at_def)
  with assms show ?thesis by (auto simp: crowd_ok_def reg_insert_def split: option.splits)
qed

lemma kept_identity:
  "ident (on_frame f s) = ident s" "ident (kill s) = ident s" "ident (pty_output s bs) = ident s"
  "ident (fst (bump_epoch s)) = ident s" "ident (set_connected b s) = ident s" "ident (fst (mark_ended s)) = ident s"
  "ended (on_frame f s) = ended s" "ended (kill s) = ended s" "ended (pty_output s bs) = ended s"
  "ended (fst (bump_epoch s)) = ended s" "ended (set_connected b s) = ended s" "ended (fst (mark_ended s))"
  by (cases f; simp add: session_defs Let_def)+

lemma crowd_step_ok:
  assumes "crowd_step hx n p mk hkdf w w'" and "crowd_ok w"
  shows "crowd_ok w'"
  using assms(1)
proof cases
  case (asks i)
  then show ?thesis using crowd_ok_asks [OF assms(2)] by simp
next
  case (connects i)
  have eq: "w' = (w\<lparr>shared_server := fst (conn_access mk hkdf (conns w i) (shared_server w))\<rparr>)\<lparr>conns := (conns w)(i :=
      snd (conn_access mk hkdf (conns w i) (shared_server w)))\<rparr>"
    using connects by (simp add: connects_at_def split: prod.split)
  show ?thesis
    unfolding eq crowd_ok_conns
    by (rule conn_access_cases [of mk hkdf "conns w i" "shared_server w"])
      (use assms(2) in \<open>simp_all add: crowd_ok_acts kept_identity\<close>)
next
  case (unlists a)
  with assms(2) show ?thesis
    by (auto simp: crowd_ok_def unlists_at_def unlist_def reg_remove_def split: option.splits)
qed (use crowd_ok_acts [OF assms(2)] in \<open>simp_all add: prints_at_def ends_at_def swap_ended_def kept_identity\<close>)

interpretation crowd: step_invariant "crowd_step hx n p mk hkdf" crowd_ok
  by unfold_locales (rule crowd_step_ok)

section \<open>A session that has ended\<close>

text \<open>
  A session that has ended, is not about to be registered and has been removed from the registry
  or is about to be.
\<close>

definition going :: "string \<Rightarrow> nat \<Rightarrow> crowd \<Rightarrow> bool" where
  "going sid a w \<longleftrightarrow>
     (\<exists>s. store (shared_server w) a = Some s \<and> ident s = sid \<and> ended s) \<and> (\<forall>i. asking w i \<noteq> Spawned a) \<and>
     (a \<in> unlisting w \<or> registry (shared_server w) sid \<noteq> Some a)"

text \<open>No access changes the registry at an address but the registration of a session that has been started.\<close>

lemma asks_at_gone:
  assumes "crowd_ok w" and "going sid a w"
  shows "going sid a (asks_at hx n p i w)"
proof (rule task_access_cases [of hx n p "asking w i" "shared_server w"])
  fix t'
  assume acc: "task_access hx n p (asking w i) (shared_server w) = (shared_server w, t')" "\<not> is_spawned t'"
  moreover have "t' \<noteq> Spawned b" for b using acc(2) by auto
  ultimately show ?thesis using assms(2) by (auto simp: going_def asks_at_def)
next
  fix b k resp
  assume "task_access hx n p (asking w i) (shared_server w) =
      (on_session b (\<lambda>s. s\<lparr>psk := k\<rparr>) (shared_server w), Replied resp)"
  with assms(2) show ?thesis by (auto simp: going_def asks_at_def)
next
  fix s sv b
  assume acc: "task_access hx n p (asking w i) (shared_server w) = (sv, Spawned b)"
    "alloc s (shared_server w) = (sv, b)"
  have "b \<noteq> a" using assms crowd_okD(1) [OF assms(1), of a] acc(2) by (auto simp: going_def alloc_def)
  with acc assms(2) show ?thesis by (auto simp: going_def asks_at_def alloc_def)
next
  fix b
  assume acc: "task_access hx n p (asking w i) (shared_server w) = (reg_insert b (shared_server w), Listed b)"
    "asking w i = Spawned b"
  then have "b \<noteq> a" using assms(2) by (auto simp: going_def)
  with acc assms(2) show ?thesis by (auto simp: going_def asks_at_def reg_insert_def split: option.splits)
qed

lemma going_acts:
  assumes "going sid a w" and "\<And>s. ident (f s) = ident s \<and> (ended s \<longrightarrow> ended (f s))"
  shows "going sid a (w\<lparr>shared_server := on_session b f (shared_server w)\<rparr>)"
  using assms by (auto simp: going_def)

lemma going_conns [simp]: "going sid a (w\<lparr>conns := x\<rparr>) = going sid a w"
  by (simp add: going_def)

lemma going_step:
  assumes "crowd_step hx n p mk hkdf w w'" and "crowd_ok w" and "going sid a w"
  shows "going sid a w'"
  using assms(1)
proof cases
  case (asks i)
  then show ?thesis using asks_at_gone [OF assms(2,3)] by simp
next
  case (connects i)
  have eq: "w' = (w\<lparr>shared_server := fst (conn_access mk hkdf (conns w i) (shared_server w))\<rparr>)\<lparr>conns := (conns w)(i :=
      snd (conn_access mk hkdf (conns w i) (shared_server w)))\<rparr>"
    using connects by (simp add: connects_at_def split: prod.split)
  show ?thesis
    unfolding eq going_conns
    by (rule conn_access_cases [of mk hkdf "conns w i" "shared_server w"])
      (use assms(3) in \<open>simp_all add: going_acts kept_identity\<close>)
next
  case (ends b s)
  with going_acts [OF assms(3), of "\<lambda>s. fst (mark_ended s)" b] show ?thesis
    by (auto simp: ends_at_def swap_ended_def going_def kept_identity)
next
  case (unlists b)
  with assms(3) show ?thesis
    by (auto simp: going_def unlists_at_def unlist_def reg_remove_def split: option.splits)
qed (use going_acts [OF assms(3)] in \<open>simp_all add: prints_at_def kept_identity\<close>)

lemma going_runs: "(crowd_step hx n p mk hkdf)\<^sup>*\<^sup>* w w' \<Longrightarrow> crowd_ok w \<Longrightarrow> going sid a w \<Longrightarrow> going sid a w'"
proof (induction rule: rtranclp_induct)
  case (step v v')
  then show ?case using going_step crowd.keeps_runs by blast
qed simp

lemma going_gone:
  assumes "crowd_ok w" and "going sid a w" and "a \<notin> unlisting w"
  shows "reg_get (shared_server w) x \<noteq> Some a"
  using assms crowd_okD(2) [OF assms(1), of x a] by (auto simp: going_def reg_get_def)

lemma ends_going:
  assumes "store (shared_server w) a = Some s" and "\<forall>i. asking w i \<noteq> Spawned a"
  shows "going (ident s) a (ends_at a w)"
  using assms by (auto simp: going_def ends_at_def swap_ended_def kept_identity)

section \<open>A session that is held\<close>

text \<open>
  Connection \<open>i\<close> holds the session at \<open>a\<close> in epoch \<open>n\<close>, and nothing is under way that could still
  free it or change its key: no departure that has passed its epoch check, no attach request that
  has passed its busy test, no second connection in the same epoch.
\<close>

definition holds :: "nat \<Rightarrow> nat \<Rightarrow> u64 \<Rightarrow> crowd \<Rightarrow> bool" where
  "holds i a n w \<longleftrightarrow>
     (\<exists>c s. conns w i = Coming (Serving c n) \<and> at_addr c = a \<and> store (shared_server w) a = Some s \<and>
        is_busy s \<and> is_current s n) \<and>
     (\<forall>j e. conns w j \<noteq> Departing a e) \<and> (\<forall>j env. asking w j \<noteq> Idle env a) \<and>
     (\<forall>j c. j \<noteq> i \<longrightarrow> conns w j = Coming (Serving c n) \<or> conns w j = Coming (Entered c n) \<longrightarrow> at_addr c \<noteq> a)"

text \<open>Connection \<open>i\<close> stays, no other one joins (which would count up the epoch) and the session does not end.\<close>

definition stays :: "nat \<Rightarrow> nat \<Rightarrow> crowd \<Rightarrow> crowd \<Rightarrow> bool" where
  "stays i a w w' \<longleftrightarrow>
     conns w' i = conns w i \<and>
     map_option active_epoch (store (shared_server w') a) = map_option active_epoch (store (shared_server w) a) \<and>
     map_option is_ended (store (shared_server w') a) = map_option is_ended (store (shared_server w) a)"

text \<open>An attach request that has found the session and not yet been answered.\<close>

fun attaching :: "nat \<Rightarrow> task \<Rightarrow> bool" where
  "attaching a (Found env b) \<longleftrightarrow> b = a"
| "attaching a (Unended env b) \<longleftrightarrow> b = a"
| "attaching a (SeenConnected env b) \<longleftrightarrow> b = a"
| "attaching a _ \<longleftrightarrow> False"

definition busy_answer :: task where
  "busy_answer = Replied (ErrResponse ''session busy (already attached)'')"

lemma attaching_refused:
  assumes "attaching a t" and "store sv a = Some s" and "is_busy s"
  shows "\<exists>t'. task_access hx n p t sv = (sv, t') \<and> (attaching a t' \<or> t' = busy_answer)"
  using assms by (cases t) (auto simp: with_session_def is_busy_def busy_answer_def)

text \<open>What one access leaves of it.\<close>

definition held_state :: "nat \<Rightarrow> crowd \<Rightarrow> (bytes \<times> bool) option" where
  "held_state a w = map_option (\<lambda>s. (current_psk s, is_busy s)) (store (shared_server w) a)"

lemma idle_only_if_free:
  assumes "task_access hx n p t sv = (sv', Idle env a)" and "store sv a = Some s" and "is_busy s"
  shows "False"
  using assms by (cases t) (auto simp: with_session_def is_busy_def Let_def
      split: option.splits if_splits prod.splits sum.splits)

lemma asks_at_holds:
  assumes "crowd_ok w" and "holds i a n w"
  shows "holds i a n (asks_at hx m p j w) \<and> held_state a (asks_at hx m p j w) = held_state a w \<and>
    (\<forall>k. attaching a (asking w k) \<longrightarrow>
       attaching a (asking (asks_at hx m p j w) k) \<or> asking (asks_at hx m p j w) k = busy_answer)"
proof -
  from assms(2) obtain c s where s: "conns w i = Coming (Serving c n)" "at_addr c = a"
      "store (shared_server w) a = Some s" "is_busy s" "is_current s n" by (auto simp: holds_def)
  obtain sv t where acc: "task_access hx m p (asking w j) (shared_server w) = (sv, t)" by force
  then have eq: "asks_at hx m p j w = w\<lparr>shared_server := sv, asking := (asking w)(j := t)\<rparr>" by (simp add: asks_at_def)
  have same: "store sv a = Some s"
  proof (rule task_access_cases [of hx m p "asking w j" "shared_server w"])
    fix b k resp
    assume r: "task_access hx m p (asking w j) (shared_server w) =
        (on_session b (\<lambda>s. s\<lparr>psk := k\<rparr>) (shared_server w), Replied resp)" "\<exists>env. asking w j = Idle env b"
    with assms(2) have "b \<noteq> a" by (auto simp: holds_def)
    with r(1) acc s(3) show ?thesis by auto
  next
    fix s' sv' b
    assume "task_access hx m p (asking w j) (shared_server w) = (sv', Spawned b)" "alloc s' (shared_server w) = (sv', b)"
    with acc s(3) crowd_okD(1) [OF assms(1), of a] show ?thesis by (auto simp: alloc_def)
  next
    fix b
    assume "task_access hx m p (asking w j) (shared_server w) = (reg_insert b (shared_server w), Listed b)"
    with acc s(3) show ?thesis by (auto simp: reg_insert_def split: option.splits)
  qed (use acc s(3) in auto)
  have "t \<noteq> Idle env a" for env using idle_only_if_free [of hx m p "asking w j" "shared_server w" sv env a s] acc s by auto
  with assms(2) same s have "holds i a n (asks_at hx m p j w)" by (auto simp: holds_def eq)
  moreover have "attaching a t \<or> t = busy_answer" if "attaching a (asking w j)"
    using attaching_refused [OF that s(3,4), of hx m p] acc by auto
  ultimately show ?thesis using same s(3) by (auto simp: eq held_state_def)
qed

lemma holds_acts:
  assumes "holds i a n w"
    and "\<And>s. psk (f s) = psk s \<and> ended (f s) = ended s \<and> active_epoch (f s) = active_epoch s \<and>
           (connected s \<longrightarrow> connected (f s))"
  shows "holds i a n (w\<lparr>shared_server := on_session b f (shared_server w)\<rparr>) \<and>
    held_state a (w\<lparr>shared_server := on_session b f (shared_server w)\<rparr>) = held_state a w"
  using assms
  by (auto simp: holds_def held_state_def is_busy_def is_current_def is_ended_def current_psk_def)

lemma kept_hold:
  "psk (on_frame f s) = psk s" "psk (kill s) = psk s" "psk (pty_output s bs) = psk s"
  "active_epoch (on_frame f s) = active_epoch s" "active_epoch (kill s) = active_epoch s"
  "active_epoch (pty_output s bs) = active_epoch s"
  "connected (on_frame f s) = connected s" "connected (kill s) = connected s" "connected (pty_output s bs) = connected s"
  by (cases f; simp add: session_defs Let_def)+

lemma connects_at_holds:
  assumes "holds i a n w" and "stays i a w (connects_at mk hkdf j w)"
  shows "holds i a n (connects_at mk hkdf j w) \<and> held_state a (connects_at mk hkdf j w) = held_state a w"
proof -
  from assms(1) obtain c s where s: "conns w i = Coming (Serving c n)" "at_addr c = a"
      "store (shared_server w) a = Some s" "is_busy s" "is_current s n" by (auto simp: holds_def)
  have no_dep: "conns w j \<noteq> Departing a e" for e using assms(1) by (auto simp: holds_def)
  have other: "at_addr x \<noteq> a" if "j \<noteq> i" "conns w j = Coming (Serving x n) \<or> conns w j = Coming (Entered x n)" for x
    using assms(1) that by (auto simp: holds_def)
  show ?thesis
  proof (rule conn_access_cases [of mk hkdf "conns w j" "shared_server w"])
    fix c'
    assume r: "conn_access mk hkdf (conns w j) (shared_server w) = (shared_server w, c')"
      "\<And>x e. c' \<noteq> Coming (Serving x e)" "\<And>x e. c' \<noteq> Coming (Entered x e)"
      and dep: "\<And>b e. c' = Departing b e \<Longrightarrow> \<exists>x s. conns w j = Coming (Serving x e) \<and> at_addr x = b \<and>
             store (shared_server w) b = Some s \<and> is_current s e"
    from r(1) have eq: "connects_at mk hkdf j w = w\<lparr>conns := (conns w)(j := c')\<rparr>" by (simp add: connects_at_def)
    have "j \<noteq> i" using assms(2) s(1) r(2) by (auto simp: stays_def eq)
    moreover have "c' \<noteq> Departing a e" for e
      using dep [of a e] s(3,5) other calculation by (fastforce simp: is_current_def)
    ultimately show ?thesis using assms(1) r(2,3) by (auto simp: holds_def held_state_def eq)
  next
    fix x e
    assume r: "conns w j = Coming (Entering x)"
      "conn_access mk hkdf (conns w j) (shared_server w) =
        (on_session (at_addr x) (\<lambda>s. fst (bump_epoch s)) (shared_server w), Coming (Entered x e))"
    then have eq: "connects_at mk hkdf j w = w\<lparr>shared_server := on_session (at_addr x) (\<lambda>s. fst (bump_epoch s)) (shared_server w),
        conns := (conns w)(j := Coming (Entered x e))\<rparr>" by (simp add: connects_at_def)
    have "at_addr x \<noteq> a" using assms(2) s(3) by (auto simp: stays_def eq bump_epoch_def)
    with r(1) s(1) assms(1) show ?thesis by (auto simp: holds_def held_state_def eq)
  next
    fix x e
    assume r: "conns w j = Coming (Entered x e)"
      "conn_access mk hkdf (conns w j) (shared_server w) =
        (on_session (at_addr x) (set_connected True) (shared_server w), Coming (Serving x e))"
    let ?w = "w\<lparr>shared_server := on_session (at_addr x) (set_connected True) (shared_server w)\<rparr>"
    from r have eq: "connects_at mk hkdf j w = ?w\<lparr>conns := (conns w)(j := Coming (Serving x e))\<rparr>"
      by (simp add: connects_at_def)
    have "j \<noteq> i" using r(1) s(1) by auto
    with other r(1) have new: "e = n \<Longrightarrow> at_addr x \<noteq> a" by auto
    from holds_acts [OF assms(1), of "set_connected True" "at_addr x"]
    have "holds i a n ?w \<and> held_state a ?w = held_state a w" by (simp add: set_connected_def)
    with new \<open>j \<noteq> i\<close> show ?thesis unfolding eq by (auto simp: holds_def held_state_def)
  next
    fix b e
    assume r: "conns w j = Departing b e"
      "conn_access mk hkdf (conns w j) (shared_server w) =
        (on_session b (set_connected False) (shared_server w), Departed)"
    then have eq: "connects_at mk hkdf j w = w\<lparr>shared_server := on_session b (set_connected False) (shared_server w),
        conns := (conns w)(j := Departed)\<rparr>" by (simp add: connects_at_def)
    have "b \<noteq> a" using no_dep r(1) by auto
    with r(1) s(1) assms(1) show ?thesis by (auto simp: holds_def held_state_def eq)
  qed
qed

text \<open>A step leaves the hold and the key, and brings an attach request no further than to its refusal.\<close>

definition kept :: "nat \<Rightarrow> crowd \<Rightarrow> crowd \<Rightarrow> bool" where
  "kept a w w' \<longleftrightarrow> held_state a w' = held_state a w \<and>
     (\<forall>k. attaching a (asking w k) \<or> asking w k = busy_answer \<longrightarrow>
        attaching a (asking w' k) \<or> asking w' k = busy_answer)"

lemma kept_simp [simp]: "asking w' = asking w \<Longrightarrow> kept a w w' \<longleftrightarrow> held_state a w' = held_state a w"
  by (auto simp: kept_def)

lemma asks_at_kept:
  assumes "crowd_ok w" and "holds i a n w"
  shows "holds i a n (asks_at hx m p j w) \<and> kept a w (asks_at hx m p j w)"
proof -
  have "asking (asks_at hx m p j w) k = busy_answer" if "asking w k = busy_answer" for k
    using that by (cases "k = j") (auto simp: asks_at_def busy_answer_def split: prod.splits)
  with asks_at_holds [OF assms] show ?thesis by (auto simp: kept_def)
qed

lemma holds_step:
  assumes "crowd_step hx m p mk hkdf w w'" and "crowd_ok w" and "holds i a n w" and "stays i a w w'"
  shows "holds i a n w' \<and> kept a w w'"
  using assms(1)
proof cases
  case (asks j)
  with asks_at_kept [OF assms(2,3)] show ?thesis by simp
next
  case (connects j)
  have "asking (connects_at mk hkdf j w) = asking w" by (simp add: connects_at_def split: prod.splits)
  with connects connects_at_holds [OF assms(3)] assms(4) show ?thesis by simp
next
  case (ends b s)
  have "b \<noteq> a" using assms(4) ends by (auto simp: stays_def ends_at_def swap_ended_def is_ended_def kept_identity)
  with ends assms(3) show ?thesis by (auto simp: holds_def held_state_def ends_at_def swap_ended_def)
next
  case (unlists b)
  with assms(3) show ?thesis
    by (auto simp: holds_def held_state_def unlists_at_def unlist_def reg_remove_def split: option.splits)
qed (use holds_acts [OF assms(3)] in \<open>auto simp: prints_at_def kept_identity kept_hold\<close>)

lemma holds_runs:
  assumes "(\<lambda>v v'. crowd_step hx m p mk hkdf v v' \<and> stays i a v v')\<^sup>*\<^sup>* w w'" and "crowd_ok w" and "holds i a n w"
  shows "crowd_ok w' \<and> holds i a n w' \<and> kept a w w'"
  using assms(1)
proof (induction rule: rtranclp_induct)
  case base
  then show ?case using assms(2,3) by simp
next
  case (step v v')
  then have v: "crowd_ok v" "holds i a n v" "kept a w v" "crowd_step hx m p mk hkdf v v'" "stays i a v v'" by auto
  from holds_step [OF v(4,1,2,5)] crowd_step_ok [OF v(4,1)] v(3) show ?case unfolding kept_def by metis
qed

section \<open>Properties\<close>

text \<open>C12. An attached session is exclusive, at the grain of single accesses. Take any moment at which a
  connection is served and holds its session, no departure from the session has passed its epoch
  check and not yet cleared the flag, no attach request has passed its busy test and not yet
  changed the key (the two races, of which other theorems have runs), and no other connection has
  the same epoch number, which would take \<open>2 ^ 64\<close> of them. However requests, connections and
  threads are interleaved from there, until the connection's service ends, another one takes the
  session over or the shell ends: the key stays the same, the session stays busy, each attach
  request that has found it or finds it is refused as busy if it is answered, and neither race
  begins.\<close>

theorem attached_session_keeps_key:
  assumes "crowd_start w0" and "(crowd_step hx m p mk hkdf)\<^sup>*\<^sup>* w0 w1" and "holds i a n w1"
    and "(\<lambda>v v'. crowd_step hx m p mk hkdf v v' \<and> stays i a v v')\<^sup>*\<^sup>* w1 w2"
  shows "\<exists>s1 s2. store (shared_server w1) a = Some s1 \<and> store (shared_server w2) a = Some s2 \<and>
    current_psk s2 = current_psk s1 \<and> is_busy s2 \<and> is_current s2 n \<and> holds i a n w2 \<and>
    (\<forall>k. attaching a (asking w1 k) \<longrightarrow> attaching a (asking w2 k) \<or> asking w2 k = busy_answer) \<and>
    (\<forall>sid env. reg_get (shared_server w2) sid = Some a \<longrightarrow>
       do_attach hx p env (shared_server w2) sid =
         (shared_server w2, ErrResponse ''session busy (already attached)''))"
proof -
  from crowd.keeps_runs [OF assms(2) crowd_ok_start [OF assms(1)]] have "crowd_ok w1" .
  from holds_runs [OF assms(4) this assms(3)] have w2: "holds i a n w2" "kept a w1 w2" by auto
  from assms(3) w2(1) obtain s1 s2 where s: "store (shared_server w1) a = Some s1"
      "store (shared_server w2) a = Some s2" "is_busy s2" "is_current s2 n" by (auto simp: holds_def)
  with w2(2) have "current_psk s2 = current_psk s1" by (simp add: kept_def held_state_def)
  moreover have "do_attach hx p env (shared_server w2) sid =
      (shared_server w2, ErrResponse ''session busy (already attached)'')"
    if "reg_get (shared_server w2) sid = Some a" for sid env
    using that s(2,3) by (simp add: do_attach_def is_busy_def)
  ultimately show ?thesis using s w2 unfolding kept_def by blast
qed

text \<open>C25. A session that has ended is gone for good, at the grain of single accesses: if a shell ends
  after its session has been registered, then as soon as \<open>mark_ended\<close> has removed it no lookup
  finds it again, in whatever way requests, connections and threads are interleaved, even if two
  requests draw its identifier; it stays ended, and an attach or kill request or a hello that names it
  gets the answer for a session that does not exist or another session. (A shell that ends before
  is the subject of the next theorem.)\<close>

theorem ended_session_gone:
  assumes "crowd_start w0" and "(crowd_step hx m p mk hkdf)\<^sup>*\<^sup>* w0 w1"
    and "store (shared_server w1) a = Some s" and "\<not> is_ended s" and "\<forall>i. asking w1 i \<noteq> Spawned a"
    and "(crowd_step hx m p mk hkdf)\<^sup>*\<^sup>* (ends_at a w1) w2" and "a \<notin> unlisting w2"
  shows "(\<exists>s2. store (shared_server w2) a = Some s2 \<and> is_ended s2 \<and> ident s2 = ident s) \<and>
    (\<forall>sid. reg_get (shared_server w2) sid \<noteq> Some a) \<and>
    (\<forall>env sid. snd (task_access hx m p (Looking env sid) (shared_server w2)) \<noteq> Found env a) \<and>
    (\<forall>hello r out sn. snd (arrival_access mk hkdf (Seeking hello r out sn) (shared_server w2)) \<noteq> Sought hello r out sn a)"
proof -
  from crowd.keeps_runs [OF assms(2) crowd_ok_start [OF assms(1)]] have ok: "crowd_ok w1" .
  have "crowd_ok (ends_at a w1)"
    by (rule crowd_step_ok [OF crowd_step.ends [OF assms(3)] ok]) (use assms(4) in \<open>simp add: is_ended_def\<close>)
  from going_runs [OF assms(6) this ends_going [OF assms(3,5)]] crowd.keeps_runs [OF assms(6) this]
  have w2: "going (ident s) a w2" "crowd_ok w2" by auto
  have none: "reg_get (shared_server w2) sid \<noteq> Some a" for sid by (rule going_gone [OF w2(2,1) assms(7)])
  moreover have "refusing out st er \<noteq> Sought hello r out' sn a" for out st er hello r out' sn
    by (auto simp: refusing_def split: prod.splits sum.splits)
  ultimately show ?thesis
    using w2(1) by (auto simp: going_def is_ended_def no_session_def split: option.splits)
qed

section \<open>A shell that ends before its session is registered\<close>

text \<open>The session at \<open>a\<close> has ended and is registered all the same, and nothing is under way for its identifier.\<close>

definition stuck :: "string \<Rightarrow> nat \<Rightarrow> crowd \<Rightarrow> bool" where
  "stuck sid a w \<longleftrightarrow>
     (\<exists>s. store (shared_server w) a = Some s \<and> ident s = sid \<and> ended s) \<and> a \<notin> unlisting w \<and>
     registry (shared_server w) sid = Some a \<and> (\<forall>i. claim (shared_server w) (asking w i) \<noteq> Some sid) \<and>
     (\<forall>b s. b \<noteq> a \<longrightarrow> store (shared_server w) b = Some s \<longrightarrow> ident s = sid \<longrightarrow> ended s \<and> b \<notin> unlisting w)"

lemma stuck_acts:
  assumes "stuck sid a w" and "\<And>s. ident (f s) = ident s \<and> (ended s \<longrightarrow> ended (f s))"
  shows "stuck sid a (w\<lparr>shared_server := on_session b f (shared_server w)\<rparr>)"
  using assms claim_on_session [of f b "shared_server w"]
  by (auto simp: stuck_def) metis

lemma stuck_conns [simp]: "stuck sid a (w\<lparr>conns := x\<rparr>) = stuck sid a w"
  by (simp add: stuck_def)

lemma asks_at_stuck:
  assumes "crowd_ok w" and "stuck sid a w"
  shows "stuck sid a (asks_at hx n p i w)"
proof (rule task_access_cases [of hx n p "asking w i" "shared_server w"])
  fix t'
  assume acc: "task_access hx n p (asking w i) (shared_server w) = (shared_server w, t')"
    "\<forall>sid. claim (shared_server w) t' = Some sid \<longrightarrow> registry (shared_server w) sid = None"
  then show ?thesis using assms(2) by (auto simp: stuck_def asks_at_def)
next
  fix b k resp
  assume acc: "task_access hx n p (asking w i) (shared_server w) =
      (on_session b (\<lambda>s. s\<lparr>psk := k\<rparr>) (shared_server w), Replied resp)"
  have "stuck sid a (w\<lparr>shared_server := on_session b (\<lambda>s. s\<lparr>psk := k\<rparr>) (shared_server w)\<rparr>)"
    by (rule stuck_acts [OF assms(2)]) simp
  with acc show ?thesis by (auto simp: stuck_def asks_at_def)
next
  fix s sv b
  assume acc: "task_access hx n p (asking w i) (shared_server w) = (sv, Spawned b)"
    "alloc s (shared_server w) = (sv, b)" "claim (shared_server w) (asking w i) = Some (ident s)" "\<not> ended s"
  then have s: "ident s \<noteq> sid" using assms(2) by (auto simp: stuck_def)
  have b: "store (shared_server w) b = None" "sv = (shared_server w)\<lparr>store := (store (shared_server w))(b \<mapsto> s),
      next_addr := Suc b\<rparr>"
    using crowd_okD(1) [OF assms(1), of b] acc(2) by (auto simp: alloc_def)
  then have "b \<noteq> a" using assms(2) by (auto simp: stuck_def)
  have "claim sv (asking w j) = claim (shared_server w) (asking w j)" for j
    using crowd_okD(3) [OF assms(1), of j] b by (intro claim_unspawned) auto
  with acc(1) b(2) s \<open>b \<noteq> a\<close> assms(2) show ?thesis by (auto simp: stuck_def asks_at_def)
next
  fix b
  assume acc: "task_access hx n p (asking w i) (shared_server w) = (reg_insert b (shared_server w), Listed b)"
    "asking w i = Spawned b"
  from crowd_okD(3) [OF assms(1) acc(2)] obtain t where t: "store (shared_server w) b = Some t" by auto
  then have "ident t \<noteq> sid" using assms(2) acc(2) unfolding stuck_def by (metis claim.simps(2) option.map(2))
  moreover have "claim (reg_insert b (shared_server w)) u = claim (shared_server w) u" for u
    by (intro claim_unspawned) (simp add: reg_insert_def split: option.splits)
  ultimately show ?thesis using acc(1) t assms(2) by (auto simp: stuck_def asks_at_def reg_insert_def)
qed

lemma stuck_step:
  assumes "crowd_step hx n p mk hkdf w w'" and "crowd_ok w" and "stuck sid a w"
  shows "stuck sid a w'"
  using assms(1)
proof cases
  case (asks i)
  then show ?thesis using asks_at_stuck [OF assms(2,3)] by simp
next
  case (connects i)
  have eq: "w' = (w\<lparr>shared_server := fst (conn_access mk hkdf (conns w i) (shared_server w))\<rparr>)\<lparr>conns := (conns w)(i :=
      snd (conn_access mk hkdf (conns w i) (shared_server w)))\<rparr>"
    using connects by (simp add: connects_at_def split: prod.split)
  show ?thesis
    unfolding eq stuck_conns
    by (rule conn_access_cases [of mk hkdf "conns w i" "shared_server w"])
      (use assms(3) in \<open>simp_all add: stuck_acts kept_identity\<close>)
next
  case (ends b s)
  then have "b \<noteq> a" using assms(3) by (auto simp: stuck_def)
  moreover from this have "ident s \<noteq> sid" using ends assms(3) by (auto simp: stuck_def)
  moreover have "stuck sid a (w\<lparr>shared_server := on_session b (\<lambda>s. fst (mark_ended s)) (shared_server w)\<rparr>)"
    by (rule stuck_acts [OF assms(3)]) (simp add: kept_identity)
  ultimately show ?thesis using ends by (auto simp: stuck_def ends_at_def swap_ended_def kept_identity)
next
  case (unlists b)
  have "ident s \<noteq> sid" if "store (shared_server w) b = Some s" for s
    using assms(3) unlists(2) that unfolding stuck_def by (cases "b = a") auto
  moreover have "claim (unlist b (shared_server w)) u = claim (shared_server w) u" for u
    by (intro claim_unspawned) (simp add: unlist_def reg_remove_def split: option.splits)
  ultimately show ?thesis using assms(3) unlists
    by (auto simp: stuck_def unlists_at_def) (auto simp: unlist_def reg_remove_def split: option.splits)
qed (use stuck_acts [OF assms(3)] in \<open>simp_all add: prints_at_def kept_identity\<close>)

lemma stuck_runs: "(crowd_step hx n p mk hkdf)\<^sup>*\<^sup>* w w' \<Longrightarrow> crowd_ok w \<Longrightarrow> stuck sid a w \<Longrightarrow> stuck sid a w'"
proof (induction rule: rtranclp_induct)
  case (step v v')
  then show ?case using stuck_step crowd.keeps_runs by blast
qed simp

lemma early_exit_sticks:
  assumes "crowd_ok w" and "asking w i = Spawned a" and "store (shared_server w) a = Some s" and "\<not> ended s"
    and "\<forall>j. j \<noteq> i \<longrightarrow> claim (shared_server w) (asking w j) \<noteq> Some (ident s)"
    and "\<forall>b t. b \<noteq> a \<longrightarrow> store (shared_server w) b = Some t \<longrightarrow> ident t = ident s \<longrightarrow> ended t \<and> b \<notin> unlisting w"
  shows "stuck (ident s) a (asks_at hx n p i (unlists_at a (ends_at a w)))"
proof -
  let ?t = "fst (mark_ended s)"
  let ?sv = "unlist a (swap_ended a (shared_server w))"
  have t: "ident ?t = ident s" "ended ?t" by (simp_all add: kept_identity)
  have sv: "store ?sv = (store (shared_server w))(a \<mapsto> ?t)"
    using assms(3) t by (auto simp: unlist_def swap_ended_def reg_remove_def fun_eq_iff)
  have claims: "claim (reg_insert a ?sv) (asking w j) = claim (shared_server w) (asking w j)" if "j \<noteq> i" for j
  proof (cases "asking w j")
    case (Spawned b)
    then show ?thesis using sv t assms(3) by (auto simp: reg_insert_def split: option.splits)
  qed simp_all
  have "asks_at hx n p i (unlists_at a (ends_at a w)) =
      w\<lparr>shared_server := reg_insert a ?sv, asking := (asking w)(i := Listed a), unlisting := unlisting w - {a}\<rparr>"
    using assms(2) by (simp add: asks_at_def unlists_at_def ends_at_def insert_Diff_if)
  moreover have "store (reg_insert a ?sv) = (store (shared_server w))(a \<mapsto> ?t)" "registry (reg_insert a ?sv) (ident s) = Some a"
    using sv t by (auto simp: reg_insert_def)
  ultimately show ?thesis using t claims assms(5,6) by (auto simp: stuck_def)
qed


section \<open>The last output of a shell\<close>

lemma writer_finds_end:
  assumes "is_current (seen_epoch ob) n" and "session_rep (seen_ring ob) h" and "unat cursor = length h"
    and "is_ended (seen_ended ob)"
  shows "server_writer put l cursor n (ob # obs) = (fst (put l Ended), cursor, Some SessionOver)"
proof -
  obtain off d where rd: "session_read_from (seen_ring ob) cursor = (off, d)" by force
  with session_log.read_end [OF assms(2,3) rd] assms(1,4) show ?thesis by simp
qed


section \<open>Runs\<close>

text \<open>Many requests and connections; the first request is for a session.\<close>

definition demo_crowd :: "bytes \<Rightarrow> crowd" where
  "demo_crowd r = \<lparr>shared_server = empty_server, asking = (\<lambda>_. Drawing demo_env 80 24 0),
     conns = (\<lambda>_. Coming (Greeting r open_sink (replicate 32 2))), unlisting = {}\<rparr>"

definition listed_session :: session where
  "listed_session = new_session (hex8 7) ''/bin/sh'' 80 24 16 5 [1]"

lemma demo_crowd_start: "crowd_start (demo_crowd r)"
  by (simp add: crowd_start_def demo_crowd_def)

definition demo_asked :: "bytes \<Rightarrow> nat \<Rightarrow> crowd" where
  "demo_asked r k = (asks_at string_of_bytes 16 1 0 ^^ k) (demo_crowd r)"

lemma demo_asked_steps: "(crowd_step string_of_bytes 16 1 mk hkdf)\<^sup>*\<^sup>* (demo_crowd r) (demo_asked r k)"
  unfolding demo_asked_def by (induction k) (auto intro: rtranclp.rtrancl_into_rtrancl crowd_step.asks)

lemma demo_asked_2:
  "demo_asked r 2 = \<lparr>shared_server = \<lparr>store = [0 \<mapsto> listed_session], next_addr = 1, registry = (\<lambda>_. None)\<rparr>,
     asking = (\<lambda>_. Drawing demo_env 80 24 0)(0 := Spawned 0),
     conns = (\<lambda>_. Coming (Greeting r open_sink (replicate 32 2))), unlisting = {}\<rparr>"
proof -
  have "demo_asked r 2 = asks_at string_of_bytes 16 1 0 (asks_at string_of_bytes 16 1 0 (demo_crowd r))"
    by (simp add: demo_asked_def numeral_2_eq_2)
  then show ?thesis
    by (simp add: asks_at_def demo_crowd_def empty_server_def reg_contains_def
        start_session_def alloc_def demo_env_def listed_session_def)
qed

lemma demo_asked_3:
  "demo_asked r 3 = \<lparr>shared_server = demo_server,
     asking = (\<lambda>_. Drawing demo_env 80 24 0)(0 := Listed 0),
     conns = (\<lambda>_. Coming (Greeting r open_sink (replicate 32 2))), unlisting = {}\<rparr>"
proof -
  have "demo_asked r 3 = asks_at string_of_bytes 16 1 0 (demo_asked r 2)"
    by (simp add: demo_asked_def numeral_3_eq_3 numeral_2_eq_2)
  then show ?thesis unfolding demo_asked_2
    by (simp add: asks_at_def reg_insert_def demo_server_def listed_session_def new_session_def)
qed

lemma listed_session_facts:
  "ident listed_session = hex8 7" "\<not> is_ended listed_session" "is_current listed_session 0" "session_rep listed_session []"
  using session_rep_new by (simp_all add: listed_session_def new_session_def is_ended_def is_current_def)

lemma demo_server_session: "store demo_server 0 = Some listed_session" "live_session demo_server (hex8 7) = Some (0, listed_session)"
  by (simp_all add: demo_server_def listed_session_def Let_def live_session_def reg_get_def new_session_def is_ended_def)

text \<open>The accesses of a connection that is alone are steps of the crowd.\<close>

lemma arriving_steps:
  "conns w i = Coming t \<Longrightarrow> arriving_run mk hkdf k (shared_server w, t) = (sv', t') \<Longrightarrow>
     (crowd_step hx m p mk hkdf)\<^sup>*\<^sup>* w (w\<lparr>shared_server := sv', conns := (conns w)(i := Coming t')\<rparr>)"
proof (induction k arbitrary: w t)
  case 0
  then have "w\<lparr>shared_server := sv', conns := (conns w)(i := Coming t')\<rparr> = w" by (auto simp: fun_upd_idem)
  then show ?case by (simp only: rtranclp.rtrancl_refl)
next
  case (Suc k)
  show ?case
  proof (cases "\<exists>c e. t = Serving c e")
    case True
    with Suc.prems have "sv' = shared_server w" "t' = t" by auto
    then have "w\<lparr>shared_server := sv', conns := (conns w)(i := Coming t')\<rparr> = w"
      using Suc.prems(1) by (auto simp: fun_upd_idem)
    then show ?thesis by (simp only: rtranclp.rtrancl_refl)
  next
    case False
    obtain sv1 t1 where acc: "arrival_access mk hkdf t (shared_server w) = (sv1, t1)" by force
    with False Suc.prems(1) have "conn_access mk hkdf (conns w i) (shared_server w) = (sv1, Coming t1)"
      by (cases t) auto
    then have eq: "connects_at mk hkdf i w = w\<lparr>shared_server := sv1, conns := (conns w)(i := Coming t1)\<rparr>"
      by (simp add: connects_at_def)
    let ?w = "w\<lparr>shared_server := sv1, conns := (conns w)(i := Coming t1)\<rparr>"
    have "crowd_step hx m p mk hkdf w ?w" using crowd_step.connects [of hx m p mk hkdf w i] eq by simp
    moreover have "(crowd_step hx m p mk hkdf)\<^sup>*\<^sup>* ?w
        (?w\<lparr>shared_server := sv', conns := (conns ?w)(i := Coming t')\<rparr>)"
      by (rule Suc.IH [of _ t1]) (use Suc.prems acc in auto)
    ultimately have "(crowd_step hx m p mk hkdf)\<^sup>*\<^sup>* w (?w\<lparr>shared_server := sv', conns := (conns ?w)(i := Coming t')\<rparr>)"
      by (rule converse_rtranclp_into_rtranclp)
    moreover have "?w\<lparr>shared_server := sv', conns := (conns ?w)(i := Coming t')\<rparr> =
        w\<lparr>shared_server := sv', conns := (conns w)(i := Coming t')\<rparr>" by simp
    ultimately show ?thesis by (simp only:)
  qed
qed

text \<open>The session is created and registered, and a connection holds it.\<close>

lemma demo_holds:
  "\<exists>r w. (crowd_step string_of_bytes 16 1 (\<lambda>_. tag_cipher) (\<lambda>_ _ _ _. []))\<^sup>*\<^sup>* (demo_crowd r) w \<and> holds 0 0 1 w \<and>
     reg_get (shared_server w) (hex8 7) = Some 0"
proof -
  let ?mk = "\<lambda>_ :: bytes. tag_cipher" and ?kdf = "\<lambda>_ _ _ _. [] :: bytes"
  from demo_connects obtain r c where
      c: "tcp_connect ?mk ?kdf demo_server r open_sink (replicate 32 2) =
        (on_session 0 (\<lambda>s. fst (become_active s)) demo_server, Inr (c, 1))" "at_addr c = 0" by blast
  let ?sv = "on_session 0 (\<lambda>s. fst (become_active s)) demo_server"
  let ?w = "(demo_asked r 3)\<lparr>shared_server := ?sv, conns := (conns (demo_asked r 3))(0 := Coming (Serving c 1))\<rparr>"
  have "arriving_run ?mk ?kdf 8 (shared_server (demo_asked r 3), Greeting r open_sink (replicate 32 2)) = (?sv, Serving c 1)"
    unfolding arriving_is_tcp_connect using c(1) by (simp add: demo_asked_3)
  from arriving_steps [where hx = string_of_bytes and m = 16 and p = 1, OF _ this]
  have "(crowd_step string_of_bytes 16 1 ?mk ?kdf)\<^sup>*\<^sup>* (demo_asked r 3) ?w" by (simp add: demo_asked_3)
  with demo_asked_steps have "(crowd_step string_of_bytes 16 1 ?mk ?kdf)\<^sup>*\<^sup>* (demo_crowd r) ?w"
    by (blast intro: rtranclp_trans)
  moreover have "holds 0 0 1 ?w"
    using demo_server_session(1) c(2)
    by (auto simp: holds_def demo_asked_3 session_defs listed_session_def new_session_def)
  moreover have "reg_get (shared_server ?w) (hex8 7) = Some 0"
    by (simp add: demo_server_def Let_def reg_get_def)
  ultimately show ?thesis by blast
qed

theorem attached_session_keeps_key_witness:
  "\<exists>(w :: crowd) s. store (shared_server w) 0 = Some s \<and> is_busy s \<and>
     do_attach string_of_bytes 1 demo_env (shared_server w) (hex8 7) =
       (shared_server w, ErrResponse ''session busy (already attached)'')"
proof -
  from demo_holds obtain r w where w:
      "(crowd_step string_of_bytes 16 1 (\<lambda>_. tag_cipher) (\<lambda>_ _ _ _. []))\<^sup>*\<^sup>* (demo_crowd r) w" "holds 0 0 1 w"
      "reg_get (shared_server w) (hex8 7) = Some 0" by blast
  from attached_session_keeps_key [where hx = string_of_bytes and p = 1, OF demo_crowd_start w(1,2) rtranclp.rtrancl_refl] w(3)
  show ?thesis by (elim exE conjE) (intro exI conjI, assumption, assumption, simp)
qed

theorem ended_session_gone_witness:
  "\<exists>w :: crowd. unlisting w = {} \<and> map_option is_ended (store (shared_server w) 0) = Some True \<and>
     reg_get (shared_server w) (hex8 7) \<noteq> Some 0"
proof -
  let ?w = "demo_asked [] 3"
  have w: "store (shared_server ?w) 0 = Some listed_session" "\<forall>i. asking ?w i \<noteq> Spawned 0" "unlisting ?w = {}"
    by (simp_all add: demo_asked_3 demo_server_session)
  have step: "(crowd_step string_of_bytes 16 1 (\<lambda>_. tag_cipher) (\<lambda>_ _ _ _. []))\<^sup>*\<^sup>* (ends_at 0 ?w) (unlists_at 0 (ends_at 0 ?w))"
    by (rule r_into_rtranclp, rule crowd_step.unlists) (simp add: ends_at_def)
  have u: "unlisting (unlists_at 0 (ends_at 0 ?w)) = {}" by (simp add: unlists_at_def ends_at_def w(3))
  then have "0 \<notin> unlisting (unlists_at 0 (ends_at 0 ?w))" by simp
  note gone = ended_session_gone [OF demo_crowd_start demo_asked_steps w(1) listed_session_facts(2) w(2) step this]
  from conjunct1 [OF gone] obtain s2 where "store (shared_server (unlists_at 0 (ends_at 0 ?w))) 0 = Some s2" "is_ended s2"
    by blast
  moreover from conjunct1 [OF conjunct2 [OF gone]]
  have "reg_get (shared_server (unlists_at 0 (ends_at 0 ?w))) (hex8 7) \<noteq> Some 0" by blast
  ultimately show ?thesis using u by (intro exI [of _ "unlists_at 0 (ends_at 0 ?w)"]) auto
qed



end
