(* ===== verification/Spec2Isabelle.thy ===== *)
theory Spec2Isabelle
  imports Session_Threads Client_Run Startup Takeover Interleaving Remote_Commands Heartbeat Unit_Tests
    Whole_System Typing Reconnecting Daemon_Start Replay_Test Client_Tests Crowd
begin

text \<open>
  A verification development for thther, a persistent remote terminal. A client starts a
  session on a server over ssh, then talks to the server's daemon over an encrypted TCP
  connection that may break and be taken up again; the session, its shell and the output
  it has produced stay in the daemon.

  \<^bold>\<open>The program's parts.\<close>
  On the server one daemon per user (src/server/daemon.rs) holds a table of sessions
  (registry.rs), each with a PTY, a ring buffer of recent output, a key and the epoch of
  its active connection (session.rs). The agent (agent.rs), run by ssh, sends control
  requests to the daemon over a Unix socket and starts a daemon if there is none. The
  client (src/client/session.rs) authenticates with the session's key (proto/handshake.rs,
  proto/crypto.rs), exchanges frames (proto/frame.rs), commits the output it has shown by
  absolute offset, and reconnects with a growing delay (client/reconnect.rs).

  \<^bold>\<open>Theories, in import order, and the code each one models.\<close>
  \<^item> \<open>Transitions\<close>: the contracts \<open>step_invariant\<close>, \<open>simulation\<close> and \<open>trace_refinement\<close> of the step
    relations, the last for steps whose visible effect is a label.
  \<^item> \<open>Thther_Prelude\<close>: machine integers, byte encodings and their contract \<open>fixed_width\<close>,
    UTF-8 and its lossy reading, lines, trimming and formatting of strings, the error values
    and the chains of contexts around them, sinks for bytes.
  \<^item> \<open>Crypto\<close> (proto/crypto.rs): key derivation, nonces, sealer and opener; the contracts
    \<open>record_channel\<close> and \<open>tight_channel\<close>.
  \<^item> \<open>Frame\<close> (proto/frame.rs): frames, encoder, decoder, framed reads and writes; the
    contract \<open>stream_channel\<close> of messages over a byte stream that may be cut anywhere.
  \<^item> \<open>Handshake\<close> (proto/handshake.rs) and \<open>Control\<close> (proto/control.rs): the messages.
  \<^item> \<open>Ring\<close> (\<open>RingBuf\<close> of server/session.rs): the replay buffer and the contract
    \<open>output_log\<close>, whose abstract state is the whole output, the history.
  \<^item> \<open>Session\<close> (server/session.rs): \<open>SessionShared\<close>, its operations, the PTY threads; the
    contract \<open>takeover\<close>. \<open>Takeover\<close>: the atomic accesses of those operations interleaved.
  \<^item> \<open>Registry\<close> (server/registry.rs): sessions by address (the code's \<open>Arc\<close>), the table by
    identifier; the contract \<open>session_table\<close> and the invariant \<open>server_ok\<close>.
  \<^item> \<open>Config\<close> (config.rs, and the configuration of main.rs).
  \<^item> \<open>Daemon\<close> (server/daemon.rs): port binding and control requests. \<open>Startup\<close>: the start of
    several daemons at once. \<open>Daemon_Start\<close>: the code of one start (\<open>run\<close> up to its accept loops),
    call by call with every error, and the log filter of main.rs. \<open>Connection\<close>: TCP connections, reader and writer.
    \<open>Daemon_Run\<close>: all of them in any order. \<open>Session_Threads\<close>: the threads of a session's
    PTY (\<open>spawn_session\<close> of server/session.rs). \<open>Service\<close>: the accept loops, a whole TCP
    connection, and the answers that give a client its session. \<open>Directory\<close>: the abstract
    specification of the daemon, a directory with a key, an epoch and a busy flag per live
    session, and the refinement. \<open>Interleaving\<close>: create and attach requests at the grain of
    their single accesses (\<open>new_session_id\<close>, \<open>execute_control\<close>). \<open>Arrival\<close>: the same for a TCP
    connection up to the point where it is active (\<open>handle_tcp\<close>). \<open>Crowd\<close>: all of these accesses,
    those of \<open>leave\<close> and \<open>mark_ended\<close> included, interleaved in any order.
  \<^item> \<open>Agent\<close> (server/agent.rs): \<open>obtain\<close>, its exchange with the daemon, the start of a daemon.
  \<^item> \<open>Bootstrap\<close> (client/bootstrap.rs): the ssh command lines and the search of ssh's output
    for the agent's line. \<open>Command_Line\<close> (main.rs): the parsed command line, its dispatch, the
    client's commands, and the way of a new session over ssh, agent and daemon and back.
    \<open>Remote_Commands\<close>: the same way for attach, ls and kill.
  \<^item> \<open>Client_Output\<close> (\<open>SessionOutput\<close> of client/session.rs): the terminal and the contract
    \<open>terminal\<close>; \<open>Reconnect\<close> (client/reconnect.rs); \<open>Client_Session\<close> (client/session.rs): the
    halves of a connection, one connection, the reconnect loop; \<open>Client_Run\<close>: the keyboard
    thread, the attempts of a session one after the other, \<open>run_interactive\<close>.
  \<^item> \<open>Resume\<close>: the path of the output from the shell to the terminal, over connections that
    come and go. \<open>Viewer\<close>: the abstract specification of that path, a log and one who views it,
    and the refinement. \<open>Delivery\<close>: a whole attempt of the client against a whole connection of
    the server, byte by byte. \<open>Reconnecting\<close>: a whole interactive session of such attempts, most
    of them cut somewhere. \<open>Heartbeat\<close>: the timeout of the server's reader and the tick of
    the client's writer, on a clock. \<open>Whole_System\<close>: the daemon with all its sessions and any
    number of clients. \<open>Typing\<close>: the path of the keys across reconnects. \<open>Unit_Tests\<close>: the
    inline tests of the source, run on the model; \<open>Replay_Test\<close>: the one with a real PTY, whose
    output is an argument; \<open>Client_Tests\<close>: those of the client. This theory: the path of the keys
    from the user to the shell, and the frames of both ends.

  \<^bold>\<open>How the code is modelled.\<close>
  A struct is a record, an enum a datatype; \<open>u8\<close> to \<open>u64\<close> are words with their wrap-around,
  \<open>usize\<close> is a natural number. A fallible function returns \<open>error + 'a\<close>. A connection is the
  bytes that will still arrive before its end and a sink that may refuse bytes at any
  point. A loop that waits for several things is given the list of what happens to it, one
  entry per iteration. Mutex-protected data is a field of the state, and the theories named
  above interleave the accesses that the code does not make under one lock.
  Random numbers, the clock, the results of the operating system and the order of the hash
  map are arguments, and so is library code: the cipher (\<open>cipher_ok\<close>: decryption inverts
  encryption, with a tag of 16 bytes; \<open>nonce_bound\<close>: a ciphertext does not open under
  another nonce, the idealised form of authentication; \<open>encrypts\<close>: what fits a record can be
  encrypted), HKDF, hex, TOML and JSON.

  \<^bold>\<open>What is shown.\<close>
  The output: each of any number of clients shows the output of its own session exactly once
  and in order, with exact notices for what the buffer had dropped, over all reconnects and
  whatever the daemon does meanwhile; it can catch up whenever a connection is accepted, and a
  session that goes on and ends is delivered to its end, from \<open>handle_tcp\<close> to \<open>connect_once\<close>; seen from
  one client, the whole is the specification of \<open>Viewer\<close> (\<open>Whole_System\<close>, resting on \<open>Resume\<close>,
  \<open>Viewer\<close> and \<open>Delivery\<close>, which say it for one session and one client). Once the first attempt
  has been connected, however many attempts are cut, and at whatever byte, none ends the session or
  disturbs the terminal, and when the last
  connection holds, \<open>run_interactive\<close> returns with all of the output shown (\<open>Reconnecting\<close>).
  The sessions: whatever the daemon answers is what the directory allows at that point, a key
  that was handed out opens its session until another one is (\<open>Directory\<close>); registry and
  sessions stay in step (\<open>Daemon_Run\<close>), at the grain of single accesses too, but for two races
  (\<open>Interleaving\<close>); under every interleaving of accesses an attached session keeps its key, if neither of
  two races has begun, and a session that has ended after its registration is gone (\<open>Crowd\<close>); a
  connection or a request that is refused has no effect (\<open>Connection\<close>, \<open>Daemon\<close>), and one that is
  accepted leaves only what it should (\<open>Service\<close>); the PTY's reader records all it reads
  (\<open>Session_Threads\<close>); one daemon owns the socket (\<open>Startup\<close>), and each start publishes it last, in a
  directory of its own if the modes can be set, by steps of \<open>Startup\<close> (\<open>Daemon_Start\<close>).
  The commands: the client dials the very session the daemon made for it or keeps for it, or
  reports why there is none, and ls prints the live sessions (\<open>Command_Line\<close>, \<open>Remote_Commands\<close>);
  the agent never repeats an operation (\<open>Agent\<close>); the client returns after the first result it
  does not retry and gives the terminal back (\<open>Client_Run\<close>).
  The wire: the shell reads what was typed, and both ends send only frames the other reads
  (here); over reconnects no key comes twice or out of order, wherever a connection refuses our
  bytes or loses them, if each is read before the next (\<open>Typing\<close>); both ends of an
  accepted connection agree and a refused client reads why (\<open>Connection\<close>); no record opens out of its
  place (\<open>Crypto\<close>); heartbeats keep a connection alive within 17 seconds of lateness and
  latency, and a silent peer is dropped (\<open>Heartbeat\<close>).
  Eight theorems record runs that the code does not intend:
  \<open>departure_can_free_successor\<close>, \<open>final_output_can_be_lost\<close>, \<open>early_exit_stays_registered\<close>,
  \<open>same_draw_displaces_session\<close>, \<open>busy_test_races_rotation\<close>, \<open>old_key_outlives_rotation\<close>,
  \<open>stale_input_overtakes\<close>, \<open>mode_errors_ignored\<close>.

  \<^bold>\<open>Bounds and fuel.\<close>
  The output of a session is below \<open>2 ^ 64\<close> bytes, the range of its offsets. \<open>drain\<close> and
  the writer's catching up get one turn per byte of output; every turn that finds output
  moves the cursor, so that is enough. A writer that is observed until its session has ended
  gets one turn more than there are bytes after that, for the end itself. The agent polls 40 times as the code does. The
  search for a session identifier is a partial function; it is defined when a draw is free.
  The times of \<open>Heartbeat\<close> are milliseconds: 20000 for the timeout, 3000 for the tick.

  \<^bold>\<open>Not modelled.\<close>
  What is logged; the argument parser, whose result
  \<open>Command_Line\<close> starts from; the shell script remote_bootstrap.sh, which is not Rust, and the
  remote shell's reading of ssh's arguments; the text of a string's \<open>Debug\<close> form and of exit
  statuses, which are arguments; the tests of clap's and of TOML's parser, of sockets alone and
  of the order in which tokio polls its tasks.
\<close>

section \<open>From the keyboard to the shell\<close>

text \<open>What the client's writer puts on the wire, when each chunk of keys is one read of 4096 bytes.\<close>

fun keys_fit :: "writer_event \<Rightarrow> bool" where
  "keys_fit (Keys (Some bs)) \<longleftrightarrow> length bs \<le> 4096"
| "keys_fit _ \<longleftrightarrow> True"

lemma scan_keys_length: "scan_keys p [] bs = Some (p', out) \<Longrightarrow> length out \<le> Suc (length bs)"
  using scan_keys_transparent [of p "[]" bs p' out, THEN arg_cong [of _ _ length]]
  by (auto simp: held_def split: if_splits)

lemma client_frames_sendable:
  "client_writer log_frame fs p evs = (fs', res) \<Longrightarrow> list_all keys_fit evs \<Longrightarrow>
     list_all sendable fs \<Longrightarrow> list_all sendable fs'"
proof (induction "log_frame :: frame list \<Rightarrow> frame \<Rightarrow> frame list \<times> bool" fs p evs
    arbitrary: fs' res rule: client_writer.induct)
  case (3 fs p bs evs)
  show ?case
  proof (cases "scan_keys p [] bs")
    case None
    with 3 show ?thesis by simp
  next
    case (Some r)
    obtain p' out where r: "r = (p', out)" by force
    from scan_keys_length Some r "3.prems"(2) have "sendable (Data out)"
      by (fastforce simp: sendable_def MAX_RECORD_def)
    with 3 Some r show ?thesis by (auto simp: log_frame_fold split: if_splits)
  qed
qed (auto simp: log_frame_fold sendable_def MAX_RECORD_def split: if_splits)

text \<open>C8. Keystrokes reach the shell intact: what the client's writer has put on the connection by
  the time it waits for its next event, whatever of the kernel's buffers that takes, is read by
  the server to its end, and what the server then writes to the PTY is what the user typed, byte
  for byte, whatever resizes, pongs and heartbeats go with it, less a prefix byte the client
  still holds back.\<close>

theorem keystrokes_reach_shell:
  assumes "in_sync sl op" and "client_writer put_frame (w, sl) False evs = ((w', sl'), None)"
    and "written w = []" and "pty_open s" and "to_pty s = []" and "reliable (fed p)"
  shows "\<exists>n s' p' q. server_reader (written w') op s (replicate n taking_turn) = (s', False) \<and>
           pty_writer p (to_pty s') = (p', True) \<and>
           written (fed p) @ typed evs = written (fed p') @ held q"
proof -
  from client_writer_carries [OF assms(2)] assms(3) obtain fs cs sl2 q where
      fs: "traverse frame_wire sl fs = (sl2, Inr cs)" "list_all well_formed fs" "written w' = concat cs"
        "sent_input fs @ held q = typed evs" by (auto simp: carries_def)
  from server_reader_run [OF assms(1) fs(2,1), of s] fold_on_frame_pty [OF assms(4), of fs] assms(5)
  have "server_reader (written w') op s (replicate (length fs) taking_turn) = (fold on_frame fs s, False)"
    and "to_pty (fold on_frame fs s) = pty_msgs fs" by (simp_all add: fs(3))
  moreover from pty_writer_feeds [OF assms(6), of "pty_msgs fs"] obtain p' where
      "pty_writer p (pty_msgs fs) = (p', True)" "written (fed p') = written (fed p) @ sent_input fs" by auto
  ultimately show ?thesis using fs(4) by (metis append.assoc)
qed

theorem keystrokes_reach_shell_witness:
  "\<exists>w sl n s' p' q. client_writer put_frame (open_sink, new_sealer (\<lambda>_. tag_cipher) [] 0) False
        [Keys (Some [104]), Keys (Some [105])] = ((w, sl), None) \<and>
     server_reader (written w) (new_opener (\<lambda>_. tag_cipher) [] 0)
        (new_session [] [] 80 24 0 0 []) (replicate n taking_turn) = (s', False) \<and>
     pty_writer \<lparr>fed = open_sink, cols_rows = (80, 24)\<rparr> (to_pty s') = (p', True) \<and>
     [104, 105] = written (fed p') @ held q"
proof -
  let ?sl = "new_sealer (\<lambda>_. tag_cipher) [] 0"
  have "\<exists>w sl. client_writer put_frame (open_sink, ?sl) False
        [Keys (Some [104]), Keys (Some [105])] = ((w, sl), None)"
    by (simp add: put_frame_def write_frame_reliable reliable_open_sink reliable_def
        seal_def new_sealer_def tag_cipher_def checked_add_def MAX_RECORD_def DETACH_PREFIX_def DETACH_KEY_def open_sink_def)
  then obtain w sl where cw: "client_writer put_frame (open_sink, ?sl) False
      [Keys (Some [104]), Keys (Some [105])] = ((w, sl), None)" by blast
  have sync: "in_sync ?sl (new_opener (\<lambda>_. tag_cipher) [] 0)"
    by (rule new_ends_in_sync) (rule tag_cipher_ok)
  have s: "pty_open (new_session [] [] 80 24 0 0 [])" "to_pty (new_session [] [] 80 24 0 0 []) = []"
    "reliable (fed \<lparr>fed = open_sink, cols_rows = (80, 24)\<rparr>)"
    by (simp_all add: new_session_def)
  from keystrokes_reach_shell [OF sync cw _ s] cw show ?thesis by fastforce
qed

text \<open>C20. Everything sent is well typed: each frame that the server's writer or the client's writer
  puts on the wire is one that the other end's decoder reads back as that frame, and fits a record
  with its tag, whatever the sessions hold and whatever is typed.\<close>

theorem frames_sent_are_sendable:
  assumes "\<forall>ob \<in> set obs. \<exists>h. session_rep (seen_ring ob) h"
    and "server_writer log_frame [] cursor epoch obs = (fs, cursor', stop)"
    and "list_all keys_fit evs" and "client_writer log_frame [] False evs = (gs, res)"
    and "f \<in> set fs \<union> set gs"
  shows "decode (encode f) = Inr f \<and> length (encode f) + 16 \<le> unat MAX_RECORD"
proof -
  from server_frames_sendable [OF assms(1,2)] client_frames_sendable [OF assms(4,3)] assms(5)
  have "sendable f" by (auto simp: list_all_iff)
  then show ?thesis by (simp add: sendable_def decode_encode)
qed

theorem frames_sent_are_sendable_witness:
  "decode (encode Ended) = Inr Ended \<and>
   decode (encode (Data [28, 65])) = Inr (Data [28, 65]) \<and> length (encode (Data [28, 65])) + 16 \<le> unat MAX_RECORD"
proof -
  let ?s = "fst (mark_ended (new_session [] [] 80 24 16 0 []))"
  let ?ob = "observe ?s DataReady"
  have o1: "\<forall>ob \<in> set [?ob]. \<exists>h. session_rep (seen_ring ob) h"
    using session_rep_new [of "[]" "[]" 80 24 16 0 "[]"] by (auto simp: observe_def session_rep_def)
  have sv: "server_writer log_frame [] 0 0 [?ob] = ([Ended], 0, Some SessionOver)"
    by (simp add: observe_def session_defs new_session_def ring_new_def ring_read_from_def ring_total_def
        log_frame_fold)
  have cw: "client_writer log_frame [] False [Keys (Some [28]), Keys (Some [65])] = ([Data [28, 65]], None)"
    by (simp add: DETACH_PREFIX_def DETACH_KEY_def)
  have "list_all keys_fit [Keys (Some [28]), Keys (Some [65])]" by simp
  note sent = frames_sent_are_sendable [OF o1 sv this cw]
  from sent [of Ended] sent [of "Data [28, 65]"] show ?thesis by simp
qed

end
